(* ===== verification/Pintos_Prelude.thy ===== *)
theory Pintos_Prelude
  imports "HOL-Library.Word" "HOL-Library.Monad_Syntax" "HOL-Library.Multiset"
begin

unbundle bit_operations_syntax

text \<open>
  What the component theories share.

  \<^item> The C integer types of the 32-bit kernel that the model keeps at their width.
  \<^item> \<open>ASSERT\<close>: a kernel operation that can stop the machine returns an \<open>option\<close>;
    \<open>None\<close> is a failed \<open>ASSERT\<close>, a \<open>PANIC\<close> or an access the C standard leaves
    undefined.  Error codes the caller can see (\<open>false\<close>, \<open>-1\<close>, a null pointer,
    \<open>BITMAP_ERROR\<close>) are ordinary values under \<open>Some\<close>.
  \<^item> Byte buffers: \<open>memcpy\<close> into a buffer (\<open>overwrite\<close>) and out of it (\<open>subbuf\<close>), and
    the little-endian layout of a 32-bit field.
  \<^item> \<open>fifo_queue\<close>: the contract of a first-in first-out queue, which the kernel's linked lists
    and the interrupt queue of the character devices both provide.
  \<^item> The collections \<open>kernel_simps\<close> (rewrites that carry the component proofs) and
    \<open>inv_intros\<close> (rules that rebuild an invariant after an operation).
\<close>

named_theorems kernel_simps \<open>rewrite rules about the kernel operations\<close>
named_theorems inv_intros \<open>an operation keeps its component's invariant\<close>

type_synonym u8 = "8 word"
type_synonym u32 = "32 word"
type_synonym u64 = "64 word"

text \<open>The assertion macro of \<open>lib/debug.h\<close>: a false condition panics the kernel.\<close>

definition ASSERT :: "bool \<Rightarrow> unit option" where
  "ASSERT b = (if b then Some () else None)"

text \<open>\<open>DIV_ROUND_UP\<close> and \<open>ROUND_UP\<close> of \<open>lib/round.h\<close> on non-negative values.\<close>

definition DIV_ROUND_UP :: "nat \<Rightarrow> nat \<Rightarrow> nat" where
  "DIV_ROUND_UP x step = (x + step - 1) div step"

text \<open>
  \<open>overwrite buf ofs src\<close> is the buffer after \<open>memcpy (buf + ofs, src, length src)\<close>;
  \<open>subbuf buf ofs n\<close> is what \<open>memcpy (dst, buf + ofs, n)\<close> copies.  Both are only used
  where the access stays inside the buffer.
\<close>

definition overwrite :: "'a list \<Rightarrow> nat \<Rightarrow> 'a list \<Rightarrow> 'a list" where
  "overwrite buf ofs src = take ofs buf @ src @ drop (ofs + length src) buf"

definition subbuf :: "'a list \<Rightarrow> nat \<Rightarrow> nat \<Rightarrow> 'a list" where
  "subbuf buf ofs n = take n (drop ofs buf)"

text \<open>A 32-bit field in memory, least significant byte first (x86).\<close>

definition enc32 :: "u32 \<Rightarrow> u8 list" where
  "enc32 w = [ucast w, ucast (drop_bit 8 w), ucast (drop_bit 16 w), ucast (drop_bit 24 w)]"

definition dec32 :: "u8 list \<Rightarrow> u32" where
  "dec32 bs = (case bs of
     [a, b, c, d] \<Rightarrow>
       ucast a OR push_bit 8 (ucast b) OR push_bit 16 (ucast c) OR push_bit 24 (ucast d)
   | _ \<Rightarrow> 0)"

definition enc32s :: "u32 list \<Rightarrow> u8 list" where
  "enc32s ws = concat (map enc32 ws)"

fun dec32s :: "nat \<Rightarrow> u8 list \<Rightarrow> u32 list" where
  "dec32s 0 bs = []"
| "dec32s (Suc n) bs = dec32 (take 4 bs) # dec32s n (drop 4 bs)"


section \<open>Assertions and option chains\<close>

lemma ASSERT_True [simp]: "ASSERT True = Some ()"
  by (simp add: ASSERT_def)

lemma ASSERT_False [simp]: "ASSERT False = None"
  by (simp add: ASSERT_def)

lemma ASSERT_eq_Some [simp]: "ASSERT b = Some u \<longleftrightarrow> b"
  by (simp add: ASSERT_def)

lemma ASSERT_eq_None [simp]: "ASSERT b = None \<longleftrightarrow> \<not> b"
  by (simp add: ASSERT_def)

lemma bind_Some_iff: "Option.bind m f = Some y \<longleftrightarrow> (\<exists>x. m = Some x \<and> f x = Some y)"
  by (cases m) auto

lemma ASSERT_bind_Some [kernel_simps]:
  "Option.bind (ASSERT b) f = Some y \<longleftrightarrow> b \<and> f () = Some y"
  by (cases b) auto

lemma ASSERT_bind [simp]: "b \<Longrightarrow> Option.bind (ASSERT b) f = f ()"
  by simp


section \<open>Byte buffers\<close>

lemma length_overwrite [simp]:
  "ofs + length src \<le> length buf \<Longrightarrow> length (overwrite buf ofs src) = length buf"
  by (simp add: overwrite_def)

lemma length_subbuf [simp]: "ofs + n \<le> length buf \<Longrightarrow> length (subbuf buf ofs n) = n"
  by (simp add: subbuf_def)

lemma nth_subbuf [simp]: "i < n \<Longrightarrow> ofs + n \<le> length buf \<Longrightarrow> subbuf buf ofs n ! i = buf ! (ofs + i)"
  by (simp add: subbuf_def)

lemma nth_overwrite:
  assumes "ofs + length src \<le> length buf" "i < length buf"
  shows "overwrite buf ofs src ! i =
    (if ofs \<le> i \<and> i < ofs + length src then src ! (i - ofs) else buf ! i)"
  using assms by (auto simp: overwrite_def nth_append)

lemma subbuf_overwrite [simp]:
  "ofs + length src \<le> length buf \<Longrightarrow> n = length src \<Longrightarrow> subbuf (overwrite buf ofs src) ofs n = src"
  by (simp add: overwrite_def subbuf_def)

lemma overwrite_all [simp]: "length src = length buf \<Longrightarrow> overwrite buf 0 src = src"
  by (simp add: overwrite_def)

lemma subbuf_all [simp]: "n = length buf \<Longrightarrow> subbuf buf 0 n = buf"
  by (simp add: subbuf_def)


section \<open>Little-endian fields\<close>

lemma length_enc32 [simp]: "length (enc32 w) = 4"
  by (simp add: enc32_def)

lemma dec32_enc32 [simp]: "dec32 (enc32 w) = w"
proof (rule bit_word_eqI)
  fix n
  assume "n < LENGTH(32)"
  then consider "n < 8" | "8 \<le> n \<and> n < 16" | "16 \<le> n \<and> n < 24" | "24 \<le> n \<and> n < 32"
    by force
  then show "bit (dec32 (enc32 w)) n = bit w n"
    by cases (auto simp: dec32_def enc32_def bit_simps)
qed

lemma length_enc32s [simp]: "length (enc32s ws) = 4 * length ws"
  by (induction ws) (simp_all add: enc32s_def)

lemma length_dec32s [simp]: "length (dec32s n bs) = n"
  by (induction n arbitrary: bs) simp_all

lemma dec32s_enc32s [simp]: "dec32s (length ws) (enc32s ws @ rest) = ws"
  by (induction ws arbitrary: rest) (simp_all add: enc32s_def)


section \<open>Words and natural numbers\<close>

lemma unat_of_nat32: "n < 2 ^ 32 \<Longrightarrow> unat (of_nat n :: u32) = n"
  by (simp add: unat_of_nat take_bit_nat_eq_self)

lemma unat_plus_of_nat32: "unat a + n < 2 ^ 32 \<Longrightarrow> unat (a + of_nat n :: u32) = unat a + n"
  using unat_of_nat32 [of "unat a + n"] by simp

lemma unat_bound32: "unat (w :: u32) < 2 ^ 32"
  using unsigned_less [of w, where 'a = nat] by simp

lemma of_nat_eqI32: "unat (w :: u32) = n \<Longrightarrow> w = of_nat n"
  by auto


section \<open>First-in first-out queues\<close>

text \<open>Add a sequence of items to a queue; take a number of items from it.\<close>

fun enq_all :: "('s \<Rightarrow> 'a \<Rightarrow> 's option) \<Rightarrow> 's \<Rightarrow> 'a list \<Rightarrow> 's option" where
  "enq_all enq s [] = Some s"
| "enq_all enq s (x # xs) = do { s \<leftarrow> enq s x; enq_all enq s xs }"

fun deq_many :: "('s \<Rightarrow> ('a \<times> 's) option) \<Rightarrow> nat \<Rightarrow> 's \<Rightarrow> ('a list \<times> 's) option" where
  "deq_many deq 0 s = Some ([], s)"
| "deq_many deq (Suc n) s = do { (x, s) \<leftarrow> deq s; (xs, s) \<leftarrow> deq_many deq n s; Some (x # xs, s) }"

text \<open>
  \<open>rep s xs\<close>: the state \<open>s\<close> holds the items \<open>xs\<close>, oldest first.  \<open>fits\<close> says which contents the
  queue can hold: a linked list takes every element at most once, a ring buffer is bounded.
\<close>

locale fifo_queue =
  fixes rep :: "'s \<Rightarrow> 'a list \<Rightarrow> bool"
    and fits :: "'a list \<Rightarrow> bool"
    and enq :: "'s \<Rightarrow> 'a \<Rightarrow> 's option"
    and deq :: "'s \<Rightarrow> ('a \<times> 's) option"
  assumes enq_law: "rep s xs \<Longrightarrow> fits (xs @ [x]) \<Longrightarrow> \<exists>s'. enq s x = Some s' \<and> rep s' (xs @ [x])"
    and deq_law: "rep s (x # xs) \<Longrightarrow> \<exists>s'. deq s = Some (x, s') \<and> rep s' xs"
    and deq_empty: "rep s [] \<Longrightarrow> deq s = None"
    and fits_prefix: "fits (xs @ ys) \<Longrightarrow> fits xs"
begin

lemma enq_all_rep:
  "rep s xs \<Longrightarrow> fits (xs @ ys) \<Longrightarrow> \<exists>s'. enq_all enq s ys = Some s' \<and> rep s' (xs @ ys)"
proof (induction ys arbitrary: s xs)
  case (Cons y ys)
  have "fits (xs @ [y])" using Cons.prems(2) fits_prefix [of "xs @ [y]" ys] by simp
  then obtain s1 where "enq s y = Some s1" "rep s1 (xs @ [y])" using enq_law [OF Cons.prems(1)] by blast
  then show ?case using Cons.IH [of s1 "xs @ [y]"] Cons.prems(2) by auto
qed simp

lemma deq_many_rep:
  "rep s (xs @ ys) \<Longrightarrow> \<exists>s'. deq_many deq (length xs) s = Some (xs, s') \<and> rep s' ys"
proof (induction xs arbitrary: s)
  case (Cons x xs)
  then obtain s1 where "deq s = Some (x, s1)" "rep s1 (xs @ ys)" using deq_law [of s x "xs @ ys"] by auto
  then show ?case using Cons.IH [of s1] by auto
qed simp

lemma first_in_first_out:
  assumes "rep s xs" "fits (xs @ ys)"
  shows "\<exists>s'. enq_all enq s ys \<bind> deq_many deq (length xs + length ys) = Some (xs @ ys, s')
    \<and> rep s' [] \<and> deq s' = None"
proof -
  obtain s1 where s1: "enq_all enq s ys = Some s1" "rep s1 (xs @ ys)"
    using enq_all_rep [OF assms] by blast
  then show ?thesis using deq_many_rep [of s1 "xs @ ys" "[]"] deq_empty by fastforce
qed

end

end
