(* ===== verification/Kernel_List.thy ===== *)
theory Kernel_List
  imports Pintos_Prelude
begin

text \<open>
  The doubly linked lists of \<open>lib/kernel/list.c\<close>, on an explicit store of list elements.

  A \<open>struct list *\<close> is the address of its \<open>head\<close> element; the \<open>tail\<close> element is the second
  member of the structure, eight bytes further on.  The store maps the address of every
  \<open>struct list_elem\<close> to its two links; address 0 is the null pointer.  The operations return the
  new store, and \<open>None\<close> where an \<open>ASSERT\<close> of the source fails; a loop over the links is a
  \<open>partial_function\<close>, so that running for ever on a cyclic store is \<open>None\<close> as well.

  \<open>lrep h l xs\<close> says that the store \<open>h\<close> holds a well-formed list \<open>l\<close> whose interior elements
  are \<open>xs\<close>, front to back.  Each operation is shown to refine the operation on \<open>xs\<close> it stands for.
\<close>

type_synonym addr = nat

abbreviation NULL :: addr where
  "NULL \<equiv> 0"

record list_elem =
  le_prev :: addr
  le_next :: addr

type_synonym heap = "addr \<Rightarrow> list_elem"

definition set_prev :: "heap \<Rightarrow> addr \<Rightarrow> addr \<Rightarrow> heap" where
  "set_prev h a v = h(a := (h a)\<lparr>le_prev := v\<rparr>)"

definition set_next :: "heap \<Rightarrow> addr \<Rightarrow> addr \<Rightarrow> heap" where
  "set_next h a v = h(a := (h a)\<lparr>le_next := v\<rparr>)"

section \<open>Operations\<close>

definition is_head :: "heap \<Rightarrow> addr \<Rightarrow> bool" where
  "is_head h e \<longleftrightarrow> e \<noteq> NULL \<and> le_prev (h e) = NULL \<and> le_next (h e) \<noteq> NULL"

definition is_interior :: "heap \<Rightarrow> addr \<Rightarrow> bool" where
  "is_interior h e \<longleftrightarrow> e \<noteq> NULL \<and> le_prev (h e) \<noteq> NULL \<and> le_next (h e) \<noteq> NULL"

definition is_tail :: "heap \<Rightarrow> addr \<Rightarrow> bool" where
  "is_tail h e \<longleftrightarrow> e \<noteq> NULL \<and> le_prev (h e) \<noteq> NULL \<and> le_next (h e) = NULL"

text \<open>\<open>&list->head\<close> and \<open>&list->tail\<close>.\<close>

definition head_of :: "addr \<Rightarrow> addr" where
  "head_of l = l"

definition tail_of :: "addr \<Rightarrow> addr" where
  "tail_of l = l + 8"

definition list_init :: "heap \<Rightarrow> addr \<Rightarrow> heap option" where
  "list_init h l = do {
     ASSERT (l \<noteq> NULL);
     let h = set_prev h (head_of l) NULL;
     let h = set_next h (head_of l) (tail_of l);
     let h = set_prev h (tail_of l) (head_of l);
     Some (set_next h (tail_of l) NULL)
   }"

definition list_begin :: "heap \<Rightarrow> addr \<Rightarrow> addr option" where
  "list_begin h l = do { ASSERT (l \<noteq> NULL); Some (le_next (h (head_of l))) }"

definition list_next :: "heap \<Rightarrow> addr \<Rightarrow> addr option" where
  "list_next h e = do { ASSERT (is_head h e \<or> is_interior h e); Some (le_next (h e)) }"

definition list_end :: "addr \<Rightarrow> addr option" where
  "list_end l = do { ASSERT (l \<noteq> NULL); Some (tail_of l) }"

definition list_rbegin :: "heap \<Rightarrow> addr \<Rightarrow> addr option" where
  "list_rbegin h l = do { ASSERT (l \<noteq> NULL); Some (le_prev (h (tail_of l))) }"

definition list_prev :: "heap \<Rightarrow> addr \<Rightarrow> addr option" where
  "list_prev h e = do { ASSERT (is_interior h e \<or> is_tail h e); Some (le_prev (h e)) }"

definition list_rend :: "addr \<Rightarrow> addr option" where
  "list_rend l = do { ASSERT (l \<noteq> NULL); Some (head_of l) }"

definition list_head :: "addr \<Rightarrow> addr option" where
  "list_head l = do { ASSERT (l \<noteq> NULL); Some (head_of l) }"

definition list_tail :: "addr \<Rightarrow> addr option" where
  "list_tail l = do { ASSERT (l \<noteq> NULL); Some (tail_of l) }"

definition list_insert :: "heap \<Rightarrow> addr \<Rightarrow> addr \<Rightarrow> heap option" where
  "list_insert h before elem = do {
     ASSERT (is_interior h before \<or> is_tail h before);
     ASSERT (elem \<noteq> NULL);
     let h = set_prev h elem (le_prev (h before));
     let h = set_next h elem before;
     let h = set_next h (le_prev (h before)) elem;
     Some (set_prev h before elem)
   }"

definition list_splice :: "heap \<Rightarrow> addr \<Rightarrow> addr \<Rightarrow> addr \<Rightarrow> heap option" where
  "list_splice h before first lst = do {
     ASSERT (is_interior h before \<or> is_tail h before);
     if first = lst then Some h else do {
       lst \<leftarrow> list_prev h lst;
       ASSERT (is_interior h first);
       ASSERT (is_interior h lst);
       let h = set_next h (le_prev (h first)) (le_next (h lst));
       let h = set_prev h (le_next (h lst)) (le_prev (h first));
       let h = set_prev h first (le_prev (h before));
       let h = set_next h lst before;
       let h = set_next h (le_prev (h before)) first;
       Some (set_prev h before lst)
     }
   }"

definition list_push_front :: "heap \<Rightarrow> addr \<Rightarrow> addr \<Rightarrow> heap option" where
  "list_push_front h l elem = do { b \<leftarrow> list_begin h l; list_insert h b elem }"

definition list_push_back :: "heap \<Rightarrow> addr \<Rightarrow> addr \<Rightarrow> heap option" where
  "list_push_back h l elem = do { b \<leftarrow> list_end l; list_insert h b elem }"

definition list_remove :: "heap \<Rightarrow> addr \<Rightarrow> (addr \<times> heap) option" where
  "list_remove h elem = do {
     ASSERT (is_interior h elem);
     let h = set_next h (le_prev (h elem)) (le_next (h elem));
     let h = set_prev h (le_next (h elem)) (le_prev (h elem));
     Some (le_next (h elem), h)
   }"

definition list_empty :: "heap \<Rightarrow> addr \<Rightarrow> bool option" where
  "list_empty h l = do { b \<leftarrow> list_begin h l; e \<leftarrow> list_end l; Some (b = e) }"

definition list_front :: "heap \<Rightarrow> addr \<Rightarrow> addr option" where
  "list_front h l = do {
     emp \<leftarrow> list_empty h l; ASSERT (\<not> emp); Some (le_next (h (head_of l)))
   }"

definition list_back :: "heap \<Rightarrow> addr \<Rightarrow> addr option" where
  "list_back h l = do {
     emp \<leftarrow> list_empty h l; ASSERT (\<not> emp); Some (le_prev (h (tail_of l)))
   }"

definition list_pop_front :: "heap \<Rightarrow> addr \<Rightarrow> (addr \<times> heap) option" where
  "list_pop_front h l = do {
     front \<leftarrow> list_front h l; (_, h) \<leftarrow> list_remove h front; Some (front, h)
   }"

definition list_pop_back :: "heap \<Rightarrow> addr \<Rightarrow> (addr \<times> heap) option" where
  "list_pop_back h l = do {
     back \<leftarrow> list_back h l; (_, h) \<leftarrow> list_remove h back; Some (back, h)
   }"

partial_function (option) list_size_loop :: "heap \<Rightarrow> addr \<Rightarrow> addr \<Rightarrow> nat \<Rightarrow> nat option" where
  "list_size_loop h e stop cnt =
     (if e = stop then Some cnt
      else do { e' \<leftarrow> list_next h e; list_size_loop h e' stop (cnt + 1) })"

definition list_size :: "heap \<Rightarrow> addr \<Rightarrow> nat option" where
  "list_size h l = do { b \<leftarrow> list_begin h l; e \<leftarrow> list_end l; list_size_loop h b e 0 }"

text \<open>
  \<open>swap\<close> exchanges two variables of type \<open>struct list_elem *\<close> given their addresses; the callers
  pass the address of a link of some element.
\<close>

datatype link = Prev addr | Next addr

fun link_get :: "heap \<Rightarrow> link \<Rightarrow> addr" where
  "link_get h (Prev a) = le_prev (h a)"
| "link_get h (Next a) = le_next (h a)"

fun link_set :: "heap \<Rightarrow> link \<Rightarrow> addr \<Rightarrow> heap" where
  "link_set h (Prev a) v = set_prev h a v"
| "link_set h (Next a) v = set_next h a v"

definition swap :: "heap \<Rightarrow> link \<Rightarrow> link \<Rightarrow> heap" where
  "swap h a b = (let t = link_get h a; h = link_set h a (link_get h b) in link_set h b t)"

partial_function (option) list_reverse_loop :: "heap \<Rightarrow> addr \<Rightarrow> addr \<Rightarrow> heap option" where
  "list_reverse_loop h e stop =
     (if e = stop then Some h
      else let h = swap h (Prev e) (Next e) in list_reverse_loop h (le_prev (h e)) stop)"

definition list_reverse :: "heap \<Rightarrow> addr \<Rightarrow> heap option" where
  "list_reverse h l = do {
     emp \<leftarrow> list_empty h l;
     if emp then Some h else do {
       b \<leftarrow> list_begin h l;
       e \<leftarrow> list_end l;
       h \<leftarrow> list_reverse_loop h b e;
       let h = swap h (Next (head_of l)) (Prev (tail_of l));
       Some (swap h (Prev (le_next (h (head_of l)))) (Next (le_prev (h (tail_of l)))))
     }
   }"

section \<open>Well-formed lists\<close>

text \<open>Consecutive elements of a sequence of addresses point at each other.\<close>

fun links :: "heap \<Rightarrow> addr list \<Rightarrow> bool" where
  "links h (a # b # zs) \<longleftrightarrow> le_next (h a) = b \<and> le_prev (h b) = a \<and> links h (b # zs)"
| "links h _ \<longleftrightarrow> True"

definition nodes :: "addr \<Rightarrow> addr list \<Rightarrow> addr list" where
  "nodes l xs = head_of l # xs @ [tail_of l]"

definition lrep :: "heap \<Rightarrow> addr \<Rightarrow> addr list \<Rightarrow> bool" where
  "lrep h l xs \<longleftrightarrow> links h (nodes l xs) \<and> distinct (nodes l xs) \<and> NULL \<notin> set (nodes l xs)
     \<and> le_prev (h (head_of l)) = NULL \<and> le_next (h (tail_of l)) = NULL"

text \<open>Only the links of elements in \<open>S\<close> may differ.\<close>

definition same_off :: "heap \<Rightarrow> heap \<Rightarrow> addr set \<Rightarrow> bool" where
  "same_off h h' S \<longleftrightarrow> (\<forall>a. a \<notin> S \<longrightarrow> h' a = h a)"

lemma links_split: "links h (xs @ a # ys) \<longleftrightarrow> links h (xs @ [a]) \<and> links h (a # ys)"
proof (induction xs)
  case (Cons x xs)
  then show ?case by (cases xs) auto
qed simp

lemma links_cong: "(\<And>a. a \<in> set zs \<Longrightarrow> h' a = h a) \<Longrightarrow> links h' zs = links h zs"
proof (induction zs)
  case (Cons z zs)
  then show ?case by (cases zs) auto
qed simp

lemma links_upd_other [simp]: "a \<notin> set zs \<Longrightarrow> links (h(a := x)) zs = links h zs"
  by (rule links_cong) auto

lemma links_upd_first:
  "a \<notin> set ys \<Longrightarrow> le_next x = le_next (h a) \<Longrightarrow> links (h(a := x)) (a # ys) = links h (a # ys)"
  by (cases ys) auto

lemma links_upd_last:
  assumes "a \<notin> set xs" "le_prev x = le_prev (h a)"
  shows "links (h(a := x)) (xs @ [a]) = links h (xs @ [a])"
  using assms
proof (induction xs)
  case (Cons y ys)
  then show ?case by (cases ys) auto
qed simp

lemma tail_neq_head [simp]: "tail_of l \<noteq> head_of l" "head_of l \<noteq> tail_of l"
  by (simp_all add: tail_of_def head_of_def)

lemma tail_neq_NULL [simp]: "tail_of l \<noteq> NULL"
  by (simp add: tail_of_def)

lemma lrep_not_NULL: "lrep h l xs \<Longrightarrow> l \<noteq> NULL"
  by (auto simp: lrep_def nodes_def head_of_def)

lemma lrep_distinct: "lrep h l xs \<Longrightarrow> distinct xs"
  by (auto simp: lrep_def nodes_def)

lemma same_off_trans: "same_off h h' S \<Longrightarrow> same_off h' h'' T \<Longrightarrow> same_off h h'' (S \<union> T)"
  by (auto simp: same_off_def)

lemma same_off_mono: "same_off h h' S \<Longrightarrow> S \<subseteq> T \<Longrightarrow> same_off h h' T"
  by (auto simp: same_off_def)

text \<open>A list none of whose elements is touched stays as it was.\<close>

lemma lrep_frame:
  assumes "lrep h l xs" "same_off h h' S" "set (nodes l xs) \<inter> S = {}"
  shows "lrep h' l xs"
proof -
  have eq: "h' a = h a" if "a \<in> set (nodes l xs)" for a
    using assms(2,3) that by (auto simp: same_off_def)
  then have "links h' (nodes l xs) = links h (nodes l xs)"
    by (rule links_cong)
  moreover have "h' (head_of l) = h (head_of l)" "h' (tail_of l) = h (tail_of l)"
    by (rule eq, simp add: nodes_def)+
  ultimately show ?thesis using assms(1) by (simp add: lrep_def)
qed

text \<open>
  Looking at a well-formed list from between two of its parts: \<open>last (head_of l # us)\<close> and
  \<open>hd (vs @ [tail_of l])\<close> are the elements on either side of the gap.
\<close>

lemma lrep_gap:
  assumes "lrep h l (us @ vs)"
  obtains P S where "nodes l (us @ vs) = P @ last (head_of l # us) # hd (vs @ [tail_of l]) # S"
    "head_of l # us = P @ [last (head_of l # us)]" "vs @ [tail_of l] = hd (vs @ [tail_of l]) # S"
proof
  show "nodes l (us @ vs) = butlast (head_of l # us) @ last (head_of l # us) # hd (vs @ [tail_of l])
      # tl (vs @ [tail_of l])"
    by (simp add: nodes_def)
  show "head_of l # us = butlast (head_of l # us) @ [last (head_of l # us)]"
    by simp
  show "vs @ [tail_of l] = hd (vs @ [tail_of l]) # tl (vs @ [tail_of l])"
    by simp
qed

lemma lrep_gap_links:
  assumes "lrep h l (us @ vs)"
  shows "le_next (h (last (head_of l # us))) = hd (vs @ [tail_of l])"
    and "le_prev (h (hd (vs @ [tail_of l]))) = last (head_of l # us)"
    and "last (head_of l # us) \<noteq> NULL" and "hd (vs @ [tail_of l]) \<noteq> NULL"
proof -
  obtain P S where n: "nodes l (us @ vs) = P @ last (head_of l # us) # hd (vs @ [tail_of l]) # S"
    using assms by (rule lrep_gap)
  have "links h (last (head_of l # us) # hd (vs @ [tail_of l]) # S)"
    using assms n links_split by (metis lrep_def)
  then show "le_next (h (last (head_of l # us))) = hd (vs @ [tail_of l])"
    and "le_prev (h (hd (vs @ [tail_of l]))) = last (head_of l # us)"
    by simp_all
  have "NULL \<notin> set (nodes l (us @ vs))" using assms by (simp add: lrep_def)
  then show "last (head_of l # us) \<noteq> NULL" "hd (vs @ [tail_of l]) \<noteq> NULL"
    unfolding n by auto
qed

lemma lrep_interior:
  assumes "lrep h l (us @ x # vs)"
  shows "is_interior h x" and "le_next (h x) = hd (vs @ [tail_of l])"
    and "le_prev (h x) = last (head_of l # us)"
proof -
  have "le_prev (h x) = last (head_of l # us)" "last (head_of l # us) \<noteq> NULL" "x \<noteq> NULL"
    using lrep_gap_links [OF assms] by simp_all
  moreover have "le_next (h x) = hd (vs @ [tail_of l])" "hd (vs @ [tail_of l]) \<noteq> NULL"
    using lrep_gap_links [of h l "us @ [x]" vs] assms by simp_all
  ultimately show "is_interior h x" "le_next (h x) = hd (vs @ [tail_of l])"
    "le_prev (h x) = last (head_of l # us)"
    by (simp_all add: is_interior_def)
qed

lemma lrep_member: "lrep h l xs \<Longrightarrow> x \<in> set xs \<Longrightarrow> is_interior h x"
  by (auto dest!: split_list intro: lrep_interior(1))

lemma lrep_tail: "lrep h l xs \<Longrightarrow> is_tail h (tail_of l)"
  using lrep_gap_links [of h l xs "[]"] by (auto simp: is_tail_def lrep_def)

lemma lrep_head: "lrep h l xs \<Longrightarrow> is_head h (head_of l)"
  using lrep_gap_links [of h l "[]" xs] by (auto simp: is_head_def lrep_def)

lemma hd_in_snoc: "hd (xs @ [x]) \<in> set (xs @ [x])"
  by (rule hd_in_set) simp

lemma lrep_gap_ok:
  assumes "lrep h l (us @ vs)"
  shows "is_interior h (hd (vs @ [tail_of l])) \<or> is_tail h (hd (vs @ [tail_of l]))"
proof (cases vs)
  case Nil
  then show ?thesis using lrep_tail [OF assms] by simp
next
  case (Cons v vs')
  then show ?thesis using assms lrep_interior(1) [of h l us v vs'] by simp
qed

section \<open>Traversal\<close>

lemma list_begin_rep [kernel_simps]:
  "lrep h l xs \<Longrightarrow> list_begin h l = Some (hd (xs @ [tail_of l]))"
  using lrep_gap_links(1) [of h l "[]" xs] by (simp add: list_begin_def lrep_not_NULL)

lemma list_end_rep [kernel_simps]: "lrep h l xs \<Longrightarrow> list_end l = Some (tail_of l)"
  by (simp add: list_end_def lrep_not_NULL)

lemma list_rbegin_rep [kernel_simps]:
  "lrep h l xs \<Longrightarrow> list_rbegin h l = Some (last (head_of l # xs))"
  using lrep_gap_links(2) [of h l xs "[]"] by (simp add: list_rbegin_def lrep_not_NULL)

lemma list_next_rep [kernel_simps]:
  "lrep h l (us @ x # vs) \<Longrightarrow> list_next h x = Some (hd (vs @ [tail_of l]))"
  using lrep_interior [of h l us x vs] by (simp add: list_next_def)

lemma list_next_head:
  "lrep h l xs \<Longrightarrow> list_next h (head_of l) = Some (hd (xs @ [tail_of l]))"
  using lrep_head [of h l xs] lrep_gap_links(1) [of h l "[]" xs] by (simp add: list_next_def)

lemma list_prev_gap [kernel_simps]:
  "lrep h l (us @ vs) \<Longrightarrow> list_prev h (hd (vs @ [tail_of l])) = Some (last (head_of l # us))"
  using lrep_gap_ok [of h l us vs] lrep_gap_links(2) [of h l us vs] by (simp add: list_prev_def)

lemma list_empty_rep [kernel_simps]: "lrep h l xs \<Longrightarrow> list_empty h l = Some (xs = [])"
proof -
  assume r: "lrep h l xs"
  then have "tail_of l \<notin> set xs" by (auto simp: lrep_def nodes_def)
  then show ?thesis
    using r by (cases xs) (auto simp: list_empty_def list_begin_rep list_end_rep)
qed

lemma list_front_rep [kernel_simps]: "lrep h l (x # xs) \<Longrightarrow> list_front h l = Some x"
  using lrep_gap_links(1) [of h l "[]" "x # xs"] by (simp add: list_front_def list_empty_rep)

lemma list_back_rep [kernel_simps]: "lrep h l (xs @ [x]) \<Longrightarrow> list_back h l = Some x"
  using lrep_gap_links(2) [of h l "xs @ [x]" "[]"] by (simp add: list_back_def list_empty_rep)

lemma gap_at_tail:
  "lrep h l (us @ vs) \<Longrightarrow> hd (vs @ [tail_of l]) = tail_of l \<longleftrightarrow> vs = []"
  by (cases vs) (auto simp: lrep_def nodes_def)

lemma list_size_loop_rep:
  "lrep h l (us @ vs) \<Longrightarrow>
     list_size_loop h (hd (vs @ [tail_of l])) (tail_of l) cnt = Some (cnt + length vs)"
proof (induction vs arbitrary: us cnt)
  case Nil
  then show ?case by (simp add: list_size_loop.simps)
next
  case (Cons v vs)
  from Cons.prems have "v \<noteq> tail_of l" by (auto simp: lrep_def nodes_def)
  moreover have "list_next h v = Some (hd (vs @ [tail_of l]))"
    using Cons.prems by (rule list_next_rep)
  ultimately show ?case
    using Cons.IH [of "us @ [v]" "cnt + 1"] Cons.prems by (simp add: list_size_loop.simps [of h v])
qed

lemma list_size_rep [kernel_simps]: "lrep h l xs \<Longrightarrow> list_size h l = Some (length xs)"
  using list_size_loop_rep [of h l "[]" xs 0]
  by (simp add: list_size_def list_begin_rep list_end_rep)


section \<open>Unlinking and linking a run of elements\<close>

lemma set_links [simp]:
  "le_next (set_prev h a v b) = le_next (h b)"
  "le_prev (set_next h a v b) = le_prev (h b)"
  "le_prev (set_prev h a v b) = (if b = a then v else le_prev (h b))"
  "le_next (set_next h a v b) = (if b = a then v else le_next (h b))"
  by (auto simp: set_prev_def set_next_def)

lemma links_set_prev: "a \<notin> set (tl zs) \<Longrightarrow> links (set_prev h a v) zs = links h zs"
  by (induction h zs rule: links.induct) auto

lemma links_set_next: "a \<notin> set (butlast zs) \<Longrightarrow> links (set_next h a v) zs = links h zs"
  by (induction h zs rule: links.induct) auto

lemma links_append:
  "xs \<noteq> [] \<Longrightarrow> ys \<noteq> [] \<Longrightarrow> links h (xs @ ys) \<longleftrightarrow>
     links h xs \<and> le_next (h (last xs)) = hd ys \<and> le_prev (h (hd ys)) = last xs \<and> links h ys"
proof (induction xs)
  case (Cons x xs)
  then show ?case by (cases xs; cases ys) auto
qed simp

lemma same_off_set [simp]:
  "a \<in> S \<Longrightarrow> same_off h (set_prev h' a v) S = same_off h h' S"
  "a \<in> S \<Longrightarrow> same_off h (set_next h' a v) S = same_off h h' S"
  by (auto simp: same_off_def set_prev_def set_next_def)

lemma same_off_refl [simp]: "same_off h h S"
  by (simp add: same_off_def)

lemma distinct_ends:
  "xs \<noteq> [] \<Longrightarrow> distinct xs \<Longrightarrow> last xs \<notin> set (butlast xs)"
  "xs \<noteq> [] \<Longrightarrow> distinct xs \<Longrightarrow> hd xs \<notin> set (tl xs)"
proof -
  assume a: "xs \<noteq> []" "distinct xs"
  have "distinct (butlast xs @ [last xs])" using a by simp
  then show "last xs \<notin> set (butlast xs)" by simp
  show "hd xs \<notin> set (tl xs)" using a by (cases xs) auto
qed

lemma notin_parts: "x \<notin> set xs \<Longrightarrow> x \<notin> set (tl xs)" "x \<notin> set xs \<Longrightarrow> x \<notin> set (butlast xs)"
  by (cases xs; simp) (auto dest: in_set_butlastD)

text \<open>
  The two halves of \<open>list_splice\<close>: take the elements from \<open>first\<close> to \<open>lst\<close> out of their list, and
  put them in just before \<open>before\<close>.  \<open>list_remove\<close> and \<open>list_insert\<close> do one half for a single
  element.
\<close>

definition unlink_run :: "heap \<Rightarrow> addr \<Rightarrow> addr \<Rightarrow> heap" where
  "unlink_run h first lst =
     (let h = set_next h (le_prev (h first)) (le_next (h lst))
      in set_prev h (le_next (h lst)) (le_prev (h first)))"

definition link_run :: "heap \<Rightarrow> addr \<Rightarrow> addr \<Rightarrow> addr \<Rightarrow> heap" where
  "link_run h before first lst =
     (let h = set_prev h first (le_prev (h before));
          h = set_next h lst before;
          h = set_next h (le_prev (h before)) first
      in set_prev h before lst)"

lemma unlink_run_links:
  assumes ne: "U \<noteq> []" "ms \<noteq> []" "V \<noteq> []" and d: "distinct (U @ ms @ V)" and lk: "links h (U @ ms @ V)"
  shows "links (unlink_run h (hd ms) (last ms)) (U @ V)"
    and "links (unlink_run h (hd ms) (last ms)) ms"
    and "unlink_run h (hd ms) (last ms) = set_prev (set_next h (last U) (hd V)) (hd V) (last U)"
proof -
  have lks: "links h U" "le_prev (h (hd ms)) = last U" "links h ms"
    "le_next (h (last ms)) = hd V" "links h V"
    using lk ne by (simp_all add: links_append)
  have ends: "last U \<in> set U" "hd V \<in> set V" "hd ms \<in> set ms" "last ms \<in> set ms"
    using ne by simp_all
  have dj: "set U \<inter> set ms = {}" "set U \<inter> set V = {}" "set ms \<inter> set V = {}"
    using d by auto
  have apart: "last U \<notin> set ms" "last U \<notin> set V" "hd V \<notin> set U" "hd V \<notin> set ms"
    "hd ms \<notin> set U" "hd ms \<notin> set V" "last ms \<notin> set U" "last ms \<notin> set V"
    using ends dj by (metis disjoint_iff)+
  then have "last U \<noteq> hd V" "last U \<noteq> last ms" "hd V \<noteq> hd ms"
    using ends by metis+
  note apart = apart this
  have off: "last U \<notin> set (butlast U)" "hd V \<notin> set (tl V)"
    "last U \<notin> set (butlast V)" "hd V \<notin> set (tl U)"
    "last U \<notin> set (butlast ms)" "hd V \<notin> set (tl ms)" "last U \<noteq> hd V"
    using ne d apart distinct_ends [of U] distinct_ends [of V] by (simp_all add: notin_parts)
  show eq: "unlink_run h (hd ms) (last ms) = set_prev (set_next h (last U) (hd V)) (hd V) (last U)"
    using lks off by (simp add: unlink_run_def Let_def)
  show "links (unlink_run h (hd ms) (last ms)) ms"
    unfolding eq using lks off by (simp add: links_set_prev links_set_next)
  show "links (unlink_run h (hd ms) (last ms)) (U @ V)"
    unfolding eq using lks off ne by (simp add: links_append links_set_prev links_set_next)
qed

lemma link_run_links:
  assumes ne: "U \<noteq> []" "ms \<noteq> []" "V \<noteq> []" and d: "distinct (U @ ms @ V)"
    and lk: "links h (U @ V)" and lm: "links h ms"
  shows "links (link_run h (hd V) (hd ms) (last ms)) (U @ ms @ V)"
    and "link_run h (hd V) (hd ms) (last ms) =
      set_prev (set_next (set_next (set_prev h (hd ms) (last U)) (last ms) (hd V))
        (last U) (hd ms)) (hd V) (last ms)"
proof -
  have lks: "links h U" "le_prev (h (hd V)) = last U" "links h V"
    using lk ne by (simp_all add: links_append)
  have ends: "last U \<in> set U" "hd V \<in> set V" "hd ms \<in> set ms" "last ms \<in> set ms"
    using ne by simp_all
  have dj: "set U \<inter> set ms = {}" "set U \<inter> set V = {}" "set ms \<inter> set V = {}"
    using d by auto
  have apart: "last U \<notin> set ms" "last U \<notin> set V" "hd V \<notin> set U" "hd V \<notin> set ms"
    "hd ms \<notin> set U" "hd ms \<notin> set V" "last ms \<notin> set U" "last ms \<notin> set V"
    using ends dj by (metis disjoint_iff)+
  then have "last U \<noteq> hd V" "last U \<noteq> last ms" "hd V \<noteq> hd ms"
    using ends by metis+
  note apart = apart this
  have off: "last U \<notin> set (butlast U)" "hd V \<notin> set (tl V)" "hd ms \<notin> set (tl ms)"
    "last ms \<notin> set (butlast ms)" "last U \<notin> set (butlast V)" "hd V \<notin> set (tl U)"
    "last U \<notin> set (butlast ms)" "hd V \<notin> set (tl ms)" "last ms \<notin> set (butlast U)"
    "last ms \<notin> set (butlast V)" "hd ms \<notin> set (tl U)" "hd ms \<notin> set (tl V)"
    "last U \<noteq> hd V" "last U \<noteq> last ms" "hd V \<noteq> hd ms"
    using ne d apart distinct_ends [of U] distinct_ends [of V] distinct_ends [of ms]
    by (simp_all add: notin_parts)
  show eq: "link_run h (hd V) (hd ms) (last ms) =
      set_prev (set_next (set_next (set_prev h (hd ms) (last U)) (last ms) (hd V))
        (last U) (hd ms)) (hd V) (last ms)"
    using lks off by (simp add: link_run_def Let_def)
  show "links (link_run h (hd V) (hd ms) (last ms)) (U @ ms @ V)"
    unfolding eq using lks lm off ne by (simp add: links_append links_set_prev links_set_next)
qed

text \<open>The same on represented lists.\<close>

lemma unlink_run_rep:
  assumes rep: "lrep h l (us @ ms @ vs)" and ne: "ms \<noteq> []"
  shows "lrep (unlink_run h (hd ms) (last ms)) l (us @ vs)"
    and "links (unlink_run h (hd ms) (last ms)) ms"
    and "same_off h (unlink_run h (hd ms) (last ms)) (set (nodes l (us @ vs)))"
proof -
  define U V where "U = head_of l # us" and "V = vs @ [tail_of l]"
  have UV: "U \<noteq> []" "V \<noteq> []" by (simp_all add: U_def V_def)
  have n: "nodes l (us @ ms @ vs) = U @ ms @ V" "nodes l (us @ vs) = U @ V"
    by (simp_all add: nodes_def U_def V_def)
  have d: "distinct (U @ ms @ V)" and lk: "links h (U @ ms @ V)" and nn: "NULL \<notin> set (U @ ms @ V)"
    using rep unfolding lrep_def n by auto
  note seg = unlink_run_links [OF UV(1) ne UV(2) d lk]
  have ends: "last U \<in> set U" "hd V \<in> set V" using UV by simp_all
  show "links (unlink_run h (hd ms) (last ms)) ms" by (rule seg(2))
  show "same_off h (unlink_run h (hd ms) (last ms)) (set (nodes l (us @ vs)))"
    unfolding seg(3) n using ends by simp
  have "head_of l \<in> set U" "tail_of l \<in> set V" by (simp_all add: U_def V_def)
  then have "le_prev (unlink_run h (hd ms) (last ms) (head_of l)) = NULL"
    "le_next (unlink_run h (hd ms) (last ms) (tail_of l)) = NULL"
    unfolding seg(3) using rep d ends by (auto simp: lrep_def)
  then show "lrep (unlink_run h (hd ms) (last ms)) l (us @ vs)"
    using seg(1) d nn unfolding lrep_def n by auto
qed

lemma link_run_rep:
  assumes rep: "lrep h l (us @ vs)" and ms: "ms \<noteq> []" "links h ms" "distinct ms" "NULL \<notin> set ms"
    "set ms \<inter> set (nodes l (us @ vs)) = {}"
  shows "lrep (link_run h (hd (vs @ [tail_of l])) (hd ms) (last ms)) l (us @ ms @ vs)"
    and "same_off h (link_run h (hd (vs @ [tail_of l])) (hd ms) (last ms))
      (set ms \<union> set (nodes l (us @ vs)))"
proof -
  define U V where "U = head_of l # us" and "V = vs @ [tail_of l]"
  have UV: "U \<noteq> []" "V \<noteq> []" by (simp_all add: U_def V_def)
  have n: "nodes l (us @ ms @ vs) = U @ ms @ V" "nodes l (us @ vs) = U @ V"
    by (simp_all add: nodes_def U_def V_def)
  have d: "distinct (U @ ms @ V)" and lk: "links h (U @ V)" and nn: "NULL \<notin> set (U @ ms @ V)"
    using rep ms unfolding lrep_def n by auto
  note seg = link_run_links [OF UV(1) ms(1) UV(2) d lk ms(2)]
  have ends: "last U \<in> set U" "hd V \<in> set V" "hd ms \<in> set ms" "last ms \<in> set ms"
    using UV ms(1) by simp_all
  show "same_off h (link_run h (hd (vs @ [tail_of l])) (hd ms) (last ms))
      (set ms \<union> set (nodes l (us @ vs)))"
    unfolding V_def [symmetric] seg(2) n using ends by simp
  have "head_of l \<in> set U" "tail_of l \<in> set V" by (simp_all add: U_def V_def)
  then have "le_prev (link_run h (hd V) (hd ms) (last ms) (head_of l)) = NULL"
    "le_next (link_run h (hd V) (hd ms) (last ms) (tail_of l)) = NULL"
    unfolding seg(2) using rep d ends by (auto simp: lrep_def)
  then show "lrep (link_run h (hd (vs @ [tail_of l])) (hd ms) (last ms)) l (us @ ms @ vs)"
    using seg(1) d nn unfolding lrep_def n V_def [symmetric] by auto
qed

section \<open>Insertion, removal and splicing\<close>

lemma list_insert_rep:
  assumes rep: "lrep h l (us @ vs)" and new: "e \<notin> set (nodes l (us @ vs))" "e \<noteq> NULL"
  shows "\<exists>h'. list_insert h (hd (vs @ [tail_of l])) e = Some h' \<and> lrep h' l (us @ e # vs)
    \<and> same_off h h' (insert e (set (nodes l (us @ vs))))"
proof -
  have "list_insert h (hd (vs @ [tail_of l])) e = Some (link_run h (hd (vs @ [tail_of l])) e e)"
    using lrep_gap_ok [OF rep] new by (simp add: list_insert_def link_run_def Let_def)
  then show ?thesis
    using link_run_rep [OF rep, of "[e]"] new by auto
qed

lemma list_push_back_rep:
  assumes "lrep h l xs" "e \<notin> set (nodes l xs)" "e \<noteq> NULL"
  shows "\<exists>h'. list_push_back h l e = Some h' \<and> lrep h' l (xs @ [e])
    \<and> same_off h h' (insert e (set (nodes l xs)))"
  using list_insert_rep [of h l xs "[]" e] assms by (simp add: list_push_back_def list_end_rep)

lemma list_push_front_rep:
  assumes "lrep h l xs" "e \<notin> set (nodes l xs)" "e \<noteq> NULL"
  shows "\<exists>h'. list_push_front h l e = Some h' \<and> lrep h' l (e # xs)
    \<and> same_off h h' (insert e (set (nodes l xs)))"
  using list_insert_rep [of h l "[]" xs e] assms by (simp add: list_push_front_def list_begin_rep)

lemma list_remove_rep:
  assumes rep: "lrep h l (us @ e # vs)"
  shows "\<exists>h'. list_remove h e = Some (hd (vs @ [tail_of l]), h') \<and> lrep h' l (us @ vs)
    \<and> same_off h h' (set (nodes l (us @ vs)))"
proof -
  have u: "lrep (unlink_run h e e) l (us @ vs)" "same_off h (unlink_run h e e) (set (nodes l (us @ vs)))"
    using unlink_run_rep [of h l us "[e]" vs] rep by simp_all
  have "e \<notin> set (nodes l (us @ vs))"
    using rep by (auto simp: lrep_def nodes_def)
  then have "unlink_run h e e e = h e"
    using u(2) by (simp add: same_off_def)
  then have "list_remove h e = Some (hd (vs @ [tail_of l]), unlink_run h e e)"
    using lrep_interior [OF rep] by (simp add: list_remove_def unlink_run_def Let_def)
  then show ?thesis using u by blast
qed

lemma list_pop_front_rep:
  assumes "lrep h l (x # xs)"
  shows "\<exists>h'. list_pop_front h l = Some (x, h') \<and> lrep h' l xs \<and> same_off h h' (set (nodes l xs))"
  using list_remove_rep [of h l "[]" x xs] assms by (auto simp: list_pop_front_def list_front_rep)

lemma list_pop_back_rep:
  assumes "lrep h l (xs @ [x])"
  shows "\<exists>h'. list_pop_back h l = Some (x, h') \<and> lrep h' l xs \<and> same_off h h' (set (nodes l xs))"
  using list_remove_rep [of h l xs x "[]"] assms by (auto simp: list_pop_back_def list_back_rep)

lemma list_init_rep:
  assumes "l \<noteq> NULL"
  shows "\<exists>h'. list_init h l = Some h' \<and> lrep h' l [] \<and> same_off h h' {head_of l, tail_of l}"
  using assms
  by (auto simp: list_init_def lrep_def nodes_def set_prev_def set_next_def same_off_def
      head_of_def tail_of_def Let_def)

text \<open>Moving a run of elements to another place of the same list, or to another list.\<close>

lemma list_splice_eq:
  assumes rep: "lrep h l (us @ ms @ vs)" and ne: "ms \<noteq> []"
    and before: "is_interior h b \<or> is_tail h b"
  shows "list_splice h b (hd ms) (hd (vs @ [tail_of l])) =
    Some (link_run (unlink_run h (hd ms) (last ms)) b (hd ms) (last ms))"
proof -
  have i: "is_interior h (hd ms)" "is_interior h (last ms)"
    using ne by (auto intro!: lrep_member [OF rep])
  have "list_prev h (hd (vs @ [tail_of l])) = Some (last ms)"
    using list_prev_gap [of h l "us @ ms" vs] rep ne by simp
  moreover have "hd ms \<noteq> hd (vs @ [tail_of l])"
  proof -
    have "set ms \<inter> set (vs @ [tail_of l]) = {}"
      using rep by (auto simp: lrep_def nodes_def)
    then show ?thesis using ne hd_in_snoc [of vs "tail_of l"] by (metis disjoint_iff hd_in_set)
  qed
  ultimately show ?thesis
    using i before by (simp add: list_splice_def unlink_run_def link_run_def Let_def)
qed

lemma list_splice_same_rep:
  assumes rep: "lrep h l (us @ ms @ vs)" and ne: "ms \<noteq> []" and gap: "us @ vs = us' @ vs'"
  shows "\<exists>h'. list_splice h (hd (vs' @ [tail_of l])) (hd ms) (hd (vs @ [tail_of l])) = Some h'
    \<and> lrep h' l (us' @ ms @ vs') \<and> same_off h h' (set (nodes l (us @ ms @ vs)))"
proof -
  let ?h = "unlink_run h (hd ms) (last ms)"
  have u: "lrep ?h l (us' @ vs')" "links ?h ms" "same_off h ?h (set (nodes l (us' @ vs')))"
    using unlink_run_rep [OF rep ne] gap by simp_all
  have d: "distinct ms" "NULL \<notin> set ms" "set ms \<inter> set (nodes l (us @ vs)) = {}"
    using rep by (auto simp: lrep_def nodes_def)
  have "set vs' \<subseteq> set (us @ ms @ vs)"
    using gap by (metis Un_iff set_append subsetI)
  then have b: "is_interior h (hd (vs' @ [tail_of l])) \<or> is_tail h (hd (vs' @ [tail_of l]))"
  proof (cases vs')
    case Nil
    then show ?thesis using lrep_tail [OF rep] by simp
  next
    case (Cons v ws)
    then have "v \<in> set (us @ ms @ vs)" using \<open>set vs' \<subseteq> _\<close> by auto
    then show ?thesis using lrep_member [OF rep] Cons by simp
  qed
  have dj: "set ms \<inter> set (nodes l (us' @ vs')) = {}" using d(3) gap by simp
  note k = link_run_rep [OF u(1) ne u(2) d(1,2) dj]
  have "set (nodes l (us' @ vs')) \<union> (set ms \<union> set (nodes l (us' @ vs'))) \<subseteq> set (nodes l (us @ ms @ vs))"
    unfolding gap [symmetric] by (auto simp: nodes_def)
  then have "same_off h (link_run ?h (hd (vs' @ [tail_of l])) (hd ms) (last ms)) (set (nodes l (us @ ms @ vs)))"
    by (rule same_off_mono [OF same_off_trans [OF u(3) k(2)]])
  then show ?thesis
    using list_splice_eq [OF rep ne b] k(1) by blast
qed


lemma list_splice_other_rep:
  assumes rep: "lrep h l (us @ ms @ vs)" and ne: "ms \<noteq> []" and other: "lrep h k (us' @ vs')"
    and dj: "set (nodes l (us @ ms @ vs)) \<inter> set (nodes k (us' @ vs')) = {}"
  shows "\<exists>h'. list_splice h (hd (vs' @ [tail_of k])) (hd ms) (hd (vs @ [tail_of l])) = Some h'
    \<and> lrep h' l (us @ vs) \<and> lrep h' k (us' @ ms @ vs')
    \<and> same_off h h' (set (nodes l (us @ ms @ vs)) \<union> set (nodes k (us' @ vs')))"
proof -
  let ?h = "unlink_run h (hd ms) (last ms)"
  let ?h' = "link_run ?h (hd (vs' @ [tail_of k])) (hd ms) (last ms)"
  note u = unlink_run_rep [OF rep ne]
  have sub: "set (nodes l (us @ ms @ vs)) = set ms \<union> set (nodes l (us @ vs))"
    by (auto simp: nodes_def)
  have d: "distinct ms" "NULL \<notin> set ms" "set ms \<inter> set (nodes l (us @ vs)) = {}"
    "set ms \<inter> set (nodes k (us' @ vs')) = {}" "set (nodes k (us' @ vs')) \<inter> set (nodes l (us @ vs)) = {}"
    using rep dj sub by (auto simp: lrep_def nodes_def)
  have o: "lrep ?h k (us' @ vs')" by (rule lrep_frame [OF other u(3) d(5)])
  note k = link_run_rep [OF o ne u(2) d(1,2,4)]
  have "lrep ?h' l (us @ vs)"
    by (rule lrep_frame [OF u(1) k(2)]) (use d in auto)
  moreover have "same_off h ?h' (set (nodes l (us @ ms @ vs)) \<union> set (nodes k (us' @ vs')))"
    by (rule same_off_mono [OF same_off_trans [OF u(3) k(2)]]) (use sub in auto)
  ultimately show ?thesis
    by (intro exI conjI) (rule list_splice_eq [OF rep ne lrep_gap_ok [OF other]], simp_all add: k(1))
qed

section \<open>Reversal\<close>

definition flip :: "list_elem \<Rightarrow> list_elem" where
  "flip e = \<lparr>le_prev = le_next e, le_next = le_prev e\<rparr>"

lemma flip_sel [simp]: "le_prev (flip e) = le_next e" "le_next (flip e) = le_prev e"
  by (simp_all add: flip_def)

lemma swap_own_links: "swap h (Prev e) (Next e) = h(e := flip (h e))"
  by (auto simp: swap_def set_prev_def set_next_def flip_def fun_eq_iff Let_def)

lemma list_reverse_loop_eq:
  assumes "links h (vs @ [stop])" "distinct vs" "stop \<notin> set vs"
  shows "list_reverse_loop h (hd (vs @ [stop])) stop =
    Some (\<lambda>a. if a \<in> set vs then flip (h a) else h a)"
  using assms
proof (induction vs arbitrary: h)
  case Nil
  then show ?case by (simp add: list_reverse_loop.simps)
next
  case (Cons v vs)
  let ?h = "h(v := flip (h v))"
  have nxt: "le_next (h v) = hd (vs @ [stop])" and "links h (vs @ [stop])"
    using Cons.prems(1) links_append [of "[v]" "vs @ [stop]" h] by simp_all
  moreover have "v \<notin> set (vs @ [stop])" using Cons.prems by auto
  ultimately have "links ?h (vs @ [stop])" using links_upd_other by blast
  then have "list_reverse_loop ?h (hd (vs @ [stop])) stop =
      Some (\<lambda>a. if a \<in> set vs then flip (?h a) else ?h a)"
    by (rule Cons.IH [of ?h]) (use Cons.prems in auto)
  moreover have "(\<lambda>a. if a \<in> set vs then flip (?h a) else ?h a) =
      (\<lambda>a. if a \<in> set (v # vs) then flip (h a) else h a)"
    using Cons.prems by (auto simp: fun_eq_iff)
  ultimately show ?case
    using Cons.prems nxt
    by (simp add: list_reverse_loop.simps [of h v] swap_own_links Let_def)
qed

lemma links_rev: "links (\<lambda>a. flip (h a)) (rev zs) = links h zs"
proof (induction zs)
  case (Cons z zs)
  show ?case
  proof (cases "zs = []")
    case False
    then have "links h (z # zs) \<longleftrightarrow> le_next (h z) = hd zs \<and> le_prev (h (hd zs)) = z \<and> links h zs"
      using links_append [of "[z]" zs h] by simp
    moreover have "links (\<lambda>a. flip (h a)) (rev zs @ [z]) \<longleftrightarrow>
        links (\<lambda>a. flip (h a)) (rev zs) \<and> le_prev (h (hd zs)) = z \<and> le_next (h z) = hd zs"
      using links_append [of "rev zs" "[z]" "\<lambda>a. flip (h a)"] False by (simp add: last_rev)
    ultimately show ?thesis using Cons by auto
  qed simp
qed simp

lemma list_reverse_rep:
  assumes rep: "lrep h l xs"
  shows "\<exists>h'. list_reverse h l = Some h' \<and> lrep h' l (rev xs) \<and> same_off h h' (set (nodes l xs))"
proof (cases "xs = []")
  case True
  then show ?thesis using rep by (auto simp: list_reverse_def list_empty_rep [OF rep])
next
  case False
  let ?H = "head_of l" and ?T = "tail_of l" and ?f = "hd xs" and ?g = "last xs"
  let ?h1 = "\<lambda>a. if a \<in> set xs then flip (h a) else h a"
  let ?h2 = "set_prev (set_next ?h1 ?H ?g) ?T ?f"
  let ?h3 = "set_next (set_prev ?h2 ?g ?H) ?f ?T"
  have d: "distinct xs" "?H \<notin> set xs" "?T \<notin> set xs" and nn: "NULL \<notin> set (nodes l xs)"
    using rep by (auto simp: lrep_def nodes_def)
  have "links h ([?H] @ xs @ [?T])" using rep by (simp add: lrep_def nodes_def)
  then have lk: "links h (xs @ [?T])" "le_next (h ?H) = ?f" "le_prev (h ?f) = ?H"
    using links_append [of "[?H]" "xs @ [?T]" h] False by simp_all
  then have lk2: "links h xs" "le_next (h ?g) = ?T" "le_prev (h ?T) = ?g"
    using links_append [of xs "[?T]" h] False by simp_all
  have fg: "?f \<in> set xs" "?g \<in> set xs" using False by simp_all
  then have ne: "?f \<noteq> ?H" "?f \<noteq> ?T" "?g \<noteq> ?H" "?g \<noteq> ?T" using d by metis+
  have loop: "list_reverse_loop h ?f ?T = Some ?h1"
    using list_reverse_loop_eq [OF lk(1) d(1,3)] False by simp
  have s1: "swap ?h1 (Next ?H) (Prev ?T) = ?h2"
    using d lk lk2 by (simp add: swap_def Let_def)
  have s2: "swap ?h2 (Prev ?g) (Next ?f) = ?h3"
    using fg ne lk lk2 by (simp add: swap_def Let_def)
  have "list_reverse h l = Some ?h3"
    using False loop s1 s2 ne
    by (simp add: list_reverse_def list_empty_rep [OF rep] list_begin_rep [OF rep] list_end_rep [OF rep])
  moreover have "lrep ?h3 l (rev xs)"
  proof -
    have "links (\<lambda>a. flip (h a)) (rev xs)" using lk2 links_rev by blast
    then have "links ?h1 (rev xs)"
      by (rule links_cong [THEN iffD1, rotated]) simp
    then have "links ?h2 (rev xs)"
      using d by (simp add: links_set_prev links_set_next notin_parts)
    moreover have "?g \<notin> set (tl (rev xs))" "?f \<notin> set (butlast (rev xs))"
      using d False distinct_ends [of "rev xs"] by (simp_all add: hd_rev last_rev)
    ultimately have "links ?h3 (rev xs)"
      by (simp add: links_set_prev links_set_next)
    then have "links ?h3 ([?H] @ rev xs @ [?T])"
      using False ne by (simp add: links_append hd_rev last_rev del: append_Cons)
    then show ?thesis
      using rep ne d by (auto simp: lrep_def nodes_def)
  qed
  moreover have "same_off h ?h3 (set (nodes l xs))"
  proof -
    have "same_off h ?h1 (set (nodes l xs))" by (simp add: same_off_def nodes_def)
    moreover have "{?H, ?T, ?f, ?g} \<subseteq> set (nodes l xs)" using fg by (simp add: nodes_def)
    ultimately show ?thesis by simp
  qed
  ultimately show ?thesis by blast
qed

section \<open>The list as a queue\<close>

lemma list_pop_front_empty: "lrep h l [] \<Longrightarrow> list_pop_front h l = None"
  by (simp add: list_pop_front_def list_front_def list_empty_rep)

interpretation heap_queue: fifo_queue "\<lambda>h. lrep h l" "\<lambda>xs. distinct (nodes l xs) \<and> NULL \<notin> set (nodes l xs)"
  "\<lambda>h. list_push_back h l" "\<lambda>h. list_pop_front h l" for l :: addr
proof unfold_locales
  fix h xs x
  assume "lrep h l xs" "distinct (nodes l (xs @ [x])) \<and> NULL \<notin> set (nodes l (xs @ [x]))"
  then have "x \<notin> set (nodes l xs)" "x \<noteq> NULL" by (auto simp: nodes_def)
  with \<open>lrep h l xs\<close> show "\<exists>h'. list_push_back h l x = Some h' \<and> lrep h' l (xs @ [x])"
    using list_push_back_rep by blast
next
  fix h x xs
  assume "lrep h l (x # xs)"
  then show "\<exists>h'. list_pop_front h l = Some (x, h') \<and> lrep h' l xs"
    using list_pop_front_rep by blast
qed (auto simp: list_pop_front_empty nodes_def)

section \<open>Properties\<close>

text \<open>A list at address 100 with elements at 20, 40 and 60, and an empty list at 200.\<close>

definition sample_heap :: heap where
  "sample_heap = (\<lambda>_. \<lparr>le_prev = 0, le_next = 0\<rparr>)
     (100 := \<lparr>le_prev = 0, le_next = 40\<rparr>, 40 := \<lparr>le_prev = 100, le_next = 20\<rparr>,
      20 := \<lparr>le_prev = 40, le_next = 60\<rparr>, 60 := \<lparr>le_prev = 20, le_next = 108\<rparr>,
      108 := \<lparr>le_prev = 60, le_next = 0\<rparr>,
      200 := \<lparr>le_prev = 0, le_next = 208\<rparr>, 208 := \<lparr>le_prev = 200, le_next = 0\<rparr>)"

lemma sample_rep [simp]: "lrep sample_heap 100 [40, 20, 60]" "lrep sample_heap 200 []"
  by (simp_all add: lrep_def nodes_def head_of_def tail_of_def sample_heap_def)

lemma sample_nodes [simp]: "nodes 100 xs = 100 # xs @ [108]" "nodes 200 xs = 200 # xs @ [208]"
  by (simp_all add: nodes_def head_of_def tail_of_def)

text \<open>
  C18: Pushing any sequence of new elements on the back of a well-formed list and then popping the
  front as often as there are elements never fails an assertion, returns the elements in the order
  they were put in, and leaves the list empty; a further pop fails its assertion.
\<close>

theorem list_fifo:
  assumes "lrep h l xs" "distinct (nodes l (xs @ ys))" "NULL \<notin> set (nodes l (xs @ ys))"
  shows "\<exists>h'. enq_all (\<lambda>h. list_push_back h l) h ys
      \<bind> deq_many (\<lambda>h. list_pop_front h l) (length xs + length ys) = Some (xs @ ys, h')
    \<and> lrep h' l [] \<and> list_pop_front h' l = None"
  using heap_queue.first_in_first_out [of h l xs ys] assms by blast

theorem list_fifo_witness:
  "\<exists>h'. enq_all (\<lambda>h. list_push_back h 100) sample_heap [80, 90]
      \<bind> deq_many (\<lambda>h. list_pop_front h 100) (length [40 :: nat, 20, 60] + length [80 :: nat, 90])
      = Some ([40, 20, 60, 80, 90], h')
    \<and> lrep h' 100 [] \<and> list_pop_front h' 100 = None"
  using list_fifo [of sample_heap 100 "[40, 20, 60]" "[80, 90]"] by simp

text \<open>
  C19: \<open>list_splice\<close> moves a run of elements out of one well-formed list to any position of another:
  both lists stay well-formed, the run keeps its order, every other element stays where it was, and
  no element outside the two lists is touched.
\<close>

theorem list_splice_moves_run:
  assumes "lrep h l (us @ ms @ vs)" "ms \<noteq> []" "lrep h k (us' @ vs')"
    "set (nodes l (us @ ms @ vs)) \<inter> set (nodes k (us' @ vs')) = {}"
  shows "\<exists>h'. list_splice h (hd (vs' @ [tail_of k])) (hd ms) (hd (vs @ [tail_of l])) = Some h'
    \<and> lrep h' l (us @ vs) \<and> lrep h' k (us' @ ms @ vs')
    \<and> same_off h h' (set (nodes l (us @ ms @ vs)) \<union> set (nodes k (us' @ vs')))"
  by (rule list_splice_other_rep [OF assms])

theorem list_splice_moves_run_witness:
  "\<exists>h'. list_splice sample_heap 208 20 108 = Some h' \<and> lrep h' 100 [40] \<and> lrep h' 200 [20, 60]"
  using list_splice_moves_run [of sample_heap 100 "[40]" "[20, 60]" "[]" 200 "[]" "[]"]
  by (auto simp: tail_of_def)

text \<open>
  C20: \<open>list_reverse\<close> returns on every well-formed list, and the list is then well-formed and holds
  the same elements in the opposite order; nothing outside the list changes.
\<close>

theorem list_reverse_correct:
  assumes "lrep h l xs"
  shows "\<exists>h'. list_reverse h l = Some h' \<and> lrep h' l (rev xs) \<and> same_off h h' (set (nodes l xs))"
  by (rule list_reverse_rep [OF assms])

theorem list_reverse_correct_witness:
  "\<exists>h'. list_reverse sample_heap 100 = Some h' \<and> lrep h' 100 [60, 20, 40]"
  using list_reverse_correct [of sample_heap 100 "[40, 20, 60]"] by auto

end
