(* ===== verification/Kernel_List_Order.thy ===== *)
theory Kernel_List_Order
  imports Kernel_List
begin

text \<open>
  The operations of \<open>lib/kernel/list.c\<close> that take an ordering: \<open>list_sort\<close> (a natural, in-place
  merge sort), \<open>list_insert_ordered\<close>, \<open>list_unique\<close>, \<open>list_max\<close> and \<open>list_min\<close>.  The comparison
  function \<open>list_less_func\<close> with its auxiliary data is the parameter \<open>lt\<close>; it compares the
  structures the elements are embedded in, so it does not depend on the links.  \<open>swo lt\<close> says that
  it orders them as the comment on \<open>list_less_func\<close> in \<open>list.h\<close> asks: "true if A is less than B,
  or false if A is greater than or equal to B" for some linear preorder.

  Every theorem about a sort or a search also says that the operation returns: the loops run on the
  links, and on a well-formed list they end without failing an assertion.
\<close>

definition swo :: "('a \<Rightarrow> 'a \<Rightarrow> bool) \<Rightarrow> bool" where
  "swo lt \<longleftrightarrow> (\<forall>x y. lt x y \<longrightarrow> \<not> lt y x) \<and> (\<forall>x y z. lt x z \<longrightarrow> lt x y \<or> lt y z)"

section \<open>Operations\<close>

partial_function (option) is_sorted_loop ::
  "(addr \<Rightarrow> addr \<Rightarrow> bool) \<Rightarrow> heap \<Rightarrow> addr \<Rightarrow> addr \<Rightarrow> bool option" where
  "is_sorted_loop lt h a b = do {
     a \<leftarrow> list_next h a;
     if a = b then Some True else do {
       p \<leftarrow> list_prev h a;
       if lt a p then Some False else is_sorted_loop lt h a b
     }
   }"

definition is_sorted :: "(addr \<Rightarrow> addr \<Rightarrow> bool) \<Rightarrow> heap \<Rightarrow> addr \<Rightarrow> addr \<Rightarrow> bool option" where
  "is_sorted lt h a b = (if a \<noteq> b then is_sorted_loop lt h a b else Some True)"

partial_function (option) end_of_run_loop ::
  "(addr \<Rightarrow> addr \<Rightarrow> bool) \<Rightarrow> heap \<Rightarrow> addr \<Rightarrow> addr \<Rightarrow> addr option" where
  "end_of_run_loop lt h a b = do {
     a \<leftarrow> list_next h a;
     if a = b then Some a else do {
       p \<leftarrow> list_prev h a;
       if lt a p then Some a else end_of_run_loop lt h a b
     }
   }"

definition find_end_of_run :: "(addr \<Rightarrow> addr \<Rightarrow> bool) \<Rightarrow> heap \<Rightarrow> addr \<Rightarrow> addr \<Rightarrow> addr option" where
  "find_end_of_run lt h a b = do {
     ASSERT (a \<noteq> NULL);
     ASSERT (b \<noteq> NULL);
     ASSERT (a \<noteq> b);
     end_of_run_loop lt h a b
   }"

partial_function (option) merge_loop ::
  "(addr \<Rightarrow> addr \<Rightarrow> bool) \<Rightarrow> addr \<Rightarrow> heap \<Rightarrow> addr \<Rightarrow> addr \<Rightarrow> heap option" where
  "merge_loop lt b1 h a0 a1b0 =
     (if a0 \<noteq> a1b0 \<and> a1b0 \<noteq> b1 then
        if \<not> lt a1b0 a0 then do { a0 \<leftarrow> list_next h a0; merge_loop lt b1 h a0 a1b0 }
        else do {
          a1b0 \<leftarrow> list_next h a1b0;
          p \<leftarrow> list_prev h a1b0;
          h \<leftarrow> list_splice h a0 p a1b0;
          merge_loop lt b1 h a0 a1b0
        }
      else Some h)"

definition inplace_merge ::
  "(addr \<Rightarrow> addr \<Rightarrow> bool) \<Rightarrow> heap \<Rightarrow> addr \<Rightarrow> addr \<Rightarrow> addr \<Rightarrow> heap option" where
  "inplace_merge lt h a0 a1b0 b1 = do {
     ASSERT (a0 \<noteq> NULL);
     ASSERT (a1b0 \<noteq> NULL);
     ASSERT (b1 \<noteq> NULL);
     s \<leftarrow> is_sorted lt h a0 a1b0;
     ASSERT s;
     s \<leftarrow> is_sorted lt h a1b0 b1;
     ASSERT s;
     merge_loop lt b1 h a0 a1b0
   }"

text \<open>One pass over the list: merge the runs two by two, counting the runs that come out.\<close>

partial_function (option) sort_pass ::
  "(addr \<Rightarrow> addr \<Rightarrow> bool) \<Rightarrow> addr \<Rightarrow> heap \<Rightarrow> addr \<Rightarrow> nat \<Rightarrow> (heap \<times> nat) option" where
  "sort_pass lt l h a0 output_run_cnt = do {
     stop \<leftarrow> list_end l;
     if a0 = stop then Some (h, output_run_cnt) else do {
       a1b0 \<leftarrow> find_end_of_run lt h a0 stop;
       if a1b0 = stop then Some (h, output_run_cnt + 1) else do {
         b1 \<leftarrow> find_end_of_run lt h a1b0 stop;
         h \<leftarrow> inplace_merge lt h a0 a1b0 b1;
         sort_pass lt l h b1 (output_run_cnt + 1)
       }
     }
   }"

partial_function (option) sort_loop ::
  "(addr \<Rightarrow> addr \<Rightarrow> bool) \<Rightarrow> addr \<Rightarrow> heap \<Rightarrow> heap option" where
  "sort_loop lt l h = do {
     a0 \<leftarrow> list_begin h l;
     (h, output_run_cnt) \<leftarrow> sort_pass lt l h a0 0;
     if output_run_cnt > 1 then sort_loop lt l h else Some h
   }"

definition list_sort :: "(addr \<Rightarrow> addr \<Rightarrow> bool) \<Rightarrow> heap \<Rightarrow> addr \<Rightarrow> heap option" where
  "list_sort lt h l = do {
     ASSERT (l \<noteq> NULL);
     h \<leftarrow> sort_loop lt l h;
     b \<leftarrow> list_begin h l;
     stop \<leftarrow> list_end l;
     s \<leftarrow> is_sorted lt h b stop;
     ASSERT s;
     Some h
   }"

partial_function (option) list_max_loop ::
  "(addr \<Rightarrow> addr \<Rightarrow> bool) \<Rightarrow> heap \<Rightarrow> addr \<Rightarrow> addr \<Rightarrow> addr \<Rightarrow> addr option" where
  "list_max_loop lt h e stop mx =
     (if e = stop then Some mx
      else do { e' \<leftarrow> list_next h e; list_max_loop lt h e' stop (if lt mx e then e else mx) })"

definition list_max :: "(addr \<Rightarrow> addr \<Rightarrow> bool) \<Rightarrow> heap \<Rightarrow> addr \<Rightarrow> addr option" where
  "list_max lt h l = do {
     mx \<leftarrow> list_begin h l;
     stop \<leftarrow> list_end l;
     if mx \<noteq> stop then do { e \<leftarrow> list_next h mx; list_max_loop lt h e stop mx } else Some mx
   }"

partial_function (option) list_min_loop ::
  "(addr \<Rightarrow> addr \<Rightarrow> bool) \<Rightarrow> heap \<Rightarrow> addr \<Rightarrow> addr \<Rightarrow> addr \<Rightarrow> addr option" where
  "list_min_loop lt h e stop mn =
     (if e = stop then Some mn
      else do { e' \<leftarrow> list_next h e; list_min_loop lt h e' stop (if lt e mn then e else mn) })"

definition list_min :: "(addr \<Rightarrow> addr \<Rightarrow> bool) \<Rightarrow> heap \<Rightarrow> addr \<Rightarrow> addr option" where
  "list_min lt h l = do {
     mn \<leftarrow> list_begin h l;
     stop \<leftarrow> list_end l;
     if mn \<noteq> stop then do { e \<leftarrow> list_next h mn; list_min_loop lt h e stop mn } else Some mn
   }"

partial_function (option) insert_ordered_loop ::
  "(addr \<Rightarrow> addr \<Rightarrow> bool) \<Rightarrow> heap \<Rightarrow> addr \<Rightarrow> addr \<Rightarrow> addr \<Rightarrow> addr option" where
  "insert_ordered_loop lt h elem e stop =
     (if e = stop then Some e
      else if lt elem e then Some e
      else do { e' \<leftarrow> list_next h e; insert_ordered_loop lt h elem e' stop })"

definition list_insert_ordered ::
  "(addr \<Rightarrow> addr \<Rightarrow> bool) \<Rightarrow> heap \<Rightarrow> addr \<Rightarrow> addr \<Rightarrow> heap option" where
  "list_insert_ordered lt h l elem = do {
     ASSERT (l \<noteq> NULL);
     ASSERT (elem \<noteq> NULL);
     b \<leftarrow> list_begin h l;
     stop \<leftarrow> list_end l;
     e \<leftarrow> insert_ordered_loop lt h elem b stop;
     list_insert h e elem
   }"

partial_function (option) list_unique_loop ::
  "(addr \<Rightarrow> addr \<Rightarrow> bool) \<Rightarrow> addr \<Rightarrow> addr \<Rightarrow> heap \<Rightarrow> addr \<Rightarrow> heap option" where
  "list_unique_loop lt duplicates stop h elem = do {
     nxt \<leftarrow> list_next h elem;
     if nxt = stop then Some h
     else if \<not> lt elem nxt \<and> \<not> lt nxt elem then do {
       (_, h) \<leftarrow> list_remove h nxt;
       h \<leftarrow> (if duplicates \<noteq> NULL then list_push_back h duplicates nxt else Some h);
       list_unique_loop lt duplicates stop h elem
     }
     else list_unique_loop lt duplicates stop h nxt
   }"

definition list_unique ::
  "(addr \<Rightarrow> addr \<Rightarrow> bool) \<Rightarrow> heap \<Rightarrow> addr \<Rightarrow> addr \<Rightarrow> heap option" where
  "list_unique lt h l duplicates = do {
     ASSERT (l \<noteq> NULL);
     emp \<leftarrow> list_empty h l;
     if emp then Some h else do {
       elem \<leftarrow> list_begin h l;
       stop \<leftarrow> list_end l;
       list_unique_loop lt duplicates stop h elem
     }
   }"

section \<open>The orderings\<close>

lemma swo_asym: "swo lt \<Longrightarrow> lt x y \<Longrightarrow> \<not> lt y x"
  by (auto simp: swo_def)

lemma swo_irrefl: "swo lt \<Longrightarrow> \<not> lt x x"
  by (auto simp: swo_def)

text \<open>"Not greater" is transitive.\<close>

lemma swo_trans: "swo lt \<Longrightarrow> \<not> lt y x \<Longrightarrow> \<not> lt z y \<Longrightarrow> \<not> lt z x"
  unfolding swo_def by blast

lemma swo_less_le_trans: "swo lt \<Longrightarrow> lt x y \<Longrightarrow> \<not> lt z y \<Longrightarrow> lt x z"
  unfolding swo_def by blast

lemma swo_less_trans: "swo lt \<Longrightarrow> lt x y \<Longrightarrow> lt y z \<Longrightarrow> lt x z"
  unfolding swo_def by blast

lemma swo_split: "swo lt \<Longrightarrow> lt x z \<Longrightarrow> \<not> lt x y \<Longrightarrow> lt y z"
  unfolding swo_def by blast

abbreviation ordered :: "('a \<Rightarrow> 'a \<Rightarrow> bool) \<Rightarrow> 'a list \<Rightarrow> bool" where
  "ordered lt xs \<equiv> sorted_wrt (\<lambda>x y. \<not> lt y x) xs"

lemma transp_not_greater: "swo lt \<Longrightarrow> transp (\<lambda>x y. \<not> lt y x)"
  by (auto intro!: transpI dest: swo_trans)

section \<open>Maximum, minimum and ordered insertion\<close>

lemma list_max_loop_rep:
  "lrep h l (us @ vs) \<Longrightarrow>
     list_max_loop lt h (hd (vs @ [tail_of l])) (tail_of l) mx =
     Some (foldl (\<lambda>m e. if lt m e then e else m) mx vs)"
proof (induction vs arbitrary: us mx)
  case Nil
  then show ?case by (simp add: list_max_loop.simps)
next
  case (Cons v vs)
  have "v \<noteq> tail_of l" using gap_at_tail [OF Cons.prems] by simp
  then show ?case
    using Cons.IH [of "us @ [v]"] Cons.prems list_next_rep [OF Cons.prems]
    by (simp add: list_max_loop.simps [of lt h v])
qed

lemma list_min_loop_rep:
  "lrep h l (us @ vs) \<Longrightarrow>
     list_min_loop lt h (hd (vs @ [tail_of l])) (tail_of l) mn =
     Some (foldl (\<lambda>m e. if lt e m then e else m) mn vs)"
proof (induction vs arbitrary: us mn)
  case Nil
  then show ?case by (simp add: list_min_loop.simps)
next
  case (Cons v vs)
  have "v \<noteq> tail_of l" using gap_at_tail [OF Cons.prems] by simp
  then show ?case
    using Cons.IH [of "us @ [v]"] Cons.prems list_next_rep [OF Cons.prems]
    by (simp add: list_min_loop.simps [of lt h v])
qed

lemma list_max_rep:
  "lrep h l xs \<Longrightarrow> list_max lt h l =
     Some (case xs of [] \<Rightarrow> tail_of l | x # ys \<Rightarrow> foldl (\<lambda>m e. if lt m e then e else m) x ys)"
proof (cases xs)
  case (Cons x ys)
  assume r: "lrep h l xs"
  have "x \<noteq> tail_of l" using gap_at_tail [of h l "[]" xs] r Cons by simp
  then show ?thesis
    using r Cons list_max_loop_rep [of h l "[x]" ys lt x] list_next_rep [of h l "[]" x ys]
    by (simp add: list_max_def list_begin_rep list_end_rep)
qed (simp add: list_max_def list_begin_rep list_end_rep)

lemma list_min_rep:
  "lrep h l xs \<Longrightarrow> list_min lt h l =
     Some (case xs of [] \<Rightarrow> tail_of l | x # ys \<Rightarrow> foldl (\<lambda>m e. if lt e m then e else m) x ys)"
proof (cases xs)
  case (Cons x ys)
  assume r: "lrep h l xs"
  have "x \<noteq> tail_of l" using gap_at_tail [of h l "[]" xs] r Cons by simp
  then show ?thesis
    using r Cons list_min_loop_rep [of h l "[x]" ys lt x] list_next_rep [of h l "[]" x ys]
    by (simp add: list_min_def list_begin_rep list_end_rep)
qed (simp add: list_min_def list_begin_rep list_end_rep)

text \<open>
  What the fold computes, for a comparison \<open>better m e\<close> ("\<open>e\<close> replaces \<open>m\<close>"): the first of the
  elements that no other beats.
\<close>

lemma foldl_first_best:
  assumes "swo better" "\<forall>u \<in> set us. better u m"
  shows "\<exists>us' vs'. us @ m # vs = us' @ foldl (\<lambda>m e. if better m e then e else m) m vs # vs'
    \<and> (\<forall>u \<in> set us'. better u (foldl (\<lambda>m e. if better m e then e else m) m vs))
    \<and> (\<forall>v \<in> set vs'. \<not> better (foldl (\<lambda>m e. if better m e then e else m) m vs) v)"
proof -
  have gen: "\<exists>us' vs'. us @ m # ns @ vs = us' @ foldl (\<lambda>m e. if better m e then e else m) m vs # vs'
    \<and> (\<forall>u \<in> set us'. better u (foldl (\<lambda>m e. if better m e then e else m) m vs))
    \<and> (\<forall>v \<in> set vs'. \<not> better (foldl (\<lambda>m e. if better m e then e else m) m vs) v)"
    if "\<forall>u \<in> set us. better u m" "\<forall>n \<in> set ns. \<not> better m n" for us m ns
    using that
  proof (induction vs arbitrary: us m ns)
    case Nil
    then show ?case by auto
  next
    case (Cons v vs)
    show ?case
    proof (cases "better m v")
      case True
      have "\<forall>u \<in> set (us @ m # ns). better u v"
        using Cons.prems True
        by (auto intro: swo_less_trans [OF assms(1) _ True] swo_split [OF assms(1) True])
      then show ?thesis using Cons.IH [of "us @ m # ns" v "[]"] True by simp
    next
      case False
      then show ?thesis using Cons.IH [of us m "ns @ [v]"] Cons.prems by simp
    qed
  qed
  show ?thesis using gen [of us m "[]"] assms(2) by simp
qed

lemma insert_ordered_loop_rep:
  "lrep h l (us @ vs) \<Longrightarrow>
     insert_ordered_loop lt h e (hd (vs @ [tail_of l])) (tail_of l) =
     Some (hd (dropWhile (\<lambda>x. \<not> lt e x) vs @ [tail_of l]))"
proof (induction vs arbitrary: us)
  case Nil
  then show ?case by (simp add: insert_ordered_loop.simps)
next
  case (Cons v vs)
  have "v \<noteq> tail_of l" using gap_at_tail [OF Cons.prems] by simp
  then show ?case
    using Cons.IH [of "us @ [v]"] Cons.prems list_next_rep [OF Cons.prems]
    by (simp add: insert_ordered_loop.simps [of lt h e v])
qed

lemma list_insert_ordered_rep:
  assumes rep: "lrep h l xs" and new: "e \<notin> set (nodes l xs)" "e \<noteq> NULL"
  shows "\<exists>h'. list_insert_ordered lt h l e = Some h'
    \<and> lrep h' l (takeWhile (\<lambda>x. \<not> lt e x) xs @ e # dropWhile (\<lambda>x. \<not> lt e x) xs)
    \<and> same_off h h' (insert e (set (nodes l xs)))"
  using list_insert_rep [of h l "takeWhile (\<lambda>x. \<not> lt e x) xs" "dropWhile (\<lambda>x. \<not> lt e x) xs" e]
    insert_ordered_loop_rep [of h l "[]" xs lt e] assms
  by (simp add: list_insert_ordered_def list_begin_rep list_end_rep lrep_not_NULL)

lemma ordered_insert:
  assumes "swo lt" "ordered lt xs"
  shows "ordered lt (takeWhile (\<lambda>x. \<not> lt e x) xs @ e # dropWhile (\<lambda>x. \<not> lt e x) xs)"
  using assms(2)
proof (induction xs)
  case (Cons x xs)
  show ?case
  proof (cases "lt e x")
    case True
    then show ?thesis
      using Cons.prems by (auto dest: swo_asym [OF assms(1)] swo_less_trans [OF assms(1) _ True])
  next
    case False
    have "set (takeWhile (\<lambda>x. \<not> lt e x) xs @ e # dropWhile (\<lambda>x. \<not> lt e x) xs) = insert e (set xs)"
      by (metis set_append list.simps(15) Un_insert_right takeWhile_dropWhile_id)
    then show ?thesis using Cons False by auto
  qed
qed simp

section \<open>Merge sort on sequences\<close>

text \<open>What the passes of \<open>list_sort\<close> do to the sequence of elements.\<close>

fun merge_seq :: "('a \<Rightarrow> 'a \<Rightarrow> bool) \<Rightarrow> 'a list \<Rightarrow> 'a list \<Rightarrow> 'a list" where
  "merge_seq lt (x # xs) (y # ys) =
     (if \<not> lt y x then x # merge_seq lt xs (y # ys) else y # merge_seq lt (x # xs) ys)"
| "merge_seq lt xs ys = xs @ ys"

fun run_of :: "('a \<Rightarrow> 'a \<Rightarrow> bool) \<Rightarrow> 'a list \<Rightarrow> 'a list" where
  "run_of lt (x # y # zs) = (if lt y x then [x] else x # run_of lt (y # zs))"
| "run_of lt zs = zs"

fun rest_of :: "('a \<Rightarrow> 'a \<Rightarrow> bool) \<Rightarrow> 'a list \<Rightarrow> 'a list" where
  "rest_of lt (x # y # zs) = (if lt y x then y # zs else rest_of lt (y # zs))"
| "rest_of lt zs = []"

lemma run_rest: "run_of lt zs @ rest_of lt zs = zs"
  by (induction lt zs rule: run_of.induct) auto

lemma run_nonempty: "zs \<noteq> [] \<Longrightarrow> run_of lt zs \<noteq> []"
  by (induction lt zs rule: run_of.induct) auto

lemma length_rest_of: "zs \<noteq> [] \<Longrightarrow> length (rest_of lt zs) < length zs"
  by (induction lt zs rule: rest_of.induct) auto

lemma run_successively: "successively (\<lambda>x y. \<not> lt y x) (run_of lt zs)"
proof (induction lt zs rule: run_of.induct)
  case (1 lt x y zs)
  then show ?case
    by (cases "run_of lt (y # zs)") (auto simp: successively_Cons split: if_splits elim: run_of.elims)
qed auto

function pass_seq :: "('a \<Rightarrow> 'a \<Rightarrow> bool) \<Rightarrow> 'a list \<Rightarrow> 'a list list" where
  "pass_seq lt zs =
     (if zs = [] then []
      else if rest_of lt zs = [] then [zs]
      else merge_seq lt (run_of lt zs) (run_of lt (rest_of lt zs))
             # pass_seq lt (rest_of lt (rest_of lt zs)))"
  by pat_completeness auto
termination
  by (relation "measure (\<lambda>(lt, zs). length zs)") (auto intro: length_rest_of less_trans)

declare pass_seq.simps [simp del]

fun run_count :: "('a \<Rightarrow> 'a \<Rightarrow> bool) \<Rightarrow> 'a list \<Rightarrow> nat" where
  "run_count lt (x # y # zs) = (if lt y x then 1 else 0) + run_count lt (y # zs)"
| "run_count lt [x] = 1"
| "run_count lt [] = 0"

lemma run_count_rest: "zs \<noteq> [] \<Longrightarrow> run_count lt zs = Suc (run_count lt (rest_of lt zs))"
  by (induction lt zs rule: run_count.induct) auto

lemma run_count_append: "ordered lt rs \<Longrightarrow> run_count lt (rs @ zs) \<le> Suc (run_count lt zs)"
proof (induction rs)
  case (Cons r rs)
  then show ?case by (cases rs; cases zs) auto
qed simp

lemma run_count_concat: "\<forall>rs \<in> set rss. ordered lt rs \<Longrightarrow> run_count lt (concat rss) \<le> length rss"
proof (induction rss)
  case (Cons rs rss)
  then show ?case using run_count_append [of lt rs "concat rss"] by auto
qed simp

lemma ordered_iff_successively: "swo lt \<Longrightarrow> successively (\<lambda>x y. \<not> lt y x) zs = ordered lt zs"
  by (rule successively_iff_sorted_wrt_strong) (rule swo_trans)

lemma ordered_run: "swo lt \<Longrightarrow> ordered lt (run_of lt zs)"
  using run_successively ordered_iff_successively by blast

lemma set_merge_seq: "set (merge_seq lt xs ys) = set xs \<union> set ys"
  by (induction lt xs ys rule: merge_seq.induct) auto

lemma mset_merge_seq: "mset (merge_seq lt xs ys) = mset xs + mset ys"
  by (induction lt xs ys rule: merge_seq.induct) auto

lemma ordered_merge:
  "swo lt \<Longrightarrow> ordered lt xs \<Longrightarrow> ordered lt ys \<Longrightarrow> ordered lt (merge_seq lt xs ys)"
proof (induction lt xs ys rule: merge_seq.induct)
  case (1 lt x xs y ys)
  show ?case
  proof (cases "lt y x")
    case True
    have "\<forall>z \<in> set xs. \<not> lt z y"
      using "1.prems"(2) True by (auto dest: swo_less_trans [OF "1.prems"(1) _ True])
    then show ?thesis
      using 1 True swo_asym [OF "1.prems"(1) True] by (auto simp: set_merge_seq)
  next
    case False
    have "\<forall>z \<in> set ys. \<not> lt z x"
      using "1.prems"(3) swo_trans [OF "1.prems"(1) False] by auto
    then show ?thesis using 1 False by (auto simp: set_merge_seq)
  qed
qed auto

text \<open>Two elements that neither precedes.\<close>

abbreviation eqv :: "('a \<Rightarrow> 'a \<Rightarrow> bool) \<Rightarrow> 'a \<Rightarrow> 'a \<Rightarrow> bool" where
  "eqv lt k x \<equiv> \<not> lt k x \<and> \<not> lt x k"

lemma stable_merge:
  "swo lt \<Longrightarrow> ordered lt xs \<Longrightarrow>
     filter (eqv lt k) (merge_seq lt xs ys) = filter (eqv lt k) xs @ filter (eqv lt k) ys"
proof (induction lt xs ys rule: merge_seq.induct)
  case (1 lt x xs y ys)
  show ?case
  proof (cases "lt y x")
    case True
    have "filter (eqv lt k) (x # xs) = []" if "eqv lt k y"
    proof -
      have "lt k z" if z: "z \<in> set (x # xs)" for z
      proof -
        have "\<not> lt z x" using z "1.prems" swo_irrefl [of lt x] by auto
        then have "lt y z" by (rule swo_less_le_trans [OF "1.prems"(1) True])
        then show ?thesis using \<open>eqv lt k y\<close> swo_split [OF "1.prems"(1), of y z k] by blast
      qed
      then show ?thesis by (auto simp: filter_empty_conv)
    qed
    then show ?thesis using "1.IH"(2) "1.prems" True by auto
  next
    case False
    then show ?thesis using "1.IH"(1) "1.prems" by auto
  qed
qed auto

lemma mset_pass: "mset (concat (pass_seq lt zs)) = mset zs"
proof (induction lt zs rule: pass_seq.induct)
  case (1 lt zs)
  have "mset zs = mset (run_of lt zs) + mset (run_of lt (rest_of lt zs)) + mset (rest_of lt (rest_of lt zs))"
    by (metis run_rest mset_append add.assoc)
  then show ?case using 1 by (subst pass_seq.simps) (auto simp: mset_merge_seq)
qed

lemma stable_pass:
  "swo lt \<Longrightarrow> filter (eqv lt k) (concat (pass_seq lt zs)) = filter (eqv lt k) zs"
proof (induction lt zs rule: pass_seq.induct)
  case (1 lt zs)
  have "filter (eqv lt k) zs = filter (eqv lt k) (run_of lt zs)
      @ filter (eqv lt k) (run_of lt (rest_of lt zs)) @ filter (eqv lt k) (rest_of lt (rest_of lt zs))"
    by (metis run_rest filter_append)
  then show ?case using 1 by (subst pass_seq.simps) (auto simp: stable_merge ordered_run)
qed

lemma ordered_whole: "swo lt \<Longrightarrow> rest_of lt zs = [] \<Longrightarrow> ordered lt zs"
  by (metis run_rest append_Nil2 ordered_run)

lemma ordered_pass: "swo lt \<Longrightarrow> \<forall>rs \<in> set (pass_seq lt zs). ordered lt rs"
proof (induction lt zs rule: pass_seq.induct)
  case (1 lt zs)
  then show ?case
    by (subst pass_seq.simps) (auto simp: ordered_merge ordered_run ordered_whole)
qed

lemma length_pass: "length (pass_seq lt zs) = (run_count lt zs + 1) div 2"
proof (induction lt zs rule: pass_seq.induct)
  case (1 lt zs)
  then show ?case
    using run_count_rest [of zs lt] run_count_rest [of "rest_of lt zs" lt]
    by (subst pass_seq.simps) auto
qed

section \<open>Sorting\<close>

lemma gap_eq:
  "lrep h l (us @ ms @ vs) \<Longrightarrow> hd (ms @ vs @ [tail_of l]) = hd (vs @ [tail_of l]) \<longleftrightarrow> ms = []"
  by (cases ms; cases vs) (auto simp: lrep_def nodes_def)

lemma is_sorted_loop_rep:
  "lrep h l (us @ x # ms @ vs) \<Longrightarrow>
     is_sorted_loop lt h x (hd (vs @ [tail_of l])) = Some (successively (\<lambda>x y. \<not> lt y x) (x # ms))"
proof (induction ms arbitrary: us x)
  case Nil
  then show ?case using list_next_rep [of h l us x vs] by (simp add: is_sorted_loop.simps)
next
  case (Cons m ms)
  have "m \<noteq> hd (vs @ [tail_of l])" using gap_eq [of h l "us @ [x]" "m # ms" vs] Cons.prems by simp
  moreover have "list_next h x = Some m" using list_next_rep [of h l us x "m # ms @ vs"] Cons.prems by simp
  moreover have "list_prev h m = Some x"
    using list_prev_gap [of h l "us @ [x]" "m # ms @ vs"] Cons.prems by simp
  ultimately show ?case using Cons.IH [of "us @ [x]" m] Cons.prems
    by (simp add: is_sorted_loop.simps [of lt h x])
qed

lemma is_sorted_rep:
  "lrep h l (us @ ms @ vs) \<Longrightarrow>
     is_sorted lt h (hd (ms @ vs @ [tail_of l])) (hd (vs @ [tail_of l])) =
     Some (successively (\<lambda>x y. \<not> lt y x) ms)"
  using gap_eq [of h l us ms vs] is_sorted_loop_rep [of h l us "hd ms" "tl ms" vs lt]
  by (cases ms) (auto simp: is_sorted_def)

lemma end_of_run_loop_rep:
  "lrep h l (us @ x # vs) \<Longrightarrow>
     end_of_run_loop lt h x (tail_of l) = Some (hd (rest_of lt (x # vs) @ [tail_of l]))"
proof (induction vs arbitrary: us x)
  case Nil
  then show ?case using list_next_rep [of h l us x "[]"] by (simp add: end_of_run_loop.simps)
next
  case (Cons v vs)
  have "v \<noteq> tail_of l" using gap_at_tail [of h l "us @ [x]" "v # vs"] Cons.prems by simp
  moreover have "list_next h x = Some v" using list_next_rep [of h l us x "v # vs"] Cons.prems by simp
  moreover have "list_prev h v = Some x"
    using list_prev_gap [of h l "us @ [x]" "v # vs"] Cons.prems by simp
  ultimately show ?case using Cons.IH [of "us @ [x]" v] Cons.prems
    by (simp add: end_of_run_loop.simps [of lt h x])
qed

lemma gap_not_NULL: "lrep h l (us @ vs) \<Longrightarrow> hd (vs @ [tail_of l]) \<noteq> NULL"
  by (cases vs) (auto simp: lrep_def nodes_def)

lemma find_end_of_run_rep:
  "lrep h l (us @ vs) \<Longrightarrow> vs \<noteq> [] \<Longrightarrow>
     find_end_of_run lt h (hd (vs @ [tail_of l])) (tail_of l) = Some (hd (rest_of lt vs @ [tail_of l]))"
  using end_of_run_loop_rep [of h l us "hd vs" "tl vs" lt] gap_at_tail [of h l us vs]
    gap_not_NULL [of h l us vs]
  by (cases vs) (auto simp: find_end_of_run_def)

lemma merge_loop_rep:
  "lrep h l (us @ as @ bs @ vs) \<Longrightarrow>
     \<exists>h'. merge_loop lt (hd (vs @ [tail_of l])) h (hd (as @ bs @ vs @ [tail_of l]))
            (hd (bs @ vs @ [tail_of l])) = Some h'
       \<and> lrep h' l (us @ merge_seq lt as bs @ vs)
       \<and> same_off h h' (set (nodes l (us @ as @ bs @ vs)))"
proof (induction lt as bs arbitrary: h us rule: merge_seq.induct)
  case (1 lt a as b bs)
  have ne: "a \<noteq> b" "b \<noteq> hd (vs @ [tail_of l])"
    using gap_eq [of h l us "a # as" "b # bs @ vs"] gap_eq [of h l "us @ a # as" "b # bs" vs] "1.prems"
    by simp_all
  show ?case
  proof (cases "lt b a")
    case False
    have "list_next h a = Some (hd (as @ b # bs @ vs @ [tail_of l]))"
      using list_next_rep [of h l us a "as @ b # bs @ vs"] "1.prems" by simp
    then show ?thesis using "1.IH"(1) [of h "us @ [a]"] "1.prems" False ne
      by (simp add: merge_loop.simps [of lt _ h a])
  next
    case True
    let ?n = "hd (bs @ vs @ [tail_of l])"
    have nx: "list_next h b = Some ?n"
      using list_next_rep [of h l "us @ a # as" b "bs @ vs"] "1.prems" by simp
    have pv: "list_prev h ?n = Some b"
      using list_prev_gap [of h l "us @ a # as @ [b]" "bs @ vs"] "1.prems" by simp
    obtain h1 where h1: "list_splice h a b ?n = Some h1" "lrep h1 l (us @ [b] @ a # as @ bs @ vs)"
      "same_off h h1 (set (nodes l (us @ a # as @ b # bs @ vs)))"
      using list_splice_same_rep [of h l "us @ a # as" "[b]" "bs @ vs" us "a # as @ bs @ vs"] "1.prems"
      by auto
    obtain h2 where h2: "merge_loop lt (hd (vs @ [tail_of l])) h1 a ?n = Some h2"
      "lrep h2 l (us @ b # merge_seq lt (a # as) bs @ vs)"
      "same_off h1 h2 (set (nodes l (us @ [b] @ a # as @ bs @ vs)))"
      using "1.IH"(2) [of h1 "us @ [b]"] h1(2) True by auto
    have "same_off h h2 (set (nodes l (us @ a # as @ b # bs @ vs)))"
      by (rule same_off_mono [OF same_off_trans [OF h1(3) h2(3)]]) (auto simp: nodes_def)
    then show ?thesis using True ne nx pv h1(1) h2(1,2)
      by (simp add: merge_loop.simps [of lt _ h a])
  qed
qed (auto simp: merge_loop.simps)

lemma inplace_merge_rep:
  assumes rep: "lrep h l (us @ as @ bs @ vs)" and "swo lt" "ordered lt as" "ordered lt bs"
  shows "\<exists>h'. inplace_merge lt h (hd (as @ bs @ vs @ [tail_of l])) (hd (bs @ vs @ [tail_of l]))
            (hd (vs @ [tail_of l])) = Some h'
       \<and> lrep h' l (us @ merge_seq lt as bs @ vs)
       \<and> same_off h h' (set (nodes l (us @ as @ bs @ vs)))"
proof -
  have "hd (as @ bs @ vs @ [tail_of l]) \<noteq> NULL" "hd (bs @ vs @ [tail_of l]) \<noteq> NULL"
    "hd (vs @ [tail_of l]) \<noteq> NULL"
    using gap_not_NULL [of h l us "as @ bs @ vs"] gap_not_NULL [of h l "us @ as" "bs @ vs"]
      gap_not_NULL [of h l "us @ as @ bs" vs] rep by simp_all
  moreover have "is_sorted lt h (hd (as @ bs @ vs @ [tail_of l])) (hd (bs @ vs @ [tail_of l])) = Some True"
    "is_sorted lt h (hd (bs @ vs @ [tail_of l])) (hd (vs @ [tail_of l])) = Some True"
    using is_sorted_rep [of h l us as "bs @ vs" lt] is_sorted_rep [of h l "us @ as" bs vs lt] assms
    by (simp_all add: ordered_iff_successively)
  ultimately show ?thesis using merge_loop_rep [OF rep, of lt] by (simp add: inplace_merge_def)
qed

lemma sort_pass_rep:
  "lrep h l (us @ vs) \<Longrightarrow> swo lt \<Longrightarrow>
     \<exists>h'. sort_pass lt l h (hd (vs @ [tail_of l])) n = Some (h', n + length (pass_seq lt vs))
       \<and> lrep h' l (us @ concat (pass_seq lt vs)) \<and> same_off h h' (set (nodes l (us @ vs)))"
proof (induction lt vs arbitrary: h us n rule: pass_seq.induct)
  case (1 lt vs)
  note rep = "1.prems"(1) and swo = "1.prems"(2)
  let ?A = "run_of lt vs" and ?r = "rest_of lt vs"
  let ?B = "run_of lt ?r" and ?q = "rest_of lt ?r"
  have stop: "list_end l = Some (tail_of l)" by (rule list_end_rep [OF rep])
  consider "vs = []" | "vs \<noteq> []" "?r = []" | "vs \<noteq> []" "?r \<noteq> []" by blast
  then show ?case
  proof cases
    case 1
    then show ?thesis using rep stop by (simp add: sort_pass.simps pass_seq.simps)
  next
    case 2
    then show ?thesis
      using rep stop gap_at_tail [OF rep] find_end_of_run_rep [OF rep, of lt]
      by (simp add: sort_pass.simps pass_seq.simps [of lt vs])
  next
    case 3
    have vs: "vs = ?A @ ?B @ ?q" and r: "?r = ?B @ ?q" using run_rest [of lt] by metis+
    have rep': "lrep h l (us @ ?A @ ?B @ ?q)" using rep vs by simp
    have e1: "find_end_of_run lt h (hd (vs @ [tail_of l])) (tail_of l) = Some (hd (?r @ [tail_of l]))"
      by (rule find_end_of_run_rep [OF rep 3(1)])
    have ne: "hd (vs @ [tail_of l]) \<noteq> tail_of l" "hd (?r @ [tail_of l]) \<noteq> tail_of l"
      using gap_at_tail [OF rep] gap_at_tail [of h l "us @ ?A" ?r] rep' r 3 by simp_all
    have e2: "find_end_of_run lt h (hd (?r @ [tail_of l])) (tail_of l) = Some (hd (?q @ [tail_of l]))"
      using find_end_of_run_rep [of h l "us @ ?A" ?r lt] rep' r 3 by simp
    obtain h1 where h1: "inplace_merge lt h (hd (vs @ [tail_of l])) (hd (?r @ [tail_of l]))
        (hd (?q @ [tail_of l])) = Some h1"
      "lrep h1 l (us @ merge_seq lt ?A ?B @ ?q)" "same_off h h1 (set (nodes l (us @ vs)))"
      using inplace_merge_rep [OF rep' swo] ordered_run [OF swo] vs r by (metis append.assoc)
    obtain h2 where h2: "sort_pass lt l h1 (hd (?q @ [tail_of l])) (n + 1) =
        Some (h2, n + 1 + length (pass_seq lt ?q))"
      "lrep h2 l ((us @ merge_seq lt ?A ?B) @ concat (pass_seq lt ?q))"
      "same_off h1 h2 (set (nodes l ((us @ merge_seq lt ?A ?B) @ ?q)))"
      using "1.IH" [OF 3(1,2), of h1 "us @ merge_seq lt ?A ?B" "n + 1"] h1(2) swo by auto
    have "set (nodes l ((us @ merge_seq lt ?A ?B) @ ?q)) = set (nodes l (us @ vs))"
      by (subst (4) vs) (auto simp: nodes_def set_merge_seq)
    then have "same_off h h2 (set (nodes l (us @ vs)))"
      using same_off_trans [OF h1(3) h2(3)] by simp
    then show ?thesis
      using e1 e2 ne stop h1(1) h2(1,2) 3 by (simp add: sort_pass.simps [of lt l h] pass_seq.simps [of lt vs])
  qed
qed

lemma sort_loop_rep:
  assumes swo: "swo lt"
  shows "lrep h l xs \<Longrightarrow>
     \<exists>h' ys. sort_loop lt l h = Some h' \<and> lrep h' l ys \<and> ordered lt ys \<and> mset ys = mset xs
       \<and> (\<forall>k. filter (eqv lt k) ys = filter (eqv lt k) xs) \<and> same_off h h' (set (nodes l xs))"
proof (induction "run_count lt xs" arbitrary: h xs rule: less_induct)
  case less
  let ?p = "pass_seq lt xs"
  obtain h1 where h1: "sort_pass lt l h (hd (xs @ [tail_of l])) 0 = Some (h1, length ?p)"
    "lrep h1 l (concat ?p)" "same_off h h1 (set (nodes l xs))"
    using sort_pass_rep [of h l "[]" xs lt 0] less.prems swo by auto
  have b: "list_begin h l = Some (hd (xs @ [tail_of l]))" by (rule list_begin_rep [OF less.prems])
  note step = sort_loop.simps [of lt l h]
  show ?case
  proof (cases "length ?p > 1")
    case True
    then have "run_count lt (concat ?p) < run_count lt xs"
      using run_count_concat [of ?p lt] ordered_pass [OF swo, of xs] length_pass [of lt xs] by auto
    then obtain h2 ys where h2: "sort_loop lt l h1 = Some h2" "lrep h2 l ys" "ordered lt ys"
      "mset ys = mset (concat ?p)" "\<forall>k. filter (eqv lt k) ys = filter (eqv lt k) (concat ?p)"
      "same_off h1 h2 (set (nodes l (concat ?p)))"
      using less.hyps [OF _ h1(2)] by blast
    have "set (nodes l (concat ?p)) = set (nodes l xs)"
      using mset_eq_setD [OF mset_pass [of lt xs]] by (simp add: nodes_def)
    then have "same_off h h2 (set (nodes l xs))" using same_off_trans [OF h1(3) h2(6)] by simp
    then show ?thesis using step b h1(1) h2(1-5) True by (auto simp: mset_pass stable_pass [OF swo])
  next
    case False
    then have "ordered lt (concat ?p)" using ordered_pass [OF swo, of xs]
      by (cases ?p; cases "tl ?p") auto
    then show ?thesis using step b h1 False
      by (intro exI [of _ h1] exI [of _ "concat ?p"]) (auto simp: mset_pass stable_pass [OF swo])
  qed
qed

lemma list_sort_rep:
  assumes "lrep h l xs" "swo lt"
  shows "\<exists>h' ys. list_sort lt h l = Some h' \<and> lrep h' l ys \<and> ordered lt ys \<and> mset ys = mset xs
       \<and> (\<forall>k. filter (eqv lt k) ys = filter (eqv lt k) xs) \<and> same_off h h' (set (nodes l xs))"
proof -
  obtain h' ys where h': "sort_loop lt l h = Some h'" "lrep h' l ys" "ordered lt ys"
    and more: "mset ys = mset xs" "\<forall>k. filter (eqv lt k) ys = filter (eqv lt k) xs"
      "same_off h h' (set (nodes l xs))"
    using sort_loop_rep [OF assms(2,1)] by blast
  have "is_sorted lt h' (hd (ys @ [tail_of l])) (tail_of l) = Some True"
    using is_sorted_rep [of h' l "[]" ys "[]" lt] h'(2,3) assms(2) by (simp add: ordered_iff_successively)
  then have "list_sort lt h l = Some h'"
    using h' lrep_not_NULL [OF assms(1)] by (simp add: list_sort_def list_begin_rep list_end_rep)
  then show ?thesis using h'(2,3) more by blast
qed

section \<open>Removing adjacent duplicates\<close>

fun uniq_seq :: "('a \<Rightarrow> 'a \<Rightarrow> bool) \<Rightarrow> 'a list \<Rightarrow> 'a list" where
  "uniq_seq lt (x # y # zs) =
     (if \<not> lt x y \<and> \<not> lt y x then uniq_seq lt (x # zs) else x # uniq_seq lt (y # zs))"
| "uniq_seq lt zs = zs"

fun dups_seq :: "('a \<Rightarrow> 'a \<Rightarrow> bool) \<Rightarrow> 'a list \<Rightarrow> 'a list" where
  "dups_seq lt (x # y # zs) =
     (if \<not> lt x y \<and> \<not> lt y x then y # dups_seq lt (x # zs) else dups_seq lt (y # zs))"
| "dups_seq lt zs = []"

lemma unique_loop_step:
  assumes "lrep h l (us @ x # y # zs)"
  shows "list_next h x = Some y" "y \<noteq> tail_of l"
    "\<exists>h'. list_remove h y = Some (hd (zs @ [tail_of l]), h') \<and> lrep h' l (us @ x # zs)
       \<and> same_off h h' (set (nodes l (us @ x # zs)))"
  using list_next_rep [of h l us x "y # zs"] gap_at_tail [of h l "us @ [x]" "y # zs"]
    list_remove_rep [of h l "us @ [x]" y zs] assms
  by simp_all

lemma unique_loop_end: "lrep h l (us @ [x]) \<Longrightarrow> list_next h x = Some (tail_of l)"
  using list_next_rep [of h l us x "[]"] by simp

lemma unique_loop_drop_rep:
  "lrep h l (us @ x # vs) \<Longrightarrow>
     \<exists>h'. list_unique_loop lt NULL (tail_of l) h x = Some h' \<and> lrep h' l (us @ uniq_seq lt (x # vs))
       \<and> same_off h h' (set (nodes l (us @ x # vs)))"
proof (induction vs arbitrary: h us x)
  case Nil
  then show ?case using unique_loop_end [OF Nil] by (simp add: list_unique_loop.simps)
next
  case (Cons y zs)
  note st = unique_loop_step [OF Cons.prems]
  show ?case
  proof (cases "eqv lt x y")
    case True
    obtain h1 where h1: "list_remove h y = Some (hd (zs @ [tail_of l]), h1)" "lrep h1 l (us @ x # zs)"
      "same_off h h1 (set (nodes l (us @ x # zs)))" using st(3) by blast
    obtain h2 where h2: "list_unique_loop lt NULL (tail_of l) h1 x = Some h2"
      "lrep h2 l (us @ uniq_seq lt (x # zs))" "same_off h1 h2 (set (nodes l (us @ x # zs)))"
      using Cons.IH [OF h1(2)] by blast
    have "same_off h h2 (set (nodes l (us @ x # y # zs)))"
      by (rule same_off_mono [OF same_off_trans [OF h1(3) h2(3)]]) (auto simp: nodes_def)
    then show ?thesis
      using True st(1,2) h1(1) h2(1,2) by (simp add: list_unique_loop.simps [of lt _ _ h])
  next
    case False
    then show ?thesis using Cons.IH [of h "us @ [x]" y] Cons.prems st(1,2)
      by (auto simp: list_unique_loop.simps [of lt _ _ h])
  qed
qed

lemma unique_loop_keep_rep:
  "lrep h l (us @ x # vs) \<Longrightarrow> lrep h d ds \<Longrightarrow> set (nodes l (us @ x # vs)) \<inter> set (nodes d ds) = {} \<Longrightarrow>
     \<exists>h'. list_unique_loop lt d (tail_of l) h x = Some h' \<and> lrep h' l (us @ uniq_seq lt (x # vs))
       \<and> lrep h' d (ds @ dups_seq lt (x # vs))
       \<and> same_off h h' (set (nodes l (us @ x # vs)) \<union> set (nodes d ds))"
proof (induction vs arbitrary: h us x ds)
  case Nil
  then show ?case using unique_loop_end [OF Nil(1)] by (simp add: list_unique_loop.simps)
next
  case (Cons y zs)
  note st = unique_loop_step [OF Cons.prems(1)]
  show ?case
  proof (cases "eqv lt x y")
    case True
    let ?L = "set (nodes l (us @ x # zs))" and ?D = "set (nodes d ds)"
    have y: "y \<notin> ?L" "y \<noteq> NULL" and L: "set (nodes l (us @ x # y # zs)) = insert y ?L"
      using Cons.prems(1) by (auto simp: lrep_def nodes_def)
    have dj: "?L \<inter> ?D = {}" "y \<notin> ?D" using Cons.prems(3) unfolding L by blast+
    obtain h1 where h1: "list_remove h y = Some (hd (zs @ [tail_of l]), h1)" "lrep h1 l (us @ x # zs)"
      "same_off h h1 ?L" using st(3) by blast
    have d1: "lrep h1 d ds" by (rule lrep_frame [OF Cons.prems(2) h1(3)]) (use dj in blast)
    obtain h2 where h2: "list_push_back h1 d y = Some h2" "lrep h2 d (ds @ [y])"
      "same_off h1 h2 (insert y ?D)"
      using list_push_back_rep [OF d1 dj(2) y(2)] by blast
    have l2: "lrep h2 l (us @ x # zs)" by (rule lrep_frame [OF h1(2) h2(3)]) (use dj y in blast)
    have D: "set (nodes d (ds @ [y])) = insert y ?D" by (auto simp: nodes_def)
    have "?L \<inter> set (nodes d (ds @ [y])) = {}" unfolding D using dj y by blast
    then obtain h3 where h3: "list_unique_loop lt d (tail_of l) h2 x = Some h3"
      "lrep h3 l (us @ uniq_seq lt (x # zs))" "lrep h3 d ((ds @ [y]) @ dups_seq lt (x # zs))"
      "same_off h2 h3 (?L \<union> insert y ?D)"
      using Cons.IH [OF l2 h2(2)] unfolding D by blast
    have "same_off h h3 (set (nodes l (us @ x # y # zs)) \<union> ?D)" unfolding L
      by (rule same_off_mono [OF same_off_trans [OF same_off_trans [OF h1(3) h2(3)] h3(4)]]) blast
    then show ?thesis
      using True st(1,2) h1(1) h2(1) h3(1-3) lrep_not_NULL [OF d1]
      by (simp add: list_unique_loop.simps [of lt _ _ h])
  next
    case False
    then show ?thesis using Cons.IH [of h "us @ [x]" y ds] Cons.prems st(1,2)
      by (auto simp: list_unique_loop.simps [of lt _ _ h])
  qed
qed

lemma list_unique_drop_rep:
  assumes "lrep h l xs"
  shows "\<exists>h'. list_unique lt h l NULL = Some h' \<and> lrep h' l (uniq_seq lt xs)
    \<and> same_off h h' (set (nodes l xs))"
  using assms unique_loop_drop_rep [of h l "[]" "hd xs" "tl xs" lt] lrep_not_NULL [OF assms]
  by (cases xs) (auto simp: list_unique_def list_empty_rep list_begin_rep list_end_rep)

lemma list_unique_keep_rep:
  assumes "lrep h l xs" "lrep h d ds" "set (nodes l xs) \<inter> set (nodes d ds) = {}"
  shows "\<exists>h'. list_unique lt h l d = Some h' \<and> lrep h' l (uniq_seq lt xs)
    \<and> lrep h' d (ds @ dups_seq lt xs) \<and> same_off h h' (set (nodes l xs) \<union> set (nodes d ds))"
  using assms unique_loop_keep_rep [of h l "[]" "hd xs" "tl xs" d ds lt] lrep_not_NULL [OF assms(1)]
  by (cases xs) (auto simp: list_unique_def list_empty_rep list_begin_rep list_end_rep)

text \<open>On a sorted list nothing that is kept is equivalent to anything else that is kept.\<close>

lemma uniq_seq_strict:
  "swo lt \<Longrightarrow> ordered lt xs \<Longrightarrow> sorted_wrt lt (uniq_seq lt xs)"
proof (induction lt xs rule: uniq_seq.induct)
  case (1 lt x y zs)
  have sub: "set (uniq_seq lt zs') \<subseteq> set zs'" for zs'
    by (induction lt zs' rule: uniq_seq.induct) auto
  show ?case
  proof (cases "eqv lt x y")
    case True
    then show ?thesis using 1 by auto
  next
    case False
    then have xy: "lt x y" using "1.prems"(2) by auto
    then have "\<forall>z \<in> set (y # zs). lt x z"
      using "1.prems" by (auto intro: swo_less_le_trans [OF "1.prems"(1) xy])
    then show ?thesis using 1 False sub [of "y # zs"] by auto
  qed
qed auto

lemma uniq_seq_hd: "\<exists>us. uniq_seq lt (x # zs) = x # us"
proof (induction zs)
  case (Cons y zs)
  then show ?case by auto
qed simp

text \<open>Every element that is moved away is equivalent to one that is kept.\<close>

lemma dups_have_uniq:
  "\<forall>v \<in> set (dups_seq lt xs). \<exists>u \<in> set (uniq_seq lt xs). \<not> lt u v \<and> \<not> lt v u"
proof (induction lt xs rule: uniq_seq.induct)
  case (1 lt x y zs)
  then show ?case using uniq_seq_hd [of lt x zs] by (auto split: if_splits)
qed auto

lemma mset_uniq_dups: "mset (uniq_seq lt xs) + mset (dups_seq lt xs) = mset xs"
  by (induction lt xs rule: uniq_seq.induct) auto

section \<open>Properties\<close>

lemma swo_less_nat [simp]: "swo ((<) :: nat \<Rightarrow> nat \<Rightarrow> bool)"
  by (auto simp: swo_def)

text \<open>
  C1: \<open>list_sort\<close> returns on every well-formed list for every strict weak ordering, without failing
  one of its assertions; the list is then well-formed, sorted, holds the same elements, and keeps
  equivalent elements in their order (it is stable); nothing outside the list changes.
\<close>

theorem list_sort_correct:
  assumes "lrep h l xs" "swo lt"
  shows "\<exists>h' ys. list_sort lt h l = Some h' \<and> lrep h' l ys
    \<and> sorted_wrt (\<lambda>x y. \<not> lt y x) ys \<and> mset ys = mset xs
    \<and> (\<forall>k. filter (\<lambda>x. \<not> lt k x \<and> \<not> lt x k) ys = filter (\<lambda>x. \<not> lt k x \<and> \<not> lt x k) xs)
    \<and> same_off h h' (set (nodes l xs))"
  by (rule list_sort_rep [OF assms])

theorem list_sort_correct_witness:
  "\<exists>h' ys. list_sort (<) sample_heap 100 = Some h' \<and> lrep h' 100 ys \<and> sorted ys
    \<and> mset ys = {#40, 20, 60#}"
  using list_sort_correct [of sample_heap 100 "[40, 20, 60]" "(<)"]
  by (auto simp: not_less sorted_wrt_iff_nth_less sorted_iff_nth_mono_less)

text \<open>
  C21: \<open>list_insert_ordered\<close> puts a new element into a sorted list behind every element that is not
  greater; the list stays well-formed and sorted, and its other elements keep their order.
\<close>

theorem list_insert_ordered_correct:
  assumes "lrep h l xs" "swo lt" "sorted_wrt (\<lambda>x y. \<not> lt y x) xs" "e \<notin> set (nodes l xs)" "e \<noteq> NULL"
  shows "\<exists>h' us vs. list_insert_ordered lt h l e = Some h' \<and> xs = us @ vs \<and> lrep h' l (us @ e # vs)
    \<and> sorted_wrt (\<lambda>x y. \<not> lt y x) (us @ e # vs)
    \<and> (\<forall>u \<in> set us. \<not> lt e u) \<and> (\<forall>v \<in> set vs. lt e v)
    \<and> same_off h h' (insert e (set (nodes l xs)))"
proof -
  let ?us = "takeWhile (\<lambda>x. \<not> lt e x) xs" and ?vs = "dropWhile (\<lambda>x. \<not> lt e x) xs"
  have "\<forall>v \<in> set ?vs. lt e v"
  proof (cases ?vs)
    case (Cons v vs)
    then have ev: "lt e v" using hd_dropWhile [of "\<lambda>x. \<not> lt e x" xs] by auto
    have "ordered lt ?vs" using assms(3) by (metis sorted_wrt_append takeWhile_dropWhile_id)
    then show ?thesis using Cons ev swo_less_le_trans [OF assms(2) ev] by auto
  qed (simp only: list.set ball_empty)
  moreover have "\<forall>u \<in> set ?us. \<not> lt e u" by (auto dest: set_takeWhileD)
  ultimately show ?thesis
    using list_insert_ordered_rep [OF assms(1,4,5), of lt] ordered_insert [OF assms(2,3), of e]
    by (metis takeWhile_dropWhile_id)
qed

lemma takeWhile_dropWhile_append:
  assumes "\<forall>u \<in> set us. P u" "\<forall>v \<in> set vs. \<not> P v"
  shows "takeWhile P (us @ vs) = us" "dropWhile P (us @ vs) = vs"
  using assms by (cases vs; simp)+

definition sample_key :: "addr \<Rightarrow> nat" where
  "sample_key x = (if x = 40 then 1 else if x = 60 then 3 else 2)"

theorem list_insert_ordered_correct_witness:
  "\<exists>h'. list_insert_ordered (\<lambda>x y. sample_key x < sample_key y) sample_heap 100 30 = Some h' \<and> lrep h' 100 [40, 20, 30, 60]"
proof -
  let ?lt = "\<lambda>x y. sample_key x < sample_key y"
  have l: "lrep sample_heap 100 [40, 20, 60]" by simp
  have o: "swo ?lt" "sorted_wrt (\<lambda>x y. \<not> ?lt y x) [40, 20, 60]" by (auto simp: swo_def sample_key_def)
  have n: "30 \<notin> set (nodes 100 [40, 20, 60])" "30 \<noteq> NULL" by (simp_all add: nodes_def head_of_def tail_of_def)
  from list_insert_ordered_correct [OF l o n]
  obtain h' us vs where r: "list_insert_ordered ?lt sample_heap 100 30 = Some h'" "[40, 20, 60] = us @ vs"
    "lrep h' 100 (us @ 30 # vs)" "\<forall>u \<in> set us. \<not> ?lt 30 u" "\<forall>v \<in> set vs. ?lt 30 v"
    by (elim exE conjE) (rule that; assumption)
  have "takeWhile (\<lambda>x. \<not> ?lt 30 x) (us @ vs) = us" "dropWhile (\<lambda>x. \<not> ?lt 30 x) (us @ vs) = vs"
    by (rule takeWhile_dropWhile_append [OF r(4)]; use r(5) in simp)+
  then have "us = [40, 20]" "vs = [60]" unfolding r(2) [symmetric] by (simp_all add: sample_key_def)
  with r(1,3) show ?thesis by simp
qed

text \<open>
  C23: \<open>list_max\<close> and \<open>list_min\<close> of a non-empty list return its first element that no other element
  exceeds, respectively undercuts: the earlier elements are strictly worse, the later ones no better.
\<close>

theorem list_max_min_first:
  assumes "lrep h l xs" "xs \<noteq> []" "swo lt"
  shows "\<exists>us m vs us' m' vs'. list_max lt h l = Some m \<and> xs = us @ m # vs
      \<and> (\<forall>u \<in> set us. lt u m) \<and> (\<forall>v \<in> set vs. \<not> lt m v)
      \<and> list_min lt h l = Some m' \<and> xs = us' @ m' # vs'
      \<and> (\<forall>u \<in> set us'. lt m' u) \<and> (\<forall>v \<in> set vs'. \<not> lt v m')"
proof -
  obtain x ys where xs: "xs = x # ys" using assms(2) by (cases xs) auto
  have swo': "swo (\<lambda>a b. lt b a)" using assms(3) unfolding swo_def by blast
  let ?m = "foldl (\<lambda>m e. if lt m e then e else m) x ys"
  let ?m' = "foldl (\<lambda>m e. if lt e m then e else m) x ys"
  obtain us vs where u: "xs = us @ ?m # vs" "\<forall>u \<in> set us. lt u ?m" "\<forall>v \<in> set vs. \<not> lt ?m v"
    using foldl_first_best [OF assms(3), of "[]" x ys] unfolding xs by auto
  obtain us' vs' where u': "xs = us' @ ?m' # vs'" "\<forall>u \<in> set us'. lt ?m' u" "\<forall>v \<in> set vs'. \<not> lt v ?m'"
    using foldl_first_best [OF swo', of "[]" x ys] unfolding xs by auto
  have "list_max lt h l = Some ?m" "list_min lt h l = Some ?m'"
    using list_max_rep [OF assms(1), of lt] list_min_rep [OF assms(1), of lt] xs by simp_all
  with u u' show ?thesis by blast
qed

theorem list_max_min_first_witness:
  "list_max (<) sample_heap 100 = Some 60 \<and> list_min (<) sample_heap 100 = Some 20"
proof -
  have "lrep sample_heap 100 [40, 20, 60]" "[40, 20, 60] \<noteq> ([] :: nat list)" by simp_all
  from list_max_min_first [OF this swo_less_nat] obtain us m vs us' m' vs'
    where m: "list_max (<) sample_heap 100 = Some m" "list_min (<) sample_heap 100 = Some m'"
      and s: "[40, 20, 60] = us @ m # vs" "[40, 20, 60] = us' @ m' # vs'"
      and b: "\<forall>u \<in> set us. u < m" "\<forall>v \<in> set vs. \<not> m < v" "\<forall>u \<in> set us'. m' < u" "\<forall>v \<in> set vs'. \<not> v < m'"
    by (elim exE conjE) (rule that; assumption)
  have e: "set us \<union> {m} \<union> set vs = {40, 20, 60}" "set us' \<union> {m'} \<union> set vs' = {40, 20, 60}"
    using s [THEN arg_cong, of set] by auto
  have "x \<le> m" if "x \<in> set us \<union> {m} \<union> set vs" for x using that b(1,2) by (auto simp: not_less less_imp_le)
  then have "60 \<le> m" unfolding e(1) by simp
  moreover have "m' \<le> x" if "x \<in> set us' \<union> {m'} \<union> set vs'" for x using that b(3,4) by (auto simp: not_less less_imp_le)
  then have "m' \<le> 20" unfolding e(2) by simp
  moreover have "m \<in> {40, 20, 60}" "m' \<in> {40, 20, 60}" using e by auto
  ultimately have "m = 60" "m' = 20" by auto
  then show ?thesis using m by simp
qed

text \<open>
  C22: \<open>list_unique\<close> with a duplicates list moves elements from a list to the back of the duplicates
  list and loses none; both lists stay well-formed.  On a sorted list what is left is strictly
  increasing: of every group of equivalent elements one is left.
\<close>

theorem list_unique_correct:
  assumes "lrep h l xs" "lrep h d ds" "set (nodes l xs) \<inter> set (nodes d ds) = {}" "swo lt"
    "sorted_wrt (\<lambda>x y. \<not> lt y x) xs"
  shows "\<exists>h' us vs. list_unique lt h l d = Some h' \<and> lrep h' l us \<and> lrep h' d (ds @ vs)
    \<and> mset us + mset vs = mset xs \<and> sorted_wrt lt us \<and> (\<forall>v \<in> set vs. \<exists>u \<in> set us. \<not> lt u v \<and> \<not> lt v u)"
proof -
  have "\<forall>v \<in> set (dups_seq lt xs). \<exists>u \<in> set (uniq_seq lt xs). \<not> lt u v \<and> \<not> lt v u"
    by (rule dups_have_uniq)
  then show ?thesis
    using list_unique_keep_rep [OF assms(1-3), of lt] uniq_seq_strict [OF assms(4,5)] mset_uniq_dups
    by blast
qed

theorem list_unique_correct_witness:
  "\<exists>h' us vs. list_unique (\<lambda>x y. False) sample_heap 100 200 = Some h' \<and> lrep h' 100 us
    \<and> lrep h' 200 vs \<and> mset us + mset vs = {#40, 20, 60#} \<and> sorted_wrt (\<lambda>x y. False) us"
  using list_unique_correct [of sample_heap 100 "[40, 20, 60]" 200 "[]" "\<lambda>x y. False"]
  by (fastforce simp: swo_def)

end
