(* ===== verification/Kernel_Bitmap.thy ===== *)
theory Kernel_Bitmap
  imports Pintos_Prelude
begin

text \<open>
  The bitmaps of \<open>lib/kernel/bitmap.c\<close>: an array of bits kept in 32-bit elements.

  A \<open>size_t\<close> is a natural number below \<open>2 ^ 32\<close>; every addition of the source that could leave this
  range is written with its wrap-around.  A bitmap is a value, so \<open>ASSERT (b != NULL)\<close> holds; access
  outside the element array is \<open>None\<close>.  \<open>bit_list b\<close> is the sequence of bits a bitmap stands for, and
  every operation is shown to refine its operation on that sequence.  \<open>bitmap_read\<close> and
  \<open>bitmap_write\<close>, which need the file system, are in \<open>Filesys_Inode\<close>.
\<close>

definition wrap32 :: "nat \<Rightarrow> nat" where
  "wrap32 n = n mod 2 ^ 32"

abbreviation SIZE_MAX :: nat where
  "SIZE_MAX \<equiv> 4294967295"

text \<open>\<open>#define BITMAP_ERROR SIZE_MAX\<close>\<close>

definition BITMAP_ERROR :: nat where
  "BITMAP_ERROR = SIZE_MAX"

abbreviation ELEM_BITS :: nat where
  "ELEM_BITS \<equiv> 32"

record bitmap =
  bit_cnt :: nat
  bits :: "u32 list"

section \<open>Operations\<close>

definition elem_idx :: "nat \<Rightarrow> nat" where
  "elem_idx bit_idx = bit_idx div ELEM_BITS"

definition bit_mask :: "nat \<Rightarrow> u32" where
  "bit_mask bit_idx = push_bit (bit_idx mod ELEM_BITS) 1"

definition elem_cnt :: "nat \<Rightarrow> nat" where
  "elem_cnt n = wrap32 (n + ELEM_BITS - 1) div ELEM_BITS"

definition byte_cnt :: "nat \<Rightarrow> nat" where
  "byte_cnt n = 4 * elem_cnt n"

definition last_mask :: "bitmap \<Rightarrow> u32" where
  "last_mask b = (let last_bits = bit_cnt b mod ELEM_BITS
                  in if last_bits \<noteq> 0 then push_bit last_bits 1 - 1 else - 1)"

definition bitmap_size :: "bitmap \<Rightarrow> nat" where
  "bitmap_size b = bit_cnt b"

definition update_elem :: "bitmap \<Rightarrow> nat \<Rightarrow> (u32 \<Rightarrow> u32) \<Rightarrow> bitmap option" where
  "update_elem b idx f =
     (if idx < length (bits b) then Some (b\<lparr>bits := (bits b)[idx := f (bits b ! idx)]\<rparr>) else None)"

definition bitmap_mark :: "bitmap \<Rightarrow> nat \<Rightarrow> bitmap option" where
  "bitmap_mark b bit_idx = update_elem b (elem_idx bit_idx) (\<lambda>e. e OR bit_mask bit_idx)"

definition bitmap_reset :: "bitmap \<Rightarrow> nat \<Rightarrow> bitmap option" where
  "bitmap_reset b bit_idx = update_elem b (elem_idx bit_idx) (\<lambda>e. e AND NOT (bit_mask bit_idx))"

definition bitmap_flip :: "bitmap \<Rightarrow> nat \<Rightarrow> bitmap option" where
  "bitmap_flip b bit_idx = update_elem b (elem_idx bit_idx) (\<lambda>e. e XOR bit_mask bit_idx)"

definition bitmap_set :: "bitmap \<Rightarrow> nat \<Rightarrow> bool \<Rightarrow> bitmap option" where
  "bitmap_set b idx value = do {
     ASSERT (idx < bit_cnt b);
     if value then bitmap_mark b idx else bitmap_reset b idx
   }"

definition bitmap_test :: "bitmap \<Rightarrow> nat \<Rightarrow> bool option" where
  "bitmap_test b idx = do {
     ASSERT (idx < bit_cnt b);
     ASSERT (elem_idx idx < length (bits b));
     Some (bits b ! elem_idx idx AND bit_mask idx \<noteq> 0)
   }"

text \<open>The \<open>for\<close> loops run \<open>i\<close> up from 0; the last argument is the number of rounds left.\<close>

fun set_multiple_loop :: "bitmap \<Rightarrow> nat \<Rightarrow> bool \<Rightarrow> nat \<Rightarrow> nat \<Rightarrow> bitmap option" where
  "set_multiple_loop b start value i 0 = Some b"
| "set_multiple_loop b start value i (Suc n) = do {
     b \<leftarrow> bitmap_set b (wrap32 (start + i)) value;
     set_multiple_loop b start value (i + 1) n
   }"

definition bitmap_set_multiple :: "bitmap \<Rightarrow> nat \<Rightarrow> nat \<Rightarrow> bool \<Rightarrow> bitmap option" where
  "bitmap_set_multiple b start cnt value = do {
     ASSERT (start \<le> bit_cnt b);
     ASSERT (wrap32 (start + cnt) \<le> bit_cnt b);
     set_multiple_loop b start value 0 cnt
   }"

definition bitmap_set_all :: "bitmap \<Rightarrow> bool \<Rightarrow> bitmap option" where
  "bitmap_set_all b value = bitmap_set_multiple b 0 (bitmap_size b) value"

text \<open>
  \<open>bitmap_create\<close> with what its two calls of \<open>malloc\<close> return: whether the structure could be
  allocated, and the (arbitrary) contents of the element array or \<open>None\<close> for a null pointer.  The
  result is \<open>Some None\<close> for a null pointer.
\<close>

definition bitmap_create :: "bool \<Rightarrow> u32 list option \<Rightarrow> nat \<Rightarrow> bitmap option option" where
  "bitmap_create struct_ok array n =
     (if struct_ok then
        if array \<noteq> None \<or> n = 0 then do {
          b \<leftarrow> bitmap_set_all \<lparr>bit_cnt = n, bits = (case array of Some ws \<Rightarrow> ws | None \<Rightarrow> [])\<rparr> False;
          Some (Some b)
        }
        else Some None
      else Some None)"

text \<open>\<open>sizeof (struct bitmap)\<close> is 8: a \<open>size_t\<close> and a pointer.\<close>

definition bitmap_buf_size :: "nat \<Rightarrow> nat" where
  "bitmap_buf_size n = wrap32 (8 + byte_cnt n)"

text \<open>
  The elements follow the structure in the block; \<open>block\<close> is the block's contents as words (its
  first two hold the structure), of which \<open>block_size\<close> bytes may be used.
\<close>

definition bitmap_create_in_buf :: "nat \<Rightarrow> u32 list \<Rightarrow> nat \<Rightarrow> bitmap option" where
  "bitmap_create_in_buf n block block_size = do {
     ASSERT (block_size \<ge> bitmap_buf_size n);
     bitmap_set_all \<lparr>bit_cnt = n, bits = take (elem_cnt n) (drop 2 block)\<rparr> False
   }"

fun count_loop :: "bitmap \<Rightarrow> nat \<Rightarrow> bool \<Rightarrow> nat \<Rightarrow> nat \<Rightarrow> nat \<Rightarrow> nat option" where
  "count_loop b start value i value_cnt 0 = Some value_cnt"
| "count_loop b start value i value_cnt (Suc n) = do {
     t \<leftarrow> bitmap_test b (wrap32 (start + i));
     count_loop b start value (i + 1) (if t = value then value_cnt + 1 else value_cnt) n
   }"

definition bitmap_count :: "bitmap \<Rightarrow> nat \<Rightarrow> nat \<Rightarrow> bool \<Rightarrow> nat option" where
  "bitmap_count b start cnt value = do {
     ASSERT (start \<le> bit_cnt b);
     ASSERT (wrap32 (start + cnt) \<le> bit_cnt b);
     count_loop b start value 0 0 cnt
   }"

fun contains_loop :: "bitmap \<Rightarrow> nat \<Rightarrow> bool \<Rightarrow> nat \<Rightarrow> nat \<Rightarrow> bool option" where
  "contains_loop b start value i 0 = Some False"
| "contains_loop b start value i (Suc n) = do {
     t \<leftarrow> bitmap_test b (wrap32 (start + i));
     if t = value then Some True else contains_loop b start value (i + 1) n
   }"

definition bitmap_contains :: "bitmap \<Rightarrow> nat \<Rightarrow> nat \<Rightarrow> bool \<Rightarrow> bool option" where
  "bitmap_contains b start cnt value = do {
     ASSERT (start \<le> bit_cnt b);
     ASSERT (wrap32 (start + cnt) \<le> bit_cnt b);
     contains_loop b start value 0 cnt
   }"

definition bitmap_any :: "bitmap \<Rightarrow> nat \<Rightarrow> nat \<Rightarrow> bool option" where
  "bitmap_any b start cnt = bitmap_contains b start cnt True"

definition bitmap_none :: "bitmap \<Rightarrow> nat \<Rightarrow> nat \<Rightarrow> bool option" where
  "bitmap_none b start cnt = do { c \<leftarrow> bitmap_contains b start cnt True; Some (\<not> c) }"

definition bitmap_all :: "bitmap \<Rightarrow> nat \<Rightarrow> nat \<Rightarrow> bool option" where
  "bitmap_all b start cnt = do { c \<leftarrow> bitmap_contains b start cnt False; Some (\<not> c) }"

text \<open>\<open>i\<close> up to \<open>last\<close> included: \<open>n\<close> rounds are left.\<close>

fun scan_loop :: "bitmap \<Rightarrow> nat \<Rightarrow> bool \<Rightarrow> nat \<Rightarrow> nat \<Rightarrow> nat option" where
  "scan_loop b cnt value i 0 = Some BITMAP_ERROR"
| "scan_loop b cnt value i (Suc n) = do {
     c \<leftarrow> bitmap_contains b i cnt (\<not> value);
     if \<not> c then Some i else scan_loop b cnt value (i + 1) n
   }"

definition bitmap_scan :: "bitmap \<Rightarrow> nat \<Rightarrow> nat \<Rightarrow> bool \<Rightarrow> nat option" where
  "bitmap_scan b start cnt value = do {
     ASSERT (start \<le> bit_cnt b);
     if cnt \<le> bit_cnt b then
       let last = bit_cnt b - cnt in scan_loop b cnt value start (last + 1 - start)
     else Some BITMAP_ERROR
   }"

definition bitmap_scan_and_flip :: "bitmap \<Rightarrow> nat \<Rightarrow> nat \<Rightarrow> bool \<Rightarrow> (nat \<times> bitmap) option" where
  "bitmap_scan_and_flip b start cnt value = do {
     idx \<leftarrow> bitmap_scan b start cnt value;
     b \<leftarrow> (if idx \<noteq> BITMAP_ERROR then bitmap_set_multiple b idx cnt (\<not> value) else Some b);
     Some (idx, b)
   }"

definition bitmap_file_size :: "bitmap \<Rightarrow> nat" where
  "bitmap_file_size b = byte_cnt (bit_cnt b)"

section \<open>The bits of a bitmap\<close>

definition bit_at :: "bitmap \<Rightarrow> nat \<Rightarrow> bool" where
  "bit_at b i = bit (bits b ! (i div ELEM_BITS)) (i mod ELEM_BITS)"

definition bit_list :: "bitmap \<Rightarrow> bool list" where
  "bit_list b = map (bit_at b) [0..<bit_cnt b]"

definition bitmap_ok :: "bitmap \<Rightarrow> bool" where
  "bitmap_ok b \<longleftrightarrow> bit_cnt b + ELEM_BITS \<le> 2 ^ 32 \<and> length (bits b) = elem_cnt (bit_cnt b)"

lemma wrap32_id [simp]: "n < 2 ^ 32 \<Longrightarrow> wrap32 n = n"
  by (simp add: wrap32_def)

lemma length_bit_list [simp]: "length (bit_list b) = bit_cnt b"
  by (simp add: bit_list_def)

lemma nth_bit_list [simp]: "i < bit_cnt b \<Longrightarrow> bit_list b ! i = bit_at b i"
  by (simp add: bit_list_def)

lemma bit_cnt_bound: "bitmap_ok b \<Longrightarrow> bit_cnt b < 2 ^ 32"
  by (simp add: bitmap_ok_def)

lemma elem_cnt_eq: "n + ELEM_BITS \<le> 2 ^ 32 \<Longrightarrow> elem_cnt n = DIV_ROUND_UP n ELEM_BITS"
  by (simp add: elem_cnt_def DIV_ROUND_UP_def)

lemma elem_in_range: "bitmap_ok b \<Longrightarrow> i < bit_cnt b \<Longrightarrow> elem_idx i < length (bits b)"
  by (auto simp: bitmap_ok_def elem_cnt_eq elem_idx_def DIV_ROUND_UP_def)

lemma bit_bit_mask: "bit (bit_mask i) k \<longleftrightarrow> k = i mod ELEM_BITS"
  by (auto simp: bit_mask_def bit_simps)

lemma and_bit_mask: "(w AND bit_mask i \<noteq> 0) = bit w (i mod ELEM_BITS)"
proof -
  have "w AND bit_mask i = 0 \<longleftrightarrow> (\<forall>n < ELEM_BITS. bit w n \<longrightarrow> n \<noteq> i mod ELEM_BITS)"
    unfolding bit_eq_iff [of "w AND bit_mask i" 0] by (simp add: bit_and_iff bit_bit_mask)
  moreover have "i mod ELEM_BITS < ELEM_BITS" by simp
  ultimately have "w AND bit_mask i = 0 \<longleftrightarrow> \<not> bit w (i mod ELEM_BITS)" by blast
  then show ?thesis by simp
qed

lemma bitmap_test_eq [kernel_simps]:
  "bitmap_ok b \<Longrightarrow> bitmap_test b i = (if i < bit_cnt b then Some (bit_list b ! i) else None)"
  using elem_in_range [of b i]
  by (auto simp: bitmap_test_def and_bit_mask bit_at_def simp flip: elem_idx_def)

text \<open>What the three atomic updates do to the bits.\<close>

lemma update_elem_rep:
  assumes ok: "bitmap_ok b" and i: "i < bit_cnt b"
    and f: "\<And>w k. k < ELEM_BITS \<Longrightarrow> bit (f w) k = (if k = i mod ELEM_BITS then g (bit w k) else bit w k)"
  shows "\<exists>b'. update_elem b (elem_idx i) f = Some b' \<and> bitmap_ok b' \<and> bit_cnt b' = bit_cnt b
    \<and> bit_list b' = (bit_list b)[i := g (bit_list b ! i)]"
proof -
  let ?b = "b\<lparr>bits := (bits b)[elem_idx i := f (bits b ! elem_idx i)]\<rparr>"
  have r: "elem_idx i < length (bits b)" by (rule elem_in_range [OF ok i])
  have "bit_at ?b j = (if j = i then g (bit_at b i) else bit_at b j)" if "j < bit_cnt b" for j
  proof (cases "j div ELEM_BITS = i div ELEM_BITS")
    case True
    have "j = i \<longleftrightarrow> j mod ELEM_BITS = i mod ELEM_BITS"
      using True by (metis div_mult_mod_eq)
    then show ?thesis using True r by (auto simp: bit_at_def elem_idx_def f)
  next
    case False
    then show ?thesis by (auto simp: bit_at_def elem_idx_def nth_list_update)
  qed
  then have "bit_list ?b = (bit_list b)[i := g (bit_list b ! i)]"
    using i by (auto intro!: nth_equalityI simp: nth_list_update)
  moreover have "bitmap_ok ?b" using ok by (simp add: bitmap_ok_def)
  ultimately show ?thesis using r by (auto simp: update_elem_def)
qed

lemma bitmap_mark_rep:
  assumes "bitmap_ok b" "i < bit_cnt b"
  shows "\<exists>b'. bitmap_mark b i = Some b' \<and> bitmap_ok b' \<and> bit_cnt b' = bit_cnt b
    \<and> bit_list b' = (bit_list b)[i := True]"
  unfolding bitmap_mark_def
  by (rule update_elem_rep [OF assms, where g = "\<lambda>_. True"]) (simp add: bit_or_iff bit_bit_mask)

lemma bitmap_reset_rep:
  assumes "bitmap_ok b" "i < bit_cnt b"
  shows "\<exists>b'. bitmap_reset b i = Some b' \<and> bitmap_ok b' \<and> bit_cnt b' = bit_cnt b
    \<and> bit_list b' = (bit_list b)[i := False]"
  unfolding bitmap_reset_def
  by (rule update_elem_rep [OF assms, where g = "\<lambda>_. False"])
    (auto simp: bit_and_iff bit_not_iff bit_bit_mask)

lemma bitmap_flip_rep:
  assumes "bitmap_ok b" "i < bit_cnt b"
  shows "\<exists>b'. bitmap_flip b i = Some b' \<and> bitmap_ok b' \<and> bit_cnt b' = bit_cnt b
    \<and> bit_list b' = (bit_list b)[i := \<not> bit_list b ! i]"
  unfolding bitmap_flip_def
  by (rule update_elem_rep [OF assms, where g = Not]) (auto simp: bit_xor_iff bit_bit_mask)

lemma bitmap_set_rep:
  assumes "bitmap_ok b" "i < bit_cnt b"
  shows "\<exists>b'. bitmap_set b i v = Some b' \<and> bitmap_ok b' \<and> bit_cnt b' = bit_cnt b
    \<and> bit_list b' = (bit_list b)[i := v]"
  using bitmap_mark_rep [OF assms] bitmap_reset_rep [OF assms] assms
  by (cases v) (simp_all add: bitmap_set_def)

section \<open>Ranges of bits\<close>

text \<open>The assertions on a range pass exactly when it lies inside the bitmap.\<close>

lemma set_multiple_loop_rep:
  "bitmap_ok b \<Longrightarrow> start + i + n \<le> bit_cnt b \<Longrightarrow>
     \<exists>b'. set_multiple_loop b start v i n = Some b' \<and> bitmap_ok b' \<and> bit_cnt b' = bit_cnt b
       \<and> bit_list b' = overwrite (bit_list b) (start + i) (replicate n v)"
proof (induction n arbitrary: b i)
  case 0
  then show ?case by (simp add: overwrite_def)
next
  case (Suc n)
  have w: "wrap32 (start + i) = start + i" using bit_cnt_bound [OF Suc.prems(1)] Suc.prems(2) by simp
  obtain b1 where b1: "bitmap_set b (start + i) v = Some b1" "bitmap_ok b1" "bit_cnt b1 = bit_cnt b"
    "bit_list b1 = (bit_list b)[start + i := v]"
    using bitmap_set_rep [OF Suc.prems(1), of "start + i" v] Suc.prems(2) by auto
  obtain b2 where b2: "set_multiple_loop b1 start v (i + 1) n = Some b2" "bitmap_ok b2"
    "bit_cnt b2 = bit_cnt b1" "bit_list b2 = overwrite (bit_list b1) (start + (i + 1)) (replicate n v)"
    using Suc.IH [OF b1(2), of "i + 1"] Suc.prems(2) b1(3) by auto
  have "bit_list b2 = overwrite (bit_list b) (start + i) (replicate (Suc n) v)"
    unfolding b2(4) b1(4) using Suc.prems(2)
    by (intro nth_equalityI) (auto simp: nth_overwrite nth_list_update nth_Cons split: nat.splits)
  then show ?case using w b1 b2 by simp
qed

lemma bitmap_set_multiple_rep:
  assumes "bitmap_ok b" "start + cnt \<le> bit_cnt b"
  shows "\<exists>b'. bitmap_set_multiple b start cnt v = Some b' \<and> bitmap_ok b' \<and> bit_cnt b' = bit_cnt b
    \<and> bit_list b' = overwrite (bit_list b) start (replicate cnt v)"
  using set_multiple_loop_rep [OF assms(1), of start 0 cnt v] assms bit_cnt_bound [OF assms(1)]
  by (simp add: bitmap_set_multiple_def)

lemma set_multiple_loop_out:
  "bitmap_ok b \<Longrightarrow> start + i \<le> bit_cnt b \<Longrightarrow> bit_cnt b < start + i + n \<Longrightarrow>
     set_multiple_loop b start v i n = None"
proof (induction n arbitrary: b i)
  case (Suc n)
  have w: "wrap32 (start + i) = start + i" using bit_cnt_bound [OF Suc.prems(1)] Suc.prems(2) by simp
  show ?case
  proof (cases "start + i < bit_cnt b")
    case True
    then obtain b1 where "bitmap_set b (start + i) v = Some b1" "bitmap_ok b1" "bit_cnt b1 = bit_cnt b"
      using bitmap_set_rep [OF Suc.prems(1), of "start + i" v] by auto
    then show ?thesis using Suc.IH [of b1 "i + 1"] Suc.prems True w by simp
  next
    case False
    then show ?thesis using w by (simp add: bitmap_set_def)
  qed
qed simp

lemma bitmap_set_multiple_out:
  assumes "bitmap_ok b" "bit_cnt b < start + cnt"
  shows "bitmap_set_multiple b start cnt v = None"
  using set_multiple_loop_out [OF assms(1), of start 0 cnt v] assms
  by (auto simp: bitmap_set_multiple_def ASSERT_def)

lemma subbuf_Suc:
  "i < length xs \<Longrightarrow> subbuf xs i (Suc n) = xs ! i # subbuf xs (Suc i) n"
  by (simp add: subbuf_def Cons_nth_drop_Suc [symmetric])

lemma count_loop_rep:
  "bitmap_ok b \<Longrightarrow> start + i + n \<le> bit_cnt b \<Longrightarrow>
     count_loop b start v i c n =
     Some (c + length (filter (\<lambda>x. x = v) (subbuf (bit_list b) (start + i) n)))"
proof (induction n arbitrary: i c)
  case (Suc n)
  have w: "wrap32 (start + i) = start + i" using bit_cnt_bound [OF Suc.prems(1)] Suc.prems(2) by simp
  show ?case using Suc w by (simp add: bitmap_test_eq subbuf_Suc)
qed (simp add: subbuf_def)

lemma bitmap_count_rep:
  assumes "bitmap_ok b" "start + cnt \<le> bit_cnt b"
  shows "bitmap_count b start cnt v = Some (length (filter (\<lambda>x. x = v) (subbuf (bit_list b) start cnt)))"
  using count_loop_rep [OF assms(1), of start 0 cnt v 0] assms bit_cnt_bound [OF assms(1)]
  by (simp add: bitmap_count_def)

lemma contains_loop_rep:
  "bitmap_ok b \<Longrightarrow> start + i + n \<le> bit_cnt b \<Longrightarrow>
     contains_loop b start v i n = Some (v \<in> set (subbuf (bit_list b) (start + i) n))"
proof (induction n arbitrary: i)
  case (Suc n)
  have w: "wrap32 (start + i) = start + i" using bit_cnt_bound [OF Suc.prems(1)] Suc.prems(2) by simp
  show ?case using Suc w by (simp add: bitmap_test_eq subbuf_Suc)
qed (simp add: subbuf_def)

lemma bitmap_contains_rep [kernel_simps]:
  assumes "bitmap_ok b" "start + cnt \<le> bit_cnt b"
  shows "bitmap_contains b start cnt v = Some (v \<in> set (subbuf (bit_list b) start cnt))"
  using contains_loop_rep [OF assms(1), of start 0 cnt v] assms bit_cnt_bound [OF assms(1)]
  by (simp add: bitmap_contains_def)

lemma in_set_subbuf:
  "i + n \<le> length xs \<Longrightarrow> v \<in> set (subbuf xs i n) \<longleftrightarrow> (\<exists>k. i \<le> k \<and> k < i + n \<and> xs ! k = v)"
proof -
  assume "i + n \<le> length xs"
  then have "subbuf xs i n = map ((!) xs) [i..<i + n]" by (intro nth_equalityI) simp_all
  then show ?thesis by auto
qed

text \<open>A group of \<open>cnt\<close> bits at \<open>i\<close> that all have the value \<open>v\<close>.\<close>

definition group_at :: "bool list \<Rightarrow> nat \<Rightarrow> nat \<Rightarrow> bool \<Rightarrow> bool" where
  "group_at xs i cnt v \<longleftrightarrow> i + cnt \<le> length xs \<and> (\<forall>k. i \<le> k \<and> k < i + cnt \<longrightarrow> xs ! k = v)"

lemma bitmap_all_rep [kernel_simps]:
  assumes "bitmap_ok b" "start + cnt \<le> bit_cnt b"
  shows "bitmap_all b start cnt = Some (group_at (bit_list b) start cnt True)"
  using assms by (auto simp: bitmap_all_def bitmap_contains_rep in_set_subbuf group_at_def)

lemma bitmap_none_rep [kernel_simps]:
  assumes "bitmap_ok b" "start + cnt \<le> bit_cnt b"
  shows "bitmap_none b start cnt = Some (group_at (bit_list b) start cnt False)"
  using assms by (auto simp: bitmap_none_def bitmap_contains_rep in_set_subbuf group_at_def)

lemma bitmap_any_rep [kernel_simps]:
  assumes "bitmap_ok b" "start + cnt \<le> bit_cnt b"
  shows "bitmap_any b start cnt = Some (True \<in> set (subbuf (bit_list b) start cnt))"
  using assms by (simp add: bitmap_any_def bitmap_contains_rep)

definition first_group :: "bool list \<Rightarrow> nat \<Rightarrow> nat \<Rightarrow> bool \<Rightarrow> nat \<Rightarrow> bool" where
  "first_group xs start cnt v i \<longleftrightarrow>
     start \<le> i \<and> group_at xs i cnt v \<and> (\<forall>j. start \<le> j \<and> j < i \<longrightarrow> \<not> group_at xs j cnt v)"

lemma scan_loop_rep:
  "bitmap_ok b \<Longrightarrow> i + n + cnt \<le> bit_cnt b + 1 \<Longrightarrow>
     \<exists>r. scan_loop b cnt v i n = Some r \<and>
       (if r = BITMAP_ERROR then \<forall>j. i \<le> j \<and> j < i + n \<longrightarrow> \<not> group_at (bit_list b) j cnt v
        else r < i + n \<and> first_group (bit_list b) i cnt v r)"
proof (induction n arbitrary: i)
  case (Suc n)
  have c: "bitmap_contains b i cnt (\<not> v) = Some (\<not> group_at (bit_list b) i cnt v)"
    using Suc.prems by (auto simp: bitmap_contains_rep in_set_subbuf group_at_def)
  show ?case
  proof (cases "group_at (bit_list b) i cnt v")
    case True
    have "i \<noteq> BITMAP_ERROR"
      using Suc.prems by (auto simp: BITMAP_ERROR_def bitmap_ok_def)
    then show ?thesis using c True by (auto simp: first_group_def)
  next
    case False
    obtain r where r: "scan_loop b cnt v (i + 1) n = Some r"
      "if r = BITMAP_ERROR then \<forall>j. i + 1 \<le> j \<and> j < i + 1 + n \<longrightarrow> \<not> group_at (bit_list b) j cnt v
        else r < i + 1 + n \<and> first_group (bit_list b) (i + 1) cnt v r"
      using Suc.IH [of "i + 1"] Suc.prems by auto
    have step: "i \<le> j \<longleftrightarrow> j = i \<or> i + 1 \<le> j" for j by auto
    have "if r = BITMAP_ERROR then \<forall>j. i \<le> j \<and> j < i + Suc n \<longrightarrow> \<not> group_at (bit_list b) j cnt v
        else r < i + Suc n \<and> first_group (bit_list b) i cnt v r"
    proof (cases "r = BITMAP_ERROR")
      case True
      then show ?thesis using r(2) False unfolding step by auto
    next
      case r': False
      then have "r < i + Suc n" "first_group (bit_list b) (i + 1) cnt v r" using r(2) by simp_all
      then have "first_group (bit_list b) i cnt v r"
        using False unfolding first_group_def step [of r] by (metis step le_add1 le_trans)
      then show ?thesis using r' \<open>r < i + Suc n\<close> by simp
    qed
    moreover have "scan_loop b cnt v i (Suc n) = Some r" using c False r(1) by simp
    ultimately show ?thesis by blast
  qed
qed auto

lemma group_at_bound: "group_at xs i cnt v \<Longrightarrow> i + cnt \<le> length xs"
  by (simp add: group_at_def)

lemma bitmap_scan_rep:
  assumes "bitmap_ok b" "start \<le> bit_cnt b"
  shows "\<exists>r. bitmap_scan b start cnt v = Some r \<and>
    (if r = BITMAP_ERROR then \<forall>j \<ge> start. \<not> group_at (bit_list b) j cnt v
     else first_group (bit_list b) start cnt v r)"
proof (cases "start + cnt \<le> bit_cnt b")
  case True
  let ?n = "bit_cnt b - cnt + 1 - start"
  have n: "start + ?n = bit_cnt b - cnt + 1" "start + ?n + cnt \<le> bit_cnt b + 1" using True by auto
  have in_range: "group_at (bit_list b) j cnt v \<Longrightarrow> j < start + ?n" for j
    unfolding n(1) by (drule group_at_bound) simp
  obtain r where r: "scan_loop b cnt v start ?n = Some r"
    "if r = BITMAP_ERROR then \<forall>j. start \<le> j \<and> j < start + ?n \<longrightarrow> \<not> group_at (bit_list b) j cnt v
     else r < start + ?n \<and> first_group (bit_list b) start cnt v r"
    using scan_loop_rep [OF assms(1) n(2)] by blast
  have "bitmap_scan b start cnt v = Some r"
    using r(1) True assms(2) by (simp add: bitmap_scan_def Let_def)
  moreover have "if r = BITMAP_ERROR then \<forall>j \<ge> start. \<not> group_at (bit_list b) j cnt v
     else first_group (bit_list b) start cnt v r"
  proof (cases "r = BITMAP_ERROR")
    case True
    then have none: "\<not> group_at (bit_list b) j cnt v" if "start \<le> j" for j
      using r(2) in_range [of j] that by (metis (full_types))
    then show ?thesis using True by simp
  next
    case False
    then show ?thesis using r(2) by simp
  qed
  ultimately show ?thesis by blast
next
  case False
  then have "\<forall>j \<ge> start. \<not> group_at (bit_list b) j cnt v" by (auto dest!: group_at_bound)
  moreover have "bitmap_scan b start cnt v = Some BITMAP_ERROR"
    using False assms(2) by (auto simp: bitmap_scan_def Let_def)
  ultimately show ?thesis by auto
qed

lemma bitmap_scan_and_flip_rep:
  assumes "bitmap_ok b" "start \<le> bit_cnt b"
  shows "\<exists>r b'. bitmap_scan_and_flip b start cnt v = Some (r, b') \<and> bitmap_ok b' \<and> bit_cnt b' = bit_cnt b
    \<and> (if r = BITMAP_ERROR then b' = b \<and> (\<forall>j \<ge> start. \<not> group_at (bit_list b) j cnt v)
       else first_group (bit_list b) start cnt v r
         \<and> bit_list b' = overwrite (bit_list b) r (replicate cnt (\<not> v)))"
proof -
  obtain r where r: "bitmap_scan b start cnt v = Some r"
    "if r = BITMAP_ERROR then \<forall>j \<ge> start. \<not> group_at (bit_list b) j cnt v
     else first_group (bit_list b) start cnt v r"
    using bitmap_scan_rep [OF assms] by blast
  show ?thesis
  proof (cases "r = BITMAP_ERROR")
    case True
    then show ?thesis using r assms(1) by (simp add: bitmap_scan_and_flip_def)
  next
    case False
    then have "r + cnt \<le> bit_cnt b" using r(2) by (auto simp: first_group_def dest: group_at_bound)
    then obtain b' where b': "bitmap_set_multiple b r cnt (\<not> v) = Some b'" "bitmap_ok b'"
      "bit_cnt b' = bit_cnt b" "bit_list b' = overwrite (bit_list b) r (replicate cnt (\<not> v))"
      using bitmap_set_multiple_rep [OF assms(1), of r cnt "\<not> v"] by blast
    have "bitmap_scan_and_flip b start cnt v = Some (r, b')"
      using r(1) False b'(1) by (simp add: bitmap_scan_and_flip_def)
    then show ?thesis using b'(2-4) r(2) False by (intro exI [of _ r] exI [of _ b']) simp
  qed
qed

lemma bitmap_create_rep:
  assumes "n + ELEM_BITS \<le> 2 ^ 32" "length ws = elem_cnt n"
  shows "\<exists>b. bitmap_create True (Some ws) n = Some (Some b) \<and> bitmap_ok b \<and> bit_list b = replicate n False"
proof -
  let ?b = "\<lparr>bit_cnt = n, bits = ws\<rparr>"
  have "bitmap_ok ?b" using assms by (simp add: bitmap_ok_def)
  then show ?thesis
    using bitmap_set_multiple_rep [of ?b 0 n False]
    by (auto simp: bitmap_create_def bitmap_set_all_def bitmap_size_def overwrite_def)
qed

lemma bitmap_create_in_buf_rep:
  assumes "n + ELEM_BITS \<le> 2 ^ 32" "2 + elem_cnt n \<le> length block" "bitmap_buf_size n \<le> block_size"
  shows "\<exists>b. bitmap_create_in_buf n block block_size = Some b \<and> bitmap_ok b \<and> bit_cnt b = n
    \<and> bit_list b = replicate n False"
proof -
  let ?b = "\<lparr>bit_cnt = n, bits = take (elem_cnt n) (drop 2 block)\<rparr>"
  have "bitmap_ok ?b" using assms by (simp add: bitmap_ok_def)
  then show ?thesis
    using bitmap_set_multiple_rep [of ?b 0 n False] assms(3)
    by (auto simp: bitmap_create_in_buf_def bitmap_set_all_def bitmap_size_def overwrite_def)
qed

text \<open>\<open>last_mask\<close> keeps exactly the bits of the last element that belong to the bitmap.\<close>

lemma bit_last_mask:
  assumes "k < ELEM_BITS"
  shows "bit (last_mask b) k \<longleftrightarrow> bit_cnt b mod ELEM_BITS = 0 \<or> k < bit_cnt b mod ELEM_BITS"
proof (cases "bit_cnt b mod ELEM_BITS = 0")
  case False
  have "push_bit n (1 :: u32) - 1 = mask n" for n
    by (simp add: push_bit_eq_mult mask_eq_exp_minus_1)
  then have "last_mask b = mask (bit_cnt b mod ELEM_BITS)" using False by (simp add: last_mask_def)
  then show ?thesis using False assms by (simp add: bit_mask_iff)
qed (use assms in \<open>simp add: last_mask_def\<close>)

section \<open>Allocation of runs\<close>

text \<open>
  The page allocator and the free map both use a bitmap to hand out runs of consecutive units.  The
  contract: \<open>used s\<close> are the units handed out; an allocation of \<open>n\<close> units either fails and changes
  nothing, or hands out \<open>n\<close> consecutive units that were free; a release makes a run free again.
  The tag \<open>k\<close> of an allocation is what else the client may choose (pages: the pool).
\<close>

locale run_allocator =
  fixes inv :: "'s \<Rightarrow> bool"
    and used :: "'s \<Rightarrow> nat set"
    and alloc :: "'k \<Rightarrow> 's \<Rightarrow> nat \<Rightarrow> (nat option \<times> 's) option"
    and release :: "'s \<Rightarrow> nat \<Rightarrow> nat \<Rightarrow> 's option"
  assumes alloc_law: "inv s \<Longrightarrow> 0 < n \<Longrightarrow> \<exists>r s'. alloc k s n = Some (r, s') \<and> inv s' \<and>
      (case r of None \<Rightarrow> used s' = used s
       | Some i \<Rightarrow> {i..<i + n} \<inter> used s = {} \<and> used s' = used s \<union> {i..<i + n})"
    and release_law: "inv s \<Longrightarrow> 0 < n \<Longrightarrow> {i..<i + n} \<subseteq> used s \<Longrightarrow>
      \<exists>s'. release s i n = Some s' \<and> inv s' \<and> used s' = used s - {i..<i + n}"
begin

definition run_units :: "nat \<times> nat \<Rightarrow> nat set" where
  "run_units r = {fst r..<fst r + snd r}"

definition owned :: "nat set \<Rightarrow> 's \<Rightarrow> (nat \<times> nat) list \<Rightarrow> bool" where
  "owned base s live \<longleftrightarrow> inv s \<and> (\<forall>r \<in> set live. 0 < snd r \<and> run_units r \<inter> base = {})
     \<and> sorted_wrt (\<lambda>r q. run_units r \<inter> run_units q = {}) live
     \<and> used s = base \<union> (\<Union>r \<in> set live. run_units r)"

end

text \<open>
  A client's history: \<open>Get k n\<close> asks for \<open>n\<close> units, \<open>Put k\<close> gives back the \<open>k\<close>-th of the runs it
  still holds.
\<close>

datatype 'k request = Get 'k nat | Put nat

fun serve :: "('k \<Rightarrow> 's \<Rightarrow> nat \<Rightarrow> (nat option \<times> 's) option) \<Rightarrow> ('s \<Rightarrow> nat \<Rightarrow> nat \<Rightarrow> 's option) \<Rightarrow>
    's \<times> (nat \<times> nat) list \<Rightarrow> 'k request \<Rightarrow> ('s \<times> (nat \<times> nat) list) option" where
  "serve alloc release (s, live) (Get k n) = do {
     (r, s) \<leftarrow> alloc k s n;
     Some (s, case r of None \<Rightarrow> live | Some i \<Rightarrow> live @ [(i, n)])
   }"
| "serve alloc release (s, live) (Put k) =
     (if k < length live then do {
        s \<leftarrow> release s (fst (live ! k)) (snd (live ! k));
        Some (s, take k live @ drop (Suc k) live)
      } else Some (s, live))"

fun serve_all :: "('k \<Rightarrow> 's \<Rightarrow> nat \<Rightarrow> (nat option \<times> 's) option) \<Rightarrow> ('s \<Rightarrow> nat \<Rightarrow> nat \<Rightarrow> 's option) \<Rightarrow>
    's \<times> (nat \<times> nat) list \<Rightarrow> 'k request list \<Rightarrow> ('s \<times> (nat \<times> nat) list) option" where
  "serve_all alloc release c [] = Some c"
| "serve_all alloc release c (q # qs) = do { c \<leftarrow> serve alloc release c q; serve_all alloc release c qs }"

lemma remove_part:
  "A = B \<union> (U \<union> R) \<Longrightarrow> R \<inter> B = {} \<Longrightarrow> U \<inter> R = {} \<Longrightarrow> A - R = B \<union> (U :: 'a set)"
  by blast

context run_allocator
begin

lemma serve_owned:
  assumes "owned base s live" "\<forall>k. q \<noteq> Get k 0"
  shows "\<exists>s' live'. serve alloc release (s, live) q = Some (s', live') \<and> owned base s' live'"
proof (cases q)
  case (Get k n)
  then have n: "0 < n" "inv s" using assms by (auto simp: owned_def)
  obtain r s' where a: "alloc k s n = Some (r, s')" "inv s'"
    "case r of None \<Rightarrow> used s' = used s
     | Some i \<Rightarrow> {i..<i + n} \<inter> used s = {} \<and> used s' = used s \<union> {i..<i + n}"
    using alloc_law [OF n(2,1), of k] by blast
  show ?thesis
  proof (cases r)
    case None
    then show ?thesis using a assms(1) Get by (simp add: owned_def)
  next
    case (Some i)
    have f: "run_units (i, n) \<inter> used s = {}" "used s' = used s \<union> run_units (i, n)"
      using a(3) Some by (simp_all add: run_units_def)
    have u: "used s = base \<union> (\<Union>r \<in> set live. run_units r)" using assms(1) by (simp add: owned_def)
    have "\<forall>r \<in> set live. run_units r \<inter> run_units (i, n) = {}" "run_units (i, n) \<inter> base = {}"
      using f(1) unfolding u by blast+
    then have "owned base s' (live @ [(i, n)])"
      using assms(1) a(2) n(1) f(2) by (auto simp: owned_def sorted_wrt_append)
    then show ?thesis using a(1) Some Get by simp
  qed
next
  case (Put k)
  show ?thesis
  proof (cases "k < length live")
    case True
    define us vs where "us = take k live" and "vs = drop (Suc k) live"
    have live: "live = us @ live ! k # vs" unfolding us_def vs_def by (rule id_take_nth_drop [OF True])
    let ?r = "live ! k"
    have o: "inv s" "0 < snd ?r" "run_units ?r \<inter> base = {}" "used s = base \<union> (\<Union>r \<in> set live. run_units r)"
      using assms(1) True by (auto simp: owned_def)
    have sw: "sorted_wrt (\<lambda>r q. run_units r \<inter> run_units q = {}) (us @ ?r # vs)"
      using assms(1) live by (simp add: owned_def)
    have sub: "{fst ?r..<fst ?r + snd ?r} \<subseteq> used s"
      using o(4) True nth_mem [OF True] by (auto simp: run_units_def)
    obtain s' where s': "release s (fst ?r) (snd ?r) = Some s'" "inv s'" "used s' = used s - run_units ?r"
      using release_law [OF o(1,2) sub] by (auto simp: run_units_def)
    have "\<forall>q \<in> set (us @ vs). run_units q \<inter> run_units ?r = {}"
      using sw by (auto simp: sorted_wrt_append)
    then have apart: "(\<Union>r \<in> set (us @ vs). run_units r) \<inter> run_units ?r = {}" by blast
    have whole: "(\<Union>r \<in> set live. run_units r) = (\<Union>r \<in> set (us @ vs). run_units r) \<union> run_units ?r"
      by (subst live) auto
    have "used s' = base \<union> (\<Union>r \<in> set (us @ vs). run_units r)"
      unfolding s'(3) by (rule remove_part [OF _ o(3) apart]) (simp only: o(4) whole)
    moreover have "sorted_wrt (\<lambda>r q. run_units r \<inter> run_units q = {}) (us @ vs)"
      using sw by (simp add: sorted_wrt_append)
    moreover have "\<forall>r \<in> set (us @ vs). 0 < snd r \<and> run_units r \<inter> base = {}"
    proof -
      have "set (us @ vs) \<subseteq> set live" by (subst live) auto
      then show ?thesis using assms(1) unfolding owned_def by blast
    qed
    ultimately have "owned base s' (us @ vs)" using s'(2) by (simp add: owned_def)
    then show ?thesis using True s'(1) Put by (simp add: us_def vs_def)
  next
    case False
    then show ?thesis using assms(1) Put by simp
  qed
qed

lemma serve_all_owned:
  "owned base s live \<Longrightarrow> \<forall>k. Get k 0 \<notin> set qs \<Longrightarrow>
     \<exists>s' live'. serve_all alloc release (s, live) qs = Some (s', live') \<and> owned base s' live'"
proof (induction qs arbitrary: s live)
  case (Cons q qs)
  then obtain s1 live1 where "serve alloc release (s, live) q = Some (s1, live1)" "owned base s1 live1"
    using serve_owned [of base s live q] by auto
  then show ?case using Cons.IH [of s1 live1] Cons.prems by auto
qed simp

text \<open>Whatever the history, no two runs that are held overlap, and the allocator knows them all.\<close>

lemma runs_disjoint:
  assumes "inv s" "\<forall>k. Get k 0 \<notin> set qs"
  shows "\<exists>s' live. serve_all alloc release (s, []) qs = Some (s', live)
    \<and> sorted_wrt (\<lambda>(i, n) (j, m). {i..<i + n} \<inter> {j..<j + m} = {}) live
    \<and> (\<forall>(i, n) \<in> set live. {i..<i + n} \<inter> used s = {})
    \<and> used s' = used s \<union> (\<Union>(i, n) \<in> set live. {i..<i + n})"
proof -
  have "owned (used s) s []" using assms(1) by (simp add: owned_def)
  from serve_all_owned [OF this assms(2)] obtain s' live where
    r: "serve_all alloc release (s, []) qs = Some (s', live)" "owned (used s) s' live" by blast
  then show ?thesis
    by (intro exI [of _ s'] exI [of _ live]) (simp add: owned_def run_units_def split_beta')
qed

end

section \<open>Properties\<close>

text \<open>
  C17: \<open>bitmap_scan_and_flip\<close> never fails on a well-formed bitmap.  It returns \<open>BITMAP_ERROR\<close> exactly
  when no group of \<open>cnt\<close> bits with the value starts at or after \<open>start\<close>, and then changes nothing;
  otherwise it returns the first such group and inverts exactly its bits.
\<close>

theorem bitmap_scan_and_flip_correct:
  assumes "bitmap_ok b" "start \<le> bit_cnt b"
  shows "\<exists>r b'. bitmap_scan_and_flip b start cnt v = Some (r, b') \<and> bitmap_ok b' \<and> bit_cnt b' = bit_cnt b
    \<and> (if r = BITMAP_ERROR then b' = b \<and> (\<forall>j \<ge> start. \<not> group_at (bit_list b) j cnt v)
       else first_group (bit_list b) start cnt v r
         \<and> bit_list b' = overwrite (bit_list b) r (replicate cnt (\<not> v)))"
  by (rule bitmap_scan_and_flip_rep [OF assms])

definition sample_bitmap :: bitmap where
  "sample_bitmap = \<lparr>bit_cnt = 40, bits = [0xFFFFFFF3, 0]\<rparr>"

lemma sample_bitmap_ok [simp]: "bitmap_ok sample_bitmap" "bit_cnt sample_bitmap = 40"
  by (simp_all add: sample_bitmap_def bitmap_ok_def elem_cnt_def wrap32_def)

theorem bitmap_scan_and_flip_correct_witness:
  "\<exists>r b'. bitmap_scan_and_flip sample_bitmap 1 2 False = Some (r, b') \<and> bitmap_ok b' \<and> bit_cnt b' = 40"
  using bitmap_scan_and_flip_correct [of sample_bitmap 1 2 False] by fastforce

text \<open>
  C24: \<open>bitmap_set_multiple\<close> sets exactly the \<open>cnt\<close> bits at \<open>start\<close> when they lie in the bitmap, and
  panics when they do not: the wrap-around of \<open>start + cnt\<close> in its assertion lets no range through.
\<close>

theorem bitmap_set_multiple_correct:
  assumes "bitmap_ok b"
  shows "if start + cnt \<le> bit_cnt b
    then \<exists>b'. bitmap_set_multiple b start cnt v = Some b' \<and> bitmap_ok b' \<and> bit_cnt b' = bit_cnt b
      \<and> bit_list b' = overwrite (bit_list b) start (replicate cnt v)
    else bitmap_set_multiple b start cnt v = None"
  using bitmap_set_multiple_rep [OF assms, of start cnt v] bitmap_set_multiple_out [OF assms, of start cnt v]
  by auto

theorem bitmap_set_multiple_correct_witness:
  "bitmap_set_multiple sample_bitmap 40 4294967280 True = None"
  using bitmap_set_multiple_correct [of sample_bitmap 40 4294967280 True] by simp

text \<open>
  C25: \<open>bitmap_scan_and_flip\<close> for a group of zero bits returns \<open>start\<close> and changes nothing; the
  comment before it says that it returns 0.
\<close>

theorem bitmap_scan_and_flip_zero:
  assumes "bitmap_ok b" "start \<le> bit_cnt b"
  shows "bitmap_scan_and_flip b start 0 v = Some (start, b)"
proof -
  have "bitmap_scan b start 0 v = Some start"
    using assms by (simp add: bitmap_scan_def Let_def Suc_diff_le bitmap_contains_rep subbuf_def)
  then show ?thesis
    using assms bit_cnt_bound [OF assms(1)]
    by (simp add: bitmap_scan_and_flip_def bitmap_set_multiple_def)
qed

theorem bitmap_scan_and_flip_zero_witness:
  "bitmap_scan_and_flip sample_bitmap 7 0 False = Some (7, sample_bitmap)"
  using bitmap_scan_and_flip_zero [of sample_bitmap 7 False] by simp

end
