(* ===== verification/Threads_Palloc.thy ===== *)
theory Threads_Palloc
  imports Kernel_Bitmap "HOL-Library.Signed_Division"
begin

text \<open>
  Virtual addresses (\<open>threads/vaddr.h\<close>) and the page allocator (\<open>threads/palloc.c\<close>).

  Pointers are 32-bit words.  The state holds the two pools and the contents of memory, which
  \<open>memset\<close> changes; a pool's bitmap, which the code places in the first pages of the pool, is kept
  as a value beside it.  The pool locks are not part of the model: an operation is one step.
  \<open>palloc_get_multiple\<close> holds the lock of its pool around its single use of the bitmap;
  \<open>palloc_free_multiple\<close> takes no lock and relies on the atomic bit operations of the bitmap, so
  that a release between two words of a scan is outside the model.  Console output is left out.
\<close>

section \<open>Virtual addresses\<close>

type_synonym ptr = u32

definition BITMASK :: "nat \<Rightarrow> nat \<Rightarrow> u32" where
  "BITMASK shift cnt = push_bit shift (push_bit cnt 1 - 1)"

abbreviation PGBITS :: nat where
  "PGBITS \<equiv> 12"

abbreviation PGSIZE :: nat where
  "PGSIZE \<equiv> 4096"

definition PGMASK :: u32 where
  "PGMASK = BITMASK 0 PGBITS"

definition PHYS_BASE :: ptr where
  "PHYS_BASE = 0xC0000000"

definition pg_ofs :: "ptr \<Rightarrow> u32" where
  "pg_ofs va = va AND PGMASK"

definition pg_no :: "ptr \<Rightarrow> u32" where
  "pg_no va = drop_bit PGBITS va"

definition pg_round_up :: "ptr \<Rightarrow> ptr" where
  "pg_round_up va = (va + of_nat PGSIZE - 1) AND NOT PGMASK"

definition pg_round_down :: "ptr \<Rightarrow> ptr" where
  "pg_round_down va = va AND NOT PGMASK"

definition is_user_vaddr :: "ptr \<Rightarrow> bool" where
  "is_user_vaddr vaddr \<longleftrightarrow> vaddr < PHYS_BASE"

definition is_kernel_vaddr :: "ptr \<Rightarrow> bool" where
  "is_kernel_vaddr vaddr \<longleftrightarrow> vaddr \<ge> PHYS_BASE"

definition ptov :: "u32 \<Rightarrow> ptr option" where
  "ptov paddr = do { ASSERT (paddr < PHYS_BASE); Some (paddr + PHYS_BASE) }"

definition vtop :: "ptr \<Rightarrow> u32 option" where
  "vtop vaddr = do { ASSERT (is_kernel_vaddr vaddr); Some (vaddr - PHYS_BASE) }"

section \<open>The page allocator\<close>

record palloc_flags =
  PAL_ASSERT :: bool
  PAL_ZERO :: bool
  PAL_USER :: bool

record pool =
  used_map :: bitmap
  base :: ptr

record palloc_state =
  kernel_pool :: pool
  user_pool :: pool
  mem :: "ptr \<Rightarrow> u8"

text \<open>\<open>memset (p, v, n)\<close>, and the \<open>n\<close> words in memory at \<open>p\<close>.\<close>

definition memset_mem :: "(ptr \<Rightarrow> u8) \<Rightarrow> ptr \<Rightarrow> u8 \<Rightarrow> nat \<Rightarrow> ptr \<Rightarrow> u8" where
  "memset_mem mm p v n = (\<lambda>a. if unat (a - p) < n then v else mm a)"

definition mem_words :: "(ptr \<Rightarrow> u8) \<Rightarrow> ptr \<Rightarrow> nat \<Rightarrow> u32 list" where
  "mem_words mm p n = map (\<lambda>i. dec32 (map (\<lambda>j. mm (p + of_nat (4 * i + j))) [0..<4])) [0..<n]"

definition page_from_pool :: "pool \<Rightarrow> ptr \<Rightarrow> bool" where
  "page_from_pool p page =
     (let page_no = pg_no page;
          start_page = pg_no (base p);
          end_page = start_page + of_nat (bitmap_size (used_map p))
      in page_no \<ge> start_page \<and> page_no < end_page)"

definition init_pool :: "(ptr \<Rightarrow> u8) \<Rightarrow> ptr \<Rightarrow> nat \<Rightarrow> pool option" where
  "init_pool mm start page_cnt = (
     let bm_pages = wrap32 (bitmap_buf_size page_cnt + PGSIZE - 1) div PGSIZE
     in if bm_pages > page_cnt then None
        else do {
          let page_cnt = page_cnt - bm_pages;
          bm \<leftarrow> bitmap_create_in_buf page_cnt (mem_words mm start (bm_pages * PGSIZE div 4)) (bm_pages * PGSIZE);
          Some \<lparr>used_map = bm, base = start + of_nat (bm_pages * PGSIZE)\<rparr>
        })"

definition palloc_init :: "(ptr \<Rightarrow> u8) \<Rightarrow> u32 \<Rightarrow> nat \<Rightarrow> palloc_state option" where
  "palloc_init mm init_ram_pages user_page_limit = do {
     free_start \<leftarrow> ptov (1024 * 1024);
     free_end \<leftarrow> ptov (init_ram_pages * of_nat PGSIZE);
     let free_pages = unat (word_of_int (sint (free_end - free_start) sdiv int PGSIZE) :: u32);
     let user_pages = free_pages div 2;
     let user_pages = (if user_pages > user_page_limit then user_page_limit else user_pages);
     let kernel_pages = free_pages - user_pages;
     kp \<leftarrow> init_pool mm free_start kernel_pages;
     up \<leftarrow> init_pool mm (free_start + of_nat (kernel_pages * PGSIZE)) user_pages;
     Some \<lparr>kernel_pool = kp, user_pool = up, mem = mm\<rparr>
   }"

text \<open>\<open>flags & PAL_USER ? &user_pool : &kernel_pool\<close>, and a change through that pointer.\<close>

definition pool_of :: "palloc_flags \<Rightarrow> palloc_state \<Rightarrow> pool" where
  "pool_of flags s = (if PAL_USER flags then user_pool s else kernel_pool s)"

definition set_used_map :: "palloc_flags \<Rightarrow> palloc_state \<Rightarrow> bitmap \<Rightarrow> palloc_state" where
  "set_used_map flags s bm =
     (if PAL_USER flags then s\<lparr>user_pool := user_pool s\<lparr>used_map := bm\<rparr>\<rparr>
      else s\<lparr>kernel_pool := kernel_pool s\<lparr>used_map := bm\<rparr>\<rparr>)"

definition palloc_get_multiple ::
  "palloc_state \<Rightarrow> palloc_flags \<Rightarrow> nat \<Rightarrow> (ptr \<times> palloc_state) option" where
  "palloc_get_multiple s flags page_cnt = (
     let pool = pool_of flags s
     in if page_cnt = 0 then Some (0, s)
        else do {
          (page_idx, bm) \<leftarrow> bitmap_scan_and_flip (used_map pool) 0 page_cnt False;
          let s = set_used_map flags s bm;
          let pages = (if page_idx \<noteq> BITMAP_ERROR then base pool + of_nat (PGSIZE * page_idx) else 0);
          if pages \<noteq> 0 then
            Some (pages, if PAL_ZERO flags then s\<lparr>mem := memset_mem (mem s) pages 0 (PGSIZE * page_cnt)\<rparr> else s)
          else if PAL_ASSERT flags then None
          else Some (pages, s)
        })"

definition palloc_get_page :: "palloc_state \<Rightarrow> palloc_flags \<Rightarrow> (ptr \<times> palloc_state) option" where
  "palloc_get_page s flags = palloc_get_multiple s flags 1"

text \<open>Give the pages back to one pool; the kernel is built with assertions on (no \<open>NDEBUG\<close>).\<close>

definition free_in_pool :: "pool \<Rightarrow> ptr \<Rightarrow> nat \<Rightarrow> pool option" where
  "free_in_pool p pages page_cnt = do {
     let page_idx = unat (pg_no pages - pg_no (base p));
     al \<leftarrow> bitmap_all (used_map p) page_idx page_cnt;
     ASSERT al;
     bm \<leftarrow> bitmap_set_multiple (used_map p) page_idx page_cnt False;
     Some (p\<lparr>used_map := bm\<rparr>)
   }"

definition palloc_free_multiple :: "palloc_state \<Rightarrow> ptr \<Rightarrow> nat \<Rightarrow> palloc_state option" where
  "palloc_free_multiple s pages page_cnt = do {
     ASSERT (pg_ofs pages = 0);
     if pages = 0 \<or> page_cnt = 0 then Some s
     else if page_from_pool (kernel_pool s) pages then do {
       p \<leftarrow> free_in_pool (kernel_pool s) pages page_cnt;
       Some (s\<lparr>kernel_pool := p, mem := memset_mem (mem s) pages 0xCC (PGSIZE * page_cnt)\<rparr>)
     }
     else if page_from_pool (user_pool s) pages then do {
       p \<leftarrow> free_in_pool (user_pool s) pages page_cnt;
       Some (s\<lparr>user_pool := p, mem := memset_mem (mem s) pages 0xCC (PGSIZE * page_cnt)\<rparr>)
     }
     else None
   }"

definition palloc_free_page :: "palloc_state \<Rightarrow> ptr \<Rightarrow> palloc_state option" where
  "palloc_free_page s page = palloc_free_multiple s page 1"

section \<open>Page numbers\<close>

lemma PGMASK_eq: "PGMASK = mask PGBITS"
  by (simp add: PGMASK_def BITMASK_def mask_eq_exp_minus_1)

lemma unat_pg_no: "unat (pg_no va) = unat va div PGSIZE"
  by (simp add: pg_no_def drop_bit_eq_div unat_div)

lemma unat_pg_no_of_nat: "PGSIZE * i < 2 ^ 32 \<Longrightarrow> unat (pg_no (of_nat (PGSIZE * i))) = i"
  unfolding unat_pg_no by (subst unat_of_nat32) simp_all

lemma unat_pg_ofs: "unat (pg_ofs va) = unat va mod PGSIZE"
proof -
  have "pg_ofs va = take_bit PGBITS va" by (simp add: pg_ofs_def PGMASK_eq take_bit_eq_mask)
  then show ?thesis by (simp add: take_bit_eq_mod unat_mod)
qed

lemma pg_ofs_0: "pg_ofs va = 0 \<longleftrightarrow> unat va mod PGSIZE = 0"
  by (metis unat_pg_ofs unat_eq_zero)

section \<open>The allocator's invariant\<close>

text \<open>A pool begins at a page boundary and ends inside the address space.\<close>

definition pool_ok :: "pool \<Rightarrow> bool" where
  "pool_ok p \<longleftrightarrow> bitmap_ok (used_map p) \<and> base p \<noteq> 0 \<and> unat (base p) mod PGSIZE = 0
     \<and> unat (base p) + PGSIZE * bit_cnt (used_map p) \<le> 2 ^ 32"

definition pool_start :: "pool \<Rightarrow> nat" where
  "pool_start p = unat (base p) div PGSIZE"

definition pool_used :: "pool \<Rightarrow> nat set" where
  "pool_used p = (+) (pool_start p) ` {k. k < bit_cnt (used_map p) \<and> bit_list (used_map p) ! k}"

text \<open>The user pool lies above the kernel pool; its bitmap is in the pages in between.\<close>

definition palloc_ok :: "palloc_state \<Rightarrow> bool" where
  "palloc_ok s \<longleftrightarrow> pool_ok (kernel_pool s) \<and> pool_ok (user_pool s)
     \<and> pool_start (kernel_pool s) + bit_cnt (used_map (kernel_pool s)) < pool_start (user_pool s)"

definition used_pages :: "palloc_state \<Rightarrow> nat set" where
  "used_pages s = pool_used (kernel_pool s) \<union> pool_used (user_pool s)"

lemma base_eq: "pool_ok p \<Longrightarrow> unat (base p) = PGSIZE * pool_start p"
  by (auto simp: pool_ok_def pool_start_def)

lemma pool_start_pos: "pool_ok p \<Longrightarrow> 0 < pool_start p"
proof -
  assume ok: "pool_ok p"
  then have "unat (base p) \<noteq> 0" unfolding pool_ok_def unat_eq_zero by blast
  then show ?thesis using base_eq [OF ok] by simp
qed

text \<open>The page with index \<open>i\<close> of a pool.\<close>

lemma page_addr:
  assumes "pool_ok p" "i < bit_cnt (used_map p)"
  shows "unat (base p + of_nat (PGSIZE * i)) = PGSIZE * (pool_start p + i)"
proof -
  have "unat (base p) + PGSIZE * i < 2 ^ 32" using assms by (simp add: pool_ok_def)
  then have "unat (base p + of_nat (PGSIZE * i)) = unat (base p) + PGSIZE * i"
    by (rule unat_plus_of_nat32)
  then show ?thesis using base_eq [OF assms(1)] by simp
qed

lemma pool_used_set:
  assumes "pool_ok p" "i + n \<le> bit_cnt (used_map p)" "bit_cnt bm = bit_cnt (used_map p)"
    "bit_list bm = overwrite (bit_list (used_map p)) i (replicate n v)"
  shows "pool_used (p\<lparr>used_map := bm\<rparr>) =
    (if v then pool_used p \<union> {pool_start p + i..<pool_start p + i + n}
     else pool_used p - {pool_start p + i..<pool_start p + i + n})"
proof -
  have nth: "bit_list bm ! k = (if i \<le> k \<and> k < i + n then v else bit_list (used_map p) ! k)"
    if "k < bit_cnt (used_map p)" for k
    using that assms(2) unfolding assms(4) by (auto simp: nth_overwrite)
  have run: "{pool_start p + i..<pool_start p + i + n} = (+) (pool_start p) ` {i..<i + n}"
    by (simp add: ac_simps)
  have "{k. k < bit_cnt bm \<and> bit_list bm ! k} =
    (if v then {k. k < bit_cnt (used_map p) \<and> bit_list (used_map p) ! k} \<union> {i..<i + n}
     else {k. k < bit_cnt (used_map p) \<and> bit_list (used_map p) ! k} - {i..<i + n})"
    unfolding assms(3) using nth assms(2) by (auto simp del: nth_bit_list split: if_splits)
  then show ?thesis unfolding run pool_used_def
    by (simp add: pool_start_def image_Un image_set_diff)
qed

lemma pool_ok_upd: "pool_ok p \<Longrightarrow> bitmap_ok bm \<Longrightarrow> bit_cnt bm = bit_cnt (used_map p) \<Longrightarrow>
    pool_ok (p\<lparr>used_map := bm\<rparr>)"
  by (simp add: pool_ok_def)

lemma pool_start_upd [simp]: "pool_start (p\<lparr>used_map := bm\<rparr>) = pool_start p"
  by (simp add: pool_start_def)

lemma pool_used_bound: "n \<in> pool_used p \<Longrightarrow> pool_start p \<le> n \<and> n < pool_start p + bit_cnt (used_map p)"
  by (auto simp: pool_used_def)

text \<open>Taking pages from one pool.\<close>

lemma pool_scan:
  assumes "pool_ok p" "0 < n"
  shows "\<exists>r bm. bitmap_scan_and_flip (used_map p) 0 n False = Some (r, bm) \<and> pool_ok (p\<lparr>used_map := bm\<rparr>)
    \<and> bit_cnt bm = bit_cnt (used_map p)
    \<and> (if r = BITMAP_ERROR then bm = used_map p
       else unat (base p + of_nat (PGSIZE * r)) = PGSIZE * (pool_start p + r)
         \<and> r + n \<le> bit_cnt (used_map p)
         \<and> {pool_start p + r..<pool_start p + r + n} \<inter> pool_used p = {}
         \<and> pool_used (p\<lparr>used_map := bm\<rparr>) = pool_used p \<union> {pool_start p + r..<pool_start p + r + n})"
proof -
  have bok: "bitmap_ok (used_map p)" using assms(1) by (simp add: pool_ok_def)
  obtain r bm where r: "bitmap_scan_and_flip (used_map p) 0 n False = Some (r, bm)" "bitmap_ok bm"
      "bit_cnt bm = bit_cnt (used_map p)"
      "if r = BITMAP_ERROR then bm = used_map p \<and> (\<forall>j \<ge> 0. \<not> group_at (bit_list (used_map p)) j n False)
       else first_group (bit_list (used_map p)) 0 n False r
         \<and> bit_list bm = overwrite (bit_list (used_map p)) r (replicate n (\<not> False))"
    using bitmap_scan_and_flip_rep [OF bok, of 0 n False] by auto
  have ok': "pool_ok (p\<lparr>used_map := bm\<rparr>)" by (rule pool_ok_upd [OF assms(1) r(2,3)])
  show ?thesis
  proof (cases "r = BITMAP_ERROR")
    case True
    then show ?thesis using r ok' by simp
  next
    case False
    then have g: "group_at (bit_list (used_map p)) r n False"
      and o: "bit_list bm = overwrite (bit_list (used_map p)) r (replicate n True)"
      using r(4) by (simp_all add: first_group_def)
    have b: "r + n \<le> bit_cnt (used_map p)" using group_at_bound [OF g] by simp
    have "{pool_start p + r..<pool_start p + r + n} \<inter> pool_used p = {}"
      using g unfolding group_at_def pool_used_def by auto
    then show ?thesis
      using r(1,3) ok' False b page_addr [OF assms(1), of r] pool_used_set [OF assms(1) b r(3) o] assms(2)
      by (intro exI [of _ r] exI [of _ bm]) simp
  qed
qed

text \<open>Giving pages back to one pool.\<close>

lemma pool_free:
  assumes ok: "pool_ok p" and n: "0 < n" and u: "{i..<i + n} \<subseteq> pool_used p"
  shows "page_from_pool p (of_nat (PGSIZE * i))"
    and "\<exists>bm. free_in_pool p (of_nat (PGSIZE * i)) n = Some (p\<lparr>used_map := bm\<rparr>)
      \<and> pool_ok (p\<lparr>used_map := bm\<rparr>) \<and> bit_cnt bm = bit_cnt (used_map p)
      \<and> pool_used (p\<lparr>used_map := bm\<rparr>) = pool_used p - {i..<i + n}"
proof -
  let ?s = "pool_start p" and ?c = "bit_cnt (used_map p)"
  have bok: "bitmap_ok (used_map p)" using ok by (simp add: pool_ok_def)
  have "i \<in> pool_used p" "i + n - 1 \<in> pool_used p" using u n by auto
  then have b: "?s \<le> i" "i + n \<le> ?s + ?c" using pool_used_bound by fastforce+
  define k where "k = i - ?s"
  have i: "i = ?s + k" "k + n \<le> ?c" using b by (simp_all add: k_def)
  have top: "PGSIZE * (?s + ?c) \<le> 2 ^ 32" using ok base_eq [OF ok] by (simp add: pool_ok_def)
  have no: "pg_no (of_nat (PGSIZE * i)) = of_nat i" "pg_no (base p) = of_nat ?s"
  proof -
    have "PGSIZE * i < 2 ^ 32" using top b(2) n by simp
    then show "pg_no (of_nat (PGSIZE * i)) = of_nat i" by (rule of_nat_eqI32 [OF unat_pg_no_of_nat])
    show "pg_no (base p) = of_nat ?s" by (rule of_nat_eqI32) (simp add: unat_pg_no pool_start_def)
  qed
  have lt: "i < 2 ^ 32" "?s < 2 ^ 32" "?s + ?c < 2 ^ 32" using top b n by simp_all
  have "unat (of_nat ?s + of_nat ?c :: u32) = ?s + ?c" using unat_of_nat32 [OF lt(3)] by simp
  then show "page_from_pool p (of_nat (PGSIZE * i))"
    unfolding page_from_pool_def Let_def no bitmap_size_def word_le_nat_alt word_less_nat_alt
    using unat_of_nat32 [OF lt(1)] unat_of_nat32 [OF lt(2)] b n by simp
  have idx: "unat (pg_no (of_nat (PGSIZE * i)) - pg_no (base p)) = k"
  proof -
    have "(of_nat i :: u32) - of_nat ?s = of_nat k" by (simp add: i(1))
    then show ?thesis unfolding no using unat_of_nat32 [of k] lt(1) i(1) by simp
  qed
  have all: "group_at (bit_list (used_map p)) k n True"
    unfolding group_at_def
  proof (intro conjI allI impI)
    fix j assume j: "k \<le> j \<and> j < k + n"
    then have "?s + j \<in> pool_used p" using u i by auto
    then show "bit_list (used_map p) ! j = True" by (auto simp: pool_used_def)
  qed (use i in simp)
  obtain bm where bm: "bitmap_set_multiple (used_map p) k n False = Some bm" "bitmap_ok bm"
    "bit_cnt bm = ?c" "bit_list bm = overwrite (bit_list (used_map p)) k (replicate n False)"
    using bitmap_set_multiple_rep [OF bok i(2), of False] by blast
  have "free_in_pool p (of_nat (PGSIZE * i)) n = Some (p\<lparr>used_map := bm\<rparr>)"
    unfolding free_in_pool_def Let_def idx using bitmap_all_rep [OF bok i(2)] all bm(1) by simp
  then show "\<exists>bm. free_in_pool p (of_nat (PGSIZE * i)) n = Some (p\<lparr>used_map := bm\<rparr>)
      \<and> pool_ok (p\<lparr>used_map := bm\<rparr>) \<and> bit_cnt bm = bit_cnt (used_map p)
      \<and> pool_used (p\<lparr>used_map := bm\<rparr>) = pool_used p - {i..<i + n}"
    using pool_ok_upd [OF ok bm(2,3)] pool_used_set [OF ok i(2) bm(3,4)] bm(3) unfolding i(1)
    by (intro exI [of _ bm]) (simp add: add.assoc)
qed

lemma not_from_pool:
  assumes ok: "pool_ok p" and n: "PGSIZE * i < 2 ^ 32" "i < pool_start p \<or> pool_start p + bit_cnt (used_map p) \<le> i"
  shows "\<not> page_from_pool p (of_nat (PGSIZE * i))"
proof -
  let ?s = "pool_start p" and ?c = "bit_cnt (used_map p)"
  have top: "PGSIZE * (?s + ?c) \<le> 2 ^ 32" using ok base_eq [OF ok] by (simp add: pool_ok_def)
  note u = unat_pg_no_of_nat [OF n(1)]
  have s: "unat (pg_no (base p)) = ?s" unfolding unat_pg_no by (simp add: pool_start_def)
  have lt: "?s + ?c < 2 ^ 32" using top by simp
  have "unat (pg_no (base p) + of_nat ?c) = ?s + ?c" using unat_plus_of_nat32 [of "pg_no (base p)" ?c] s lt by simp
  then show ?thesis
    unfolding page_from_pool_def Let_def bitmap_size_def word_le_nat_alt word_less_nat_alt u s
    using n(2) by auto
qed

section \<open>The allocator as a run allocator\<close>

text \<open>Page numbers instead of pointers: a null pointer is \<open>None\<close>.\<close>

definition get_pages :: "bool \<times> bool \<Rightarrow> palloc_state \<Rightarrow> nat \<Rightarrow> (nat option \<times> palloc_state) option" where
  "get_pages k s n = do {
     (p, s) \<leftarrow> palloc_get_multiple s \<lparr>PAL_ASSERT = False, PAL_ZERO = fst k, PAL_USER = snd k\<rparr> n;
     Some (if p = 0 then None else Some (unat p div PGSIZE), s)
   }"

definition put_pages :: "palloc_state \<Rightarrow> nat \<Rightarrow> nat \<Rightarrow> palloc_state option" where
  "put_pages s i n = palloc_free_multiple s (of_nat (PGSIZE * i)) n"

lemma used_pages_mem [simp]: "used_pages (s\<lparr>mem := mm\<rparr>) = used_pages s" "palloc_ok (s\<lparr>mem := mm\<rparr>) = palloc_ok s"
  by (simp_all add: used_pages_def palloc_ok_def)

text \<open>Facts about the pool the flags select and the other pool.\<close>

lemma pool_of_ok: "palloc_ok s \<Longrightarrow> pool_ok (pool_of flags s)"
  by (simp add: palloc_ok_def pool_of_def)

lemma pool_of_used: "pool_used (pool_of flags s) \<subseteq> used_pages s"
  by (auto simp: pool_of_def used_pages_def)

lemma pools_apart:
  assumes "palloc_ok s" "n \<in> used_pages s - pool_used (pool_of flags s)"
  shows "n < pool_start (pool_of flags s) \<or> pool_start (pool_of flags s) + bit_cnt (used_map (pool_of flags s)) \<le> n"
  using assms by (auto simp: palloc_ok_def pool_of_def used_pages_def dest!: pool_used_bound split: if_splits)

lemma set_used_map_ok:
  assumes "palloc_ok s" "pool_ok (pool_of flags s\<lparr>used_map := bm\<rparr>)"
    "bit_cnt bm = bit_cnt (used_map (pool_of flags s))"
  shows "palloc_ok (set_used_map flags s bm)"
  using assms by (auto simp: palloc_ok_def pool_of_def set_used_map_def split: if_splits)

lemma set_used_map_add:
  assumes "pool_used (pool_of flags s\<lparr>used_map := bm\<rparr>) = pool_used (pool_of flags s) \<union> X"
  shows "used_pages (set_used_map flags s bm) = used_pages s \<union> X"
  using assms by (auto simp: used_pages_def pool_of_def set_used_map_def split: if_splits)

lemma set_used_map_same: "set_used_map flags s (used_map (pool_of flags s)) = s"
  by (simp add: set_used_map_def pool_of_def)

lemma mem_set_used_map [simp]: "mem (set_used_map flags s bm) = mem s"
  by (simp add: set_used_map_def)

lemma palloc_get_multiple_rep:
  assumes ok: "palloc_ok s" and n: "0 < n" and na: "\<not> PAL_ASSERT flags"
  shows "\<exists>r s'. palloc_get_multiple s flags n = Some (r, s') \<and> palloc_ok s'
    \<and> (if r = 0 then s' = s
       else unat r = PGSIZE * (unat r div PGSIZE)
         \<and> {unat r div PGSIZE..<unat r div PGSIZE + n} \<inter> used_pages s = {}
         \<and> used_pages s' = used_pages s \<union> {unat r div PGSIZE..<unat r div PGSIZE + n}
         \<and> (\<forall>a. mem s' a = (if PAL_ZERO flags \<and> unat (a - r) < PGSIZE * n then 0 else mem s a)))"
proof -
  let ?p = "pool_of flags s"
  obtain i bm where i: "bitmap_scan_and_flip (used_map ?p) 0 n False = Some (i, bm)"
    "pool_ok (?p\<lparr>used_map := bm\<rparr>)" "bit_cnt bm = bit_cnt (used_map ?p)"
    and c: "if i = BITMAP_ERROR then bm = used_map ?p
       else unat (base ?p + of_nat (PGSIZE * i)) = PGSIZE * (pool_start ?p + i)
         \<and> i + n \<le> bit_cnt (used_map ?p)
         \<and> {pool_start ?p + i..<pool_start ?p + i + n} \<inter> pool_used ?p = {}
         \<and> pool_used (?p\<lparr>used_map := bm\<rparr>) = pool_used ?p \<union> {pool_start ?p + i..<pool_start ?p + i + n}"
    using pool_scan [OF pool_of_ok [OF ok] n] by blast
  show ?thesis
  proof (cases "i = BITMAP_ERROR")
    case True
    then have "palloc_get_multiple s flags n = Some (0, s)"
      using i(1) c na n by (simp add: palloc_get_multiple_def set_used_map_same)
    then show ?thesis using ok by simp
  next
    case False
    define r where "r = base ?p + of_nat (PGSIZE * i)"
    define s' where "s' = set_used_map flags s bm"
    define s2 where "s2 = (if PAL_ZERO flags then s'\<lparr>mem := memset_mem (mem s') r 0 (PGSIZE * n)\<rparr> else s')"
    have a: "unat r = PGSIZE * (pool_start ?p + i)" "i + n \<le> bit_cnt (used_map ?p)"
      "{pool_start ?p + i..<pool_start ?p + i + n} \<inter> pool_used ?p = {}"
      "pool_used (?p\<lparr>used_map := bm\<rparr>) = pool_used ?p \<union> {pool_start ?p + i..<pool_start ?p + i + n}"
      using c False by (simp_all add: r_def)
    have d: "unat r div PGSIZE = pool_start ?p + i" using a(1) by simp
    have nz: "r \<noteq> 0" using a(1) pool_start_pos [OF pool_of_ok [OF ok], of flags] by auto
    have get: "palloc_get_multiple s flags n = Some (r, s2)"
      using i(1) False nz n by (simp add: palloc_get_multiple_def s2_def s'_def r_def Let_def)
    have "{pool_start ?p + i..<pool_start ?p + i + n} \<inter> used_pages s = {}"
      using a(2,3) pools_apart [OF ok, of _ flags] by fastforce
    moreover have "used_pages s2 = used_pages s \<union> {pool_start ?p + i..<pool_start ?p + i + n}"
      using set_used_map_add [OF a(4)] by (simp add: s2_def s'_def)
    moreover have "palloc_ok s2"
      using set_used_map_ok [OF ok i(2,3)] by (simp add: s2_def s'_def)
    moreover have "mem s2 x = (if PAL_ZERO flags \<and> unat (x - r) < PGSIZE * n then 0 else mem s x)" for x
      by (simp add: s2_def s'_def memset_mem_def)
    ultimately show ?thesis using get nz a(1) unfolding d
      by (intro exI [of _ r] exI [of _ s2]) (simp add: d)
  qed
qed

text \<open>With a free page in the pool the request for one page is served.\<close>

lemma palloc_get_page_succeeds:
  assumes ok: "palloc_ok s" and i: "i < bit_cnt (used_map (pool_of flags s))" "\<not> bit_list (used_map (pool_of flags s)) ! i"
  shows "\<exists>p s'. palloc_get_page s flags = Some (p, s') \<and> p \<noteq> 0"
proof -
  let ?p = "pool_of flags s"
  have pok: "pool_ok ?p" and bok: "bitmap_ok (used_map ?p)"
    using pool_of_ok [OF ok] by (simp_all add: pool_ok_def)
  obtain r bm where r: "bitmap_scan_and_flip (used_map ?p) 0 1 False = Some (r, bm)"
    "if r = BITMAP_ERROR then bm = used_map ?p \<and> (\<forall>j \<ge> 0. \<not> group_at (bit_list (used_map ?p)) j 1 False)
     else first_group (bit_list (used_map ?p)) 0 1 False r
       \<and> bit_list bm = overwrite (bit_list (used_map ?p)) r (replicate 1 (\<not> False))"
    using bitmap_scan_and_flip_rep [OF bok, of 0 1 False] by auto
  have "group_at (bit_list (used_map ?p)) i 1 False"
    using i by (auto simp: group_at_def le_less_Suc_eq simp del: nth_bit_list)
  then have ne: "r \<noteq> BITMAP_ERROR"
    using r(2) by (metis zero_le)
  then have "r < bit_cnt (used_map ?p)"
    using r(2) group_at_bound [of "bit_list (used_map ?p)" r 1 False] by (simp add: first_group_def)
  then have "base ?p + of_nat (PGSIZE * r) \<noteq> 0"
    using page_addr [OF pok, of r] pool_start_pos [OF pok] by (metis add_gr_0 mult_pos_pos neq0_conv unat_0 zero_less_numeral)
  then show ?thesis
    using r(1) ne by (simp add: palloc_get_page_def palloc_get_multiple_def Let_def)
qed

lemma run_in_one_pool:
  assumes ok: "palloc_ok s" and n: "0 < n" and u: "{i..<i + n} \<subseteq> used_pages s"
  shows "{i..<i + n} \<subseteq> pool_used (kernel_pool s) \<or> {i..<i + n} \<subseteq> pool_used (user_pool s)"
proof -
  let ?g = "pool_start (kernel_pool s) + bit_cnt (used_map (kernel_pool s))"
  have g: "?g < pool_start (user_pool s)" using ok by (simp add: palloc_ok_def)
  have low: "j < ?g" if "j \<in> pool_used (kernel_pool s)" for j using pool_used_bound [OF that] by simp
  have high: "?g < j" if "j \<in> pool_used (user_pool s)" for j using pool_used_bound [OF that] g by simp
  have "?g \<notin> used_pages s" using low high unfolding used_pages_def by blast
  then have gap: "?g \<notin> {i..<i + n}" using u by blast
  show ?thesis
  proof (cases "i < ?g")
    case True
    then have "j < ?g" if "j \<in> {i..<i + n}" for j using gap that by auto
    then show ?thesis using u high unfolding used_pages_def by fastforce
  next
    case False
    then have "?g < j" if "j \<in> {i..<i + n}" for j using gap that by auto
    then show ?thesis using u low unfolding used_pages_def by fastforce
  qed
qed

lemma palloc_free_multiple_rep:
  assumes ok: "palloc_ok s" and n: "0 < n" and u: "{i..<i + n} \<subseteq> used_pages s"
  shows "\<exists>s'. palloc_free_multiple s (of_nat (PGSIZE * i)) n = Some s' \<and> palloc_ok s'
    \<and> used_pages s' = used_pages s - {i..<i + n}"
proof -
  let ?p = "of_nat (PGSIZE * i) :: ptr"
  have kok: "pool_ok (kernel_pool s)" and uok: "pool_ok (user_pool s)" using ok by (simp_all add: palloc_ok_def)
  have "i \<in> used_pages s" using u n by auto
  then have b: "0 < i" "PGSIZE * i < 2 ^ 32"
    using pool_used_bound [of i] pool_start_pos [OF kok] pool_start_pos [OF uok] kok uok
      base_eq [OF kok] base_eq [OF uok]
    by (fastforce simp: used_pages_def pool_ok_def)+
  have nz: "?p \<noteq> 0" "pg_ofs ?p = 0"
    using unat_of_nat32 [OF b(2)] b(1) by (auto simp: pg_ofs_0 simp del: of_nat_mult)
  from run_in_one_pool [OF ok n u] show ?thesis
  proof
    assume k: "{i..<i + n} \<subseteq> pool_used (kernel_pool s)"
    note f = pool_free [OF kok n k]
    obtain bm where bm: "free_in_pool (kernel_pool s) ?p n = Some (kernel_pool s\<lparr>used_map := bm\<rparr>)"
      "pool_ok (kernel_pool s\<lparr>used_map := bm\<rparr>)" "bit_cnt bm = bit_cnt (used_map (kernel_pool s))"
      "pool_used (kernel_pool s\<lparr>used_map := bm\<rparr>) = pool_used (kernel_pool s) - {i..<i + n}"
      using f(2) by blast
    have "{i..<i + n} \<inter> pool_used (user_pool s) = {}"
      using k pool_used_bound [of _ "kernel_pool s"] pool_used_bound [of _ "user_pool s"] ok
      unfolding palloc_ok_def by fastforce
    then show ?thesis
      using bm f(1) nz n ok by (auto simp: palloc_free_multiple_def used_pages_def palloc_ok_def)
  next
    assume k: "{i..<i + n} \<subseteq> pool_used (user_pool s)"
    note f = pool_free [OF uok n k]
    obtain bm where bm: "free_in_pool (user_pool s) ?p n = Some (user_pool s\<lparr>used_map := bm\<rparr>)"
      "pool_ok (user_pool s\<lparr>used_map := bm\<rparr>)" "bit_cnt bm = bit_cnt (used_map (user_pool s))"
      "pool_used (user_pool s\<lparr>used_map := bm\<rparr>) = pool_used (user_pool s) - {i..<i + n}"
      using f(2) by blast
    have "i \<in> pool_used (user_pool s)" using k n by auto
    then have "pool_start (kernel_pool s) + bit_cnt (used_map (kernel_pool s)) \<le> i"
      using pool_used_bound [of i "user_pool s"] ok by (simp add: palloc_ok_def)
    then have nf: "\<not> page_from_pool (kernel_pool s) ?p" using not_from_pool [OF kok b(2)] by blast
    have "{i..<i + n} \<inter> pool_used (kernel_pool s) = {}"
      using k pool_used_bound [of _ "kernel_pool s"] pool_used_bound [of _ "user_pool s"] ok
      unfolding palloc_ok_def by fastforce
    then show ?thesis
      using bm f(1) nf nz n ok by (auto simp: palloc_free_multiple_def used_pages_def palloc_ok_def)
  qed
qed

interpretation page_runs: run_allocator palloc_ok used_pages get_pages put_pages
proof unfold_locales
  fix s :: palloc_state and n :: nat and k :: "bool \<times> bool"
  assume a: "palloc_ok s" "0 < n"
  let ?f = "\<lparr>PAL_ASSERT = False, PAL_ZERO = fst k, PAL_USER = snd k\<rparr>"
  have "\<not> PAL_ASSERT ?f" by simp
  from palloc_get_multiple_rep [OF a this]
  show "\<exists>r s'. get_pages k s n = Some (r, s') \<and> palloc_ok s' \<and>
      (case r of None \<Rightarrow> used_pages s' = used_pages s
       | Some i \<Rightarrow> {i..<i + n} \<inter> used_pages s = {} \<and> used_pages s' = used_pages s \<union> {i..<i + n})"
    by (auto simp: get_pages_def split: if_splits)
next
  fix s :: palloc_state and n i :: nat
  assume "palloc_ok s" "0 < n" "{i..<i + n} \<subseteq> used_pages s"
  then show "\<exists>s'. put_pages s i n = Some s' \<and> palloc_ok s' \<and> used_pages s' = used_pages s - {i..<i + n}"
    unfolding put_pages_def by (rule palloc_free_multiple_rep)
qed

section \<open>Initialisation\<close>

text \<open>The bitmap of a pool of \<open>cnt\<close> pages takes at least one of them and fits.\<close>

lemma bitmap_pages:
  fixes cnt :: nat
  assumes "1 \<le> cnt" "cnt \<le> 2 ^ 20"
  defines "bm \<equiv> wrap32 (bitmap_buf_size cnt + PGSIZE - 1) div PGSIZE"
  shows "1 \<le> bm" "bm \<le> cnt" "2 + elem_cnt (cnt - bm) \<le> bm * PGSIZE div 4"
    "bitmap_buf_size (cnt - bm) \<le> bm * PGSIZE"
proof -
  have e: "elem_cnt n = (n + 31) div 32" if "n \<le> 2 ^ 20" for n
    using that by (simp add: elem_cnt_def)
  have size: "bitmap_buf_size n = 8 + 4 * ((n + 31) div 32)" if "n \<le> 2 ^ 20" for n
    using that by (simp add: bitmap_buf_size_def byte_cnt_def e)
  have bm: "bm = (8 + 4 * ((cnt + 31) div 32) + 4095) div 4096"
    using assms(1,2) by (simp add: bm_def size)
  have sub: "cnt - bm \<le> 2 ^ 20" using assms(2) by simp
  have mono: "(cnt - bm + 31) div 32 \<le> (cnt + 31) div 32" by (rule div_le_mono) simp
  have fit: "8 + 4 * ((cnt + 31) div 32) \<le> bm * 4096" unfolding bm by simp
  show "1 \<le> bm" unfolding bm by simp
  show "bm \<le> cnt" unfolding bm using assms(1) by simp
  show "bitmap_buf_size (cnt - bm) \<le> bm * PGSIZE" using size [OF sub] mono fit by simp
  show "2 + elem_cnt (cnt - bm) \<le> bm * PGSIZE div 4" using e [OF sub] mono fit by simp
qed

lemma init_pool_rep:
  assumes cnt: "1 \<le> cnt" and a: "0 < a" "a + cnt < 2 ^ 20"
  shows "\<exists>p. init_pool mm (of_nat (PGSIZE * a)) cnt = Some p \<and> pool_ok p \<and> pool_used p = {}
    \<and> a < pool_start p \<and> pool_start p + bit_cnt (used_map p) = a + cnt"
proof -
  define bm where "bm = wrap32 (bitmap_buf_size cnt + PGSIZE - 1) div PGSIZE"
  have c20: "cnt \<le> 2 ^ 20" using a by simp
  note b = bitmap_pages [OF cnt c20, folded bm_def]
  define ws where "ws = mem_words mm (of_nat (PGSIZE * a)) (bm * PGSIZE div 4)"
  have len: "length ws = bm * PGSIZE div 4" by (simp add: ws_def mem_words_def)
  have "cnt - bm + ELEM_BITS \<le> 2 ^ 32" "2 + elem_cnt (cnt - bm) \<le> length ws" using b(3) c20 len by simp_all
  from bitmap_create_in_buf_rep [OF this b(4)]
  obtain m where m: "bitmap_create_in_buf (cnt - bm) ws (bm * PGSIZE) = Some m" "bitmap_ok m"
    "bit_cnt m = cnt - bm" "bit_list m = replicate (cnt - bm) False" by blast
  define p where "p = \<lparr>used_map = m, base = of_nat (PGSIZE * a) + of_nat (bm * PGSIZE)\<rparr>"
  have i: "init_pool mm (of_nat (PGSIZE * a)) cnt = Some p"
    unfolding init_pool_def Let_def bm_def [symmetric] ws_def [symmetric] p_def using b(2) m(1) by simp
  have "PGSIZE * (a + bm) < 2 ^ 32" using a(2) b(2) by simp
  then have "unat (of_nat (PGSIZE * (a + bm)) :: u32) = PGSIZE * (a + bm)" by (rule unat_of_nat32)
  then have base: "unat (base p) = PGSIZE * (a + bm)" by (simp add: p_def algebra_simps)
  then have start: "pool_start p = a + bm" by (simp add: pool_start_def)
  have "base p \<noteq> 0" using base a(1) by auto
  then have "pool_ok p" using base m(2,3) a(2) b(2) by (simp add: pool_ok_def) (simp add: p_def)
  moreover have "pool_used p = {}" using m(3,4) by (auto simp: pool_used_def p_def simp del: nth_bit_list)
  ultimately show ?thesis using i start b(1,2) m(3) by (intro exI [of _ p]) (simp add: p_def)
qed

lemma palloc_init_rep:
  assumes ram: "258 \<le> unat init_ram_pages" "unat init_ram_pages < 2 ^ 18" and lim: "1 \<le> user_page_limit"
  shows "\<exists>s. palloc_init mm init_ram_pages user_page_limit = Some s \<and> palloc_ok s \<and> used_pages s = {}
    \<and> bit_cnt (used_map (user_pool s)) < user_page_limit"
proof -
  define R where "R = unat init_ram_pages"
  have R: "init_ram_pages = of_nat R" "258 \<le> R" "R < 2 ^ 18" using ram by (simp_all add: R_def)
  define fs :: u32 where "fs = of_nat (PGSIZE * 786688)"
  define fe :: u32 where "fe = of_nat (PGSIZE * (786432 + R))"
  have start: "ptov (1024 * 1024) = Some fs" by (simp add: ptov_def PHYS_BASE_def fs_def)
  have "unat (of_nat (PGSIZE * R) :: u32) = PGSIZE * R" by (rule unat_of_nat32) (use R in simp)
  then have "(init_ram_pages * of_nat PGSIZE :: u32) < PHYS_BASE"
    unfolding word_less_nat_alt using R by (simp add: PHYS_BASE_def mult.commute)
  then have stop: "ptov (init_ram_pages * of_nat PGSIZE) = Some fe"
    by (simp add: ptov_def PHYS_BASE_def fe_def R(1) algebra_simps)
  define n where "n = R - 256"
  have diff: "fe - fs = of_nat (PGSIZE * n)" using R by (simp add: fe_def fs_def n_def of_nat_diff algebra_simps)
  have "PGSIZE * n < 2 ^ 31" using R by (simp add: n_def)
  then have "signed_take_bit 31 (int (PGSIZE * n)) = int (PGSIZE * n)"
    by (intro signed_take_bit_int_eq_self) simp_all
  then have "sint (of_nat (PGSIZE * n) :: u32) = int (PGSIZE * n)"
    by (simp add: signed_of_nat del: of_nat_mult)
  then have "sint (fe - fs) sdiv int PGSIZE = int n" unfolding diff by (simp add: signed_divide_int_def sgn_if)
  moreover have "unat (of_nat n :: u32) = n" by (rule unat_of_nat32) (use R in \<open>simp add: n_def\<close>)
  ultimately have pages: "unat (word_of_int (sint (fe - fs) sdiv int PGSIZE) :: u32) = n" by simp
  define u where "u = (if n div 2 > user_page_limit then user_page_limit else n div 2)"
  have u: "1 \<le> u" "u \<le> user_page_limit" "1 \<le> n - u" "u \<le> n" using lim R by (auto simp: u_def n_def)
  have ends: "786688 + (n - u) < 2 ^ 20" "786688 + (n - u) + u < 2 ^ 20" using R u(4) by (simp_all add: n_def)
  obtain kp where kp: "init_pool mm fs (n - u) = Some kp" "pool_ok kp" "pool_used kp = {}"
    "pool_start kp + bit_cnt (used_map kp) = 786688 + (n - u)"
    using init_pool_rep [OF u(3) _ ends(1), of mm] unfolding fs_def by auto
  have us: "fs + of_nat ((n - u) * PGSIZE) = of_nat (PGSIZE * (786688 + (n - u)))"
    unfolding fs_def by (simp add: algebra_simps)
  obtain up where up: "init_pool mm (fs + of_nat ((n - u) * PGSIZE)) u = Some up" "pool_ok up"
    "pool_used up = {}" "786688 + (n - u) < pool_start up"
    "pool_start up + bit_cnt (used_map up) = 786688 + (n - u) + u"
    using init_pool_rep [OF u(1) _ ends(2), of mm] unfolding us by auto
  let ?s = "\<lparr>kernel_pool = kp, user_pool = up, mem = mm\<rparr>"
  have "palloc_init mm init_ram_pages user_page_limit = Some ?s"
    by (simp only: palloc_init_def start stop Let_def Option.bind.simps pages u_def [symmetric] kp(1) up(1))
  moreover have "palloc_ok ?s" using kp up by (simp add: palloc_ok_def)
  ultimately show ?thesis using kp(3) up(3-5) u(2) by (simp add: used_pages_def)
qed

section \<open>Properties\<close>

text \<open>
  C6: Whatever sequence of requests and releases the page allocator serves, from either pool and
  with or without zeroing, no request fails an assertion, and at the end the runs of pages that are
  held are pairwise disjoint, disjoint from the pages that were in use before, and exactly the pages
  marked as used: no page is given out twice and none is lost.
\<close>

theorem palloc_runs_disjoint:
  assumes "palloc_ok s" "\<forall>k. Get k 0 \<notin> set qs"
  shows "\<exists>s' live. serve_all get_pages put_pages (s, []) qs = Some (s', live)
    \<and> sorted_wrt (\<lambda>(i, n) (j, m). {i..<i + n} \<inter> {j..<j + m} = {}) live
    \<and> (\<forall>(i, n) \<in> set live. {i..<i + n} \<inter> used_pages s = {})
    \<and> used_pages s' = used_pages s \<union> (\<Union>(i, n) \<in> set live. {i..<i + n})"
  by (rule page_runs.runs_disjoint [OF assms])

definition sample_pools :: palloc_state where
  "sample_pools = \<lparr>kernel_pool = \<lparr>used_map = \<lparr>bit_cnt = 3, bits = [1]\<rparr>, base = 0xC0101000\<rparr>,
     user_pool = \<lparr>used_map = \<lparr>bit_cnt = 2, bits = [0]\<rparr>, base = 0xC0105000\<rparr>, mem = (\<lambda>_. 7)\<rparr>"

lemma sample_pools_ok [simp]: "palloc_ok sample_pools"
  by (simp add: sample_pools_def palloc_ok_def pool_ok_def pool_start_def bitmap_ok_def elem_cnt_def wrap32_def)

theorem palloc_runs_disjoint_witness:
  "\<exists>s' live. serve_all get_pages put_pages (sample_pools, [])
      [Get (False, True) 1, Get (True, False) 2, Put 0] = Some (s', live)
    \<and> sorted_wrt (\<lambda>(i, n) (j, m). {i..<i + n} \<inter> {j..<j + m} = {}) live"
  using palloc_runs_disjoint [of sample_pools "[Get (False, True) 1, Get (True, False) 2, Put 0]"]
  by fastforce

text \<open>
  C26: \<open>palloc_get_multiple\<close> without \<open>PAL_ASSERT\<close> returns either a null pointer, changing nothing, or
  a page-aligned run of pages none of which was in use; with \<open>PAL_ZERO\<close> exactly the bytes of these
  pages are zeroed, and without it memory is unchanged.
\<close>

theorem palloc_get_multiple_fresh:
  assumes "palloc_ok s" "0 < n" "\<not> PAL_ASSERT flags"
  shows "\<exists>r s'. palloc_get_multiple s flags n = Some (r, s') \<and> palloc_ok s'
    \<and> (if r = 0 then s' = s
       else unat r = PGSIZE * (unat r div PGSIZE)
         \<and> {unat r div PGSIZE..<unat r div PGSIZE + n} \<inter> used_pages s = {}
         \<and> used_pages s' = used_pages s \<union> {unat r div PGSIZE..<unat r div PGSIZE + n}
         \<and> (\<forall>a. mem s' a = (if PAL_ZERO flags \<and> unat (a - r) < PGSIZE * n then 0 else mem s a)))"
  by (rule palloc_get_multiple_rep [OF assms])

theorem palloc_get_multiple_fresh_witness:
  "\<exists>r s'. palloc_get_multiple sample_pools \<lparr>PAL_ASSERT = False, PAL_ZERO = True, PAL_USER = True\<rparr> 2 = Some (r, s')
    \<and> palloc_ok s'"
  using palloc_get_multiple_fresh
    [of sample_pools 2 "\<lparr>PAL_ASSERT = False, PAL_ZERO = True, PAL_USER = True\<rparr>"] by fastforce

text \<open>
  C27: \<open>palloc_init\<close> succeeds for every memory size from 258 pages to just below one gigabyte when the
  user pool may have a page: it establishes the allocator's invariant with no page in use, and the
  user pool respects the limit.
\<close>

theorem palloc_init_ok:
  assumes "258 \<le> unat init_ram_pages" "unat init_ram_pages < 2 ^ 18" "1 \<le> user_page_limit"
  shows "\<exists>s. palloc_init mm init_ram_pages user_page_limit = Some s \<and> palloc_ok s \<and> used_pages s = {}
    \<and> bit_cnt (used_map (user_pool s)) < user_page_limit"
  by (rule palloc_init_rep [OF assms])

theorem palloc_init_ok_witness:
  "\<exists>s. palloc_init (\<lambda>_. 0) 1024 100 = Some s \<and> palloc_ok s \<and> used_pages s = {}"
  using palloc_init_ok [of 1024 100 "\<lambda>_. 0"] by fastforce

end
