(* ===== verification/Filesys_Cache.thy ===== *)
theory Filesys_Cache
  imports Pintos_Prelude
begin

text \<open>
  Block devices (\<open>devices/block.c\<close>) and the buffer cache (\<open>filesys/cache.c\<close>).

  The driver behind a block device is an array of sectors: a read returns what was last written to
  the sector.  The cache is the sequence of its \<open>buffer_block\<close>s in the order of \<open>cache_list\<close>; a
  pointer to an entry is its position.  \<open>buffer_cache_lock\<close> makes \<open>buffer_cache_read\<close> and
  \<open>buffer_cache_write\<close> atomic, so each is one step of the model and the lock is left out.  The flags
  \<open>dirty\<close>, \<open>used\<close> and \<open>accessed\<close> only ever hold 0 and 1.  \<open>vaddr\<close>, which is allocated and never
  used, is left out.

  \<open>disk_view c s\<close> is what a reader sees in sector \<open>s\<close>: the cached copy if there is one.  The cache is shown
  to implement the contract \<open>sector_store\<close>, an array of sectors, whatever it evicts.
\<close>

type_synonym block_sector_t = u32

abbreviation BLOCK_SECTOR_SIZE :: nat where
  "BLOCK_SECTOR_SIZE \<equiv> 512"

section \<open>Block devices\<close>

datatype block_type =
  BLOCK_KERNEL | BLOCK_FILESYS | BLOCK_SCRATCH | BLOCK_SWAP | BLOCK_RAW | BLOCK_FOREIGN

record block =
  blk_type :: block_type
  blk_size :: block_sector_t
  blk_data :: "block_sector_t \<Rightarrow> u8 list"
  read_cnt :: u64
  write_cnt :: u64

definition check_sector :: "block \<Rightarrow> block_sector_t \<Rightarrow> unit option" where
  "check_sector b sector = (if sector \<ge> blk_size b then None else Some ())"

definition block_read :: "block \<Rightarrow> block_sector_t \<Rightarrow> (u8 list \<times> block) option" where
  "block_read b sector = do {
     check_sector b sector;
     Some (blk_data b sector, b\<lparr>read_cnt := read_cnt b + 1\<rparr>)
   }"

definition block_write :: "block \<Rightarrow> block_sector_t \<Rightarrow> u8 list \<Rightarrow> block option" where
  "block_write b sector buffer = do {
     check_sector b sector;
     ASSERT (blk_type b \<noteq> BLOCK_FOREIGN);
     Some (b\<lparr>blk_data := (blk_data b)(sector := buffer), write_cnt := write_cnt b + 1\<rparr>)
   }"

definition block_size :: "block \<Rightarrow> block_sector_t" where
  "block_size b = blk_size b"

section \<open>The buffer cache\<close>

abbreviation NUM_SECTORS :: nat where
  "NUM_SECTORS \<equiv> 128"

text \<open>\<open>(block_sector_t) -1\<close>: the entry is free.\<close>

definition NO_SECTOR :: block_sector_t where
  "NO_SECTOR = - 1"

record buffer_block =
  dirty :: bool
  used :: bool
  accessed :: bool
  sector :: block_sector_t
  buf :: "u8 list"

record cache =
  fs_device :: block
  cache_list :: "buffer_block list"

text \<open>
  \<open>malloc\<close> does not clear what it returns: \<open>junk i\<close> is what the \<open>i\<close>-th buffer holds at first.  A
  failure of \<open>malloc\<close> panics.
\<close>

definition buffer_cache_init :: "block \<Rightarrow> (nat \<Rightarrow> u8 list) \<Rightarrow> cache" where
  "buffer_cache_init dev junk = \<lparr>fs_device = dev,
     cache_list = map (\<lambda>i. \<lparr>dirty = False, used = False, accessed = False, sector = NO_SECTOR, buf = junk i\<rparr>)
       [0..<NUM_SECTORS]\<rparr>"

text \<open>The position of the first entry for a sector; \<open>None\<close> is the null pointer.\<close>

fun find_entry :: "buffer_block list \<Rightarrow> block_sector_t \<Rightarrow> nat option" where
  "find_entry [] s = None"
| "find_entry (e # es) s = (if sector e = s then Some 0 else map_option Suc (find_entry es s))"

definition buffer_cache_find :: "cache \<Rightarrow> block_sector_t \<Rightarrow> nat option" where
  "buffer_cache_find c s = find_entry (cache_list c) s"

definition set_entry :: "cache \<Rightarrow> nat \<Rightarrow> buffer_block \<Rightarrow> cache" where
  "set_entry c i e = c\<lparr>cache_list := (cache_list c)[i := e]\<rparr>"

definition buffer_cache_flush :: "cache \<Rightarrow> nat \<Rightarrow> cache option" where
  "buffer_cache_flush c i = (
     let e = cache_list c ! i
     in if dirty e then do {
          dev \<leftarrow> block_write (fs_device c) (sector e) (buf e);
          Some (set_entry (c\<lparr>fs_device := dev\<rparr>) i (e\<lparr>dirty := False\<rparr>))
        } else Some c)"

lemma filter_used_less:
  "i < length l \<Longrightarrow> used (l ! i) \<Longrightarrow>
     length (filter used (l[i := (l ! i)\<lparr>used := False\<rparr>])) < length (filter used l)"
proof (induction l arbitrary: i)
  case (Cons e l)
  then show ?case by (cases i) auto
qed simp

text \<open>
  The clock hand: every round that does not return turns one \<open>used\<close> flag off, so the loop ends.
  There is no entry to look at when the list is empty.
\<close>

function evict_loop :: "cache \<Rightarrow> nat \<Rightarrow> (nat \<times> cache) option" where
  "evict_loop c i =
     (if i < length (cache_list c) then
        let e = cache_list c ! i
        in if \<not> used e then do {
             c \<leftarrow> (if dirty e then buffer_cache_flush c i else Some c);
             Some (i, set_entry c i ((cache_list c ! i)\<lparr>sector := NO_SECTOR\<rparr>))
           }
           else evict_loop (set_entry c i (e\<lparr>used := False\<rparr>))
             (if i + 1 = length (cache_list c) then 0 else i + 1)
      else None)"
  by pat_completeness auto
termination
  by (relation "measure (\<lambda>(c, i). length (filter used (cache_list c)))")
    (auto simp: set_entry_def filter_used_less)

declare evict_loop.simps [simp del]

definition buffer_cache_evict :: "cache \<Rightarrow> (nat \<times> cache) option" where
  "buffer_cache_evict c = evict_loop c 0"

text \<open>Flush the entries from position \<open>i\<close> on that hold a sector.\<close>

fun close_loop :: "cache \<Rightarrow> nat \<Rightarrow> nat \<Rightarrow> cache option" where
  "close_loop c i 0 = Some c"
| "close_loop c i (Suc n) = do {
     c \<leftarrow> (if sector (cache_list c ! i) \<noteq> NO_SECTOR then buffer_cache_flush c i else Some c);
     close_loop c (i + 1) n
   }"

definition buffer_cache_close :: "cache \<Rightarrow> cache option" where
  "buffer_cache_close c = close_loop c 0 (length (cache_list c))"

text \<open>Load a sector into an evicted entry.\<close>

definition load_entry :: "cache \<Rightarrow> nat \<Rightarrow> block_sector_t \<Rightarrow> cache option" where
  "load_entry c i s = do {
     (data, dev) \<leftarrow> block_read (fs_device c) s;
     Some (set_entry (c\<lparr>fs_device := dev\<rparr>) i ((cache_list c ! i)\<lparr>buf := data, sector := s, dirty := False\<rparr>))
   }"

definition buffer_cache_read :: "cache \<Rightarrow> block_sector_t \<Rightarrow> nat \<Rightarrow> nat \<Rightarrow> (u8 list \<times> cache) option" where
  "buffer_cache_read c s sector_ofs chunk_size = do {
     (i, c) \<leftarrow> (case buffer_cache_find c s of
        Some i \<Rightarrow> Some (i, c)
      | None \<Rightarrow> do { (i, c) \<leftarrow> buffer_cache_evict c; c \<leftarrow> load_entry c i s; Some (i, c) });
     let c = set_entry c i ((cache_list c ! i)\<lparr>used := True, accessed := True\<rparr>);
     ASSERT (sector_ofs + chunk_size \<le> BLOCK_SECTOR_SIZE);
     Some (subbuf (buf (cache_list c ! i)) sector_ofs chunk_size, c)
   }"

definition buffer_cache_write :: "cache \<Rightarrow> block_sector_t \<Rightarrow> u8 list \<Rightarrow> nat \<Rightarrow> cache option" where
  "buffer_cache_write c s source sector_ofs = do {
     (i, c) \<leftarrow> (case buffer_cache_find c s of
        Some i \<Rightarrow> Some (i, c)
      | None \<Rightarrow> do {
          (i, c) \<leftarrow> buffer_cache_evict c;
          c \<leftarrow> (if \<not> used (cache_list c ! i) \<or> sector (cache_list c ! i) \<noteq> s
               then load_entry c i s else Some c);
          Some (i, c)
        });
     let c = set_entry c i ((cache_list c ! i)\<lparr>used := True, accessed := True, dirty := True\<rparr>);
     ASSERT (sector_ofs + length source \<le> BLOCK_SECTOR_SIZE);
     Some (set_entry c i ((cache_list c ! i)\<lparr>buf := overwrite (buf (cache_list c ! i)) sector_ofs source\<rparr>))
   }"

section \<open>What a reader sees\<close>

definition disk_view :: "cache \<Rightarrow> block_sector_t \<Rightarrow> u8 list" where
  "disk_view c s = (case buffer_cache_find c s of
     Some i \<Rightarrow> if s = NO_SECTOR then blk_data (fs_device c) s else buf (cache_list c ! i)
   | None \<Rightarrow> blk_data (fs_device c) s)"

text \<open>An entry that holds a sector is clean or has to be written back; a free entry is clean.\<close>

definition entry_ok :: "block \<Rightarrow> buffer_block \<Rightarrow> bool" where
  "entry_ok dev e \<longleftrightarrow> length (buf e) = BLOCK_SECTOR_SIZE
     \<and> (if sector e = NO_SECTOR then \<not> dirty e
        else sector e < blk_size dev \<and> (dirty e \<or> buf e = blk_data dev (sector e)))"

definition sectors_unique :: "buffer_block list \<Rightarrow> bool" where
  "sectors_unique l \<longleftrightarrow> (\<forall>i < length l. \<forall>j < length l.
     sector (l ! i) = sector (l ! j) \<and> sector (l ! i) \<noteq> NO_SECTOR \<longrightarrow> i = j)"

definition dev_ok :: "block \<Rightarrow> bool" where
  "dev_ok dev \<longleftrightarrow> blk_type dev \<noteq> BLOCK_FOREIGN
     \<and> (\<forall>s < blk_size dev. length (blk_data dev s) = BLOCK_SECTOR_SIZE)"

definition cache_ok :: "cache \<Rightarrow> bool" where
  "cache_ok c \<longleftrightarrow> cache_list c \<noteq> [] \<and> dev_ok (fs_device c)
     \<and> (\<forall>i < length (cache_list c). entry_ok (fs_device c) (cache_list c ! i))
     \<and> sectors_unique (cache_list c)"

lemma NO_SECTOR_max: "\<not> NO_SECTOR < n"
  by (simp add: NO_SECTOR_def)

lemma find_entry_Some: "find_entry l s = Some i \<Longrightarrow> i < length l \<and> sector (l ! i) = s"
  by (induction l arbitrary: i) (auto split: if_splits)

lemma find_entry_None: "find_entry l s = None \<longleftrightarrow> (\<forall>i < length l. sector (l ! i) \<noteq> s)"
  by (induction l) (auto simp: less_Suc_eq_0_disj)

lemma find_entry_unique:
  assumes "sectors_unique l" "i < length l" "sector (l ! i) = s" "s \<noteq> NO_SECTOR"
  shows "find_entry l s = Some i"
proof (cases "find_entry l s")
  case None
  then show ?thesis using assms find_entry_None by blast
next
  case (Some j)
  then show ?thesis using assms find_entry_Some [OF Some] unfolding sectors_unique_def by metis
qed

lemma view_hit:
  "sectors_unique (cache_list c) \<Longrightarrow> i < length (cache_list c) \<Longrightarrow> sector (cache_list c ! i) = s \<Longrightarrow>
     s \<noteq> NO_SECTOR \<Longrightarrow> disk_view c s = buf (cache_list c ! i)"
  by (simp add: disk_view_def buffer_cache_find_def find_entry_unique)

lemma view_miss:
  "\<forall>i < length (cache_list c). sector (cache_list c ! i) \<noteq> s \<Longrightarrow> disk_view c s = blk_data (fs_device c) s"
  by (simp add: disk_view_def buffer_cache_find_def find_entry_None [THEN iffD2])

lemma view_NO_SECTOR: "disk_view c NO_SECTOR = blk_data (fs_device c) NO_SECTOR"
  by (simp add: disk_view_def split: option.split)

lemma set_entry_sel [simp]:
  "length (cache_list (set_entry c i e)) = length (cache_list c)"
  "fs_device (set_entry c i e) = fs_device c"
  "i < length (cache_list c) \<Longrightarrow> cache_list (set_entry c i e) ! i = e"
  by (simp_all add: set_entry_def)

text \<open>
  One entry is replaced, and the device may have changed under it.  Every change the operations make
  to the cache is of this form.
\<close>

lemma replace_ok:
  assumes ok: "cache_ok c" and i: "i < length (cache_list c)"
    and dev: "dev_ok d" "blk_size d = blk_size (fs_device c)" "entry_ok d e"
    and data: "\<And>s. s \<noteq> sector (cache_list c ! i) \<Longrightarrow> blk_data d s = blk_data (fs_device c) s"
    and new: "sector e = NO_SECTOR \<or> sector e = sector (cache_list c ! i)
      \<or> (\<forall>j < length (cache_list c). sector (cache_list c ! j) \<noteq> sector e)"
  shows "cache_ok (set_entry (c\<lparr>fs_device := d\<rparr>) i e)"
proof -
  let ?l = "cache_list c"
  have u: "sectors_unique ?l" and es: "entry_ok (fs_device c) (?l ! j)" if "j < length ?l" for j
    using ok that by (simp_all add: cache_ok_def)
  have u: "sectors_unique ?l" using ok by (simp add: cache_ok_def)
  have "sectors_unique (?l[i := e])"
    using u new i unfolding sectors_unique_def by (simp add: nth_list_update) metis
  moreover have "entry_ok d (?l[i := e] ! j)" if j: "j < length ?l" for j
  proof (cases "j = i \<or> sector (?l ! j) = NO_SECTOR")
    case True
    then show ?thesis using dev(3) es [OF j] i by (auto simp: nth_list_update entry_ok_def)
  next
    case False
    then have "sector (?l ! j) \<noteq> sector (?l ! i)" using u i j unfolding sectors_unique_def by metis
    then show ?thesis using False es [OF j] data dev(2) by (simp add: entry_ok_def)
  qed
  ultimately show ?thesis using ok dev(1) by (simp add: cache_ok_def set_entry_def)
qed

lemma replace_view:
  assumes ok: "cache_ok c" and i: "i < length (cache_list c)"
    and ok': "cache_ok (set_entry (c\<lparr>fs_device := d\<rparr>) i e)"
    and data: "\<And>s. s \<noteq> sector (cache_list c ! i) \<Longrightarrow> blk_data d s = blk_data (fs_device c) s"
  shows "disk_view (set_entry (c\<lparr>fs_device := d\<rparr>) i e) s =
    (if s = NO_SECTOR then blk_data d s
     else if s = sector e then buf e
     else if s = sector (cache_list c ! i) then blk_data d s
     else disk_view c s)"
proof -
  let ?l = "cache_list c" and ?c = "set_entry (c\<lparr>fs_device := d\<rparr>) i e"
  have u: "sectors_unique ?l" "sectors_unique (cache_list ?c)" using ok ok' by (simp_all add: cache_ok_def)
  have l': "cache_list ?c = ?l[i := e]" by (simp add: set_entry_def)
  consider "s = NO_SECTOR" | "s \<noteq> NO_SECTOR" "s = sector e"
    | "s \<noteq> NO_SECTOR" "s \<noteq> sector e" "s = sector (?l ! i)"
    | "s \<noteq> NO_SECTOR" "s \<noteq> sector e" "s \<noteq> sector (?l ! i)" by blast
  then show ?thesis
  proof cases
    case 1
    then show ?thesis using view_NO_SECTOR [of ?c] by simp
  next
    case 2
    then show ?thesis using view_hit [OF u(2), of i s] i by simp
  next
    case 3
    have "\<forall>j < length ?l. sector (?l[i := e] ! j) \<noteq> s"
      using 3 i u(1) unfolding sectors_unique_def by (auto simp: nth_list_update)
    then show ?thesis using 3 view_miss [of ?c s] l' by simp
  next
    case 4
    show ?thesis
    proof (cases "\<exists>j < length ?l. sector (?l ! j) = s")
      case True
      then obtain j where j: "j < length ?l" "sector (?l ! j) = s" by blast
      then have "j \<noteq> i" using 4 by blast
      then show ?thesis using j 4 view_hit [OF u(1), of j s] view_hit [OF u(2), of j s] l' by simp
    next
      case False
      then have "\<forall>j < length ?l. sector (?l[i := e] ! j) \<noteq> s" using 4 i by (auto simp: nth_list_update)
      then show ?thesis using False 4 view_miss [of ?c s] view_miss [of c s] data l' by simp
    qed
  qed
qed

lemma set_entry_dev [simp]: "c\<lparr>fs_device := fs_device c\<rparr> = c"
  by simp

lemma cache_okD:
  assumes "cache_ok c"
  shows "dev_ok (fs_device c)" "sectors_unique (cache_list c)"
    "i < length (cache_list c) \<Longrightarrow> entry_ok (fs_device c) (cache_list c ! i)"
  using assms by (simp_all add: cache_ok_def)

text \<open>What stays the same when the cache only reorganises itself.\<close>

definition same_store :: "cache \<Rightarrow> cache \<Rightarrow> bool" where
  "same_store c c' \<longleftrightarrow> cache_ok c' \<and> disk_view c' = disk_view c
     \<and> length (cache_list c') = length (cache_list c)
     \<and> blk_size (fs_device c') = blk_size (fs_device c)
     \<and> (\<forall>k < length (cache_list c). sector (cache_list c' ! k) \<in> {NO_SECTOR, sector (cache_list c ! k)})"

lemma same_store_refl: "cache_ok c \<Longrightarrow> same_store c c"
  by (simp add: same_store_def)

lemma same_store_trans: "same_store c c1 \<Longrightarrow> same_store c1 c2 \<Longrightarrow> same_store c c2"
  unfolding same_store_def by (metis empty_iff insert_iff)

text \<open>An entry with the same sector and buffer.\<close>

lemma set_flags:
  assumes ok: "cache_ok c" and i: "i < length (cache_list c)"
    and e: "entry_ok (fs_device c) e" "sector e = sector (cache_list c ! i)" "buf e = buf (cache_list c ! i)"
  shows "same_store c (set_entry c i e)"
proof -
  have ok': "cache_ok (set_entry c i e)"
    using replace_ok [OF ok i cache_okD(1) [OF ok] refl e(1)] e(2) by simp
  have "disk_view (set_entry c i e) s = disk_view c s" for s
    using replace_view [OF ok i, of "fs_device c" e s] ok' e(2,3) view_NO_SECTOR [of c]
      view_hit [OF cache_okD(2) [OF ok] i, of s]
    by (auto split: if_splits)
  then show ?thesis using ok' e(2) i by (auto simp: same_store_def nth_list_update set_entry_def)
qed

lemma flush_rep:
  assumes ok: "cache_ok c" and i: "i < length (cache_list c)"
  shows "\<exists>c'. buffer_cache_flush c i = Some c' \<and> same_store c c'
    \<and> cache_list c' = (cache_list c)[i := (cache_list c ! i)\<lparr>dirty := False\<rparr>]
    \<and> (\<forall>s. blk_data (fs_device c') s =
          (if dirty (cache_list c ! i) \<and> s = sector (cache_list c ! i) then buf (cache_list c ! i)
           else blk_data (fs_device c) s))"
proof (cases "dirty (cache_list c ! i)")
  case True
  let ?e = "cache_list c ! i" and ?d = "fs_device c"
  have eok: "entry_ok ?d ?e" by (rule cache_okD(3) [OF ok i])
  then have s: "sector ?e \<noteq> NO_SECTOR" "sector ?e < blk_size ?d" using True by (auto simp: entry_ok_def split: if_splits)
  let ?d' = "?d\<lparr>blk_data := (blk_data ?d)(sector ?e := buf ?e), write_cnt := write_cnt ?d + 1\<rparr>"
  let ?e' = "?e\<lparr>dirty := False\<rparr>"
  have w: "block_write ?d (sector ?e) (buf ?e) = Some ?d'"
    using s(2) cache_okD(1) [OF ok] by (simp add: block_write_def check_sector_def dev_ok_def linorder_not_le [symmetric])
  have d': "dev_ok ?d'" using cache_okD(1) [OF ok] eok by (auto simp: dev_ok_def entry_ok_def)
  have e': "entry_ok ?d' ?e'" using eok s by (simp add: entry_ok_def)
  have ok': "cache_ok (set_entry (c\<lparr>fs_device := ?d'\<rparr>) i ?e')"
    by (rule replace_ok [OF ok i d' _ e']) simp_all
  have "disk_view (set_entry (c\<lparr>fs_device := ?d'\<rparr>) i ?e') x = disk_view c x" for x
    using replace_view [OF ok i ok', of x] s(1) view_hit [OF cache_okD(2) [OF ok] i, of x] view_NO_SECTOR [of c] by auto
  then have "same_store c (set_entry (c\<lparr>fs_device := ?d'\<rparr>) i ?e')"
    using ok' i by (auto simp: same_store_def set_entry_def nth_list_update)
  then show ?thesis using w True by (simp add: buffer_cache_flush_def Let_def set_entry_def)
next
  case False
  then have e: "(cache_list c ! i)\<lparr>dirty := False\<rparr> = cache_list c ! i" by simp
  show ?thesis unfolding e list_update_id using False same_store_refl [OF ok]
    by (simp add: buffer_cache_flush_def)
qed

lemma evict_loop_rep:
  "cache_ok c \<Longrightarrow> i < length (cache_list c) \<Longrightarrow>
     \<exists>j c'. evict_loop c i = Some (j, c') \<and> same_store c c' \<and> j < length (cache_list c)
       \<and> sector (cache_list c' ! j) = NO_SECTOR \<and> \<not> used (cache_list c' ! j)"
proof (induction c i rule: evict_loop.induct)
  case (1 c i)
  note ok = "1.prems"(1) and i = "1.prems"(2)
  let ?e = "cache_list c ! i"
  show ?case
  proof (cases "used ?e")
    case True
    let ?c = "set_entry c i (?e\<lparr>used := False\<rparr>)"
    have st: "same_store c ?c"
      by (rule set_flags [OF ok i]) (use cache_okD(3) [OF ok i] in \<open>simp_all add: entry_ok_def\<close>)
    have "cache_ok ?c" "(if i + 1 = length (cache_list c) then 0 else i + 1) < length (cache_list ?c)"
      using st i by (auto simp: same_store_def)
    from "1.IH" [OF i refl _ this] True obtain j c' where
      "evict_loop ?c (if i + 1 = length (cache_list c) then 0 else i + 1) = Some (j, c')" "same_store ?c c'"
      "j < length (cache_list ?c)" "sector (cache_list c' ! j) = NO_SECTOR" "\<not> used (cache_list c' ! j)"
      by blast
    then show ?thesis using True i same_store_trans [OF st] by (simp add: evict_loop.simps [of c i] Let_def)
  next
    case False
    obtain c1 where c1: "buffer_cache_flush c i = Some c1" "same_store c c1"
      "cache_list c1 = (cache_list c)[i := ?e\<lparr>dirty := False\<rparr>]"
      using flush_rep [OF ok i] by blast
    have "(if dirty ?e then buffer_cache_flush c i else Some c) = Some c1"
      using c1(1) by (simp add: buffer_cache_flush_def Let_def split: if_splits)
    then have ev: "evict_loop c i = Some (i, set_entry c1 i ((cache_list c1 ! i)\<lparr>sector := NO_SECTOR\<rparr>))"
      using False i by (simp add: evict_loop.simps [of c i] Let_def)
    let ?e1 = "cache_list c1 ! i" and ?e2 = "(cache_list c1 ! i)\<lparr>sector := NO_SECTOR\<rparr>"
    have ok1: "cache_ok c1" and i1: "i < length (cache_list c1)" using c1(2) i by (simp_all add: same_store_def)
    have clean: "\<not> dirty ?e1" "\<not> used ?e1" using c1(3) i False by simp_all
    have eok: "entry_ok (fs_device c1) ?e1" by (rule cache_okD(3) [OF ok1 i1])
    have e2: "entry_ok (fs_device c1) ?e2" using eok clean by (simp add: entry_ok_def)
    have ok2: "cache_ok (set_entry c1 i ?e2)"
      using replace_ok [OF ok1 i1 cache_okD(1) [OF ok1] refl e2] by simp
    have "disk_view (set_entry c1 i ?e2) s = disk_view c1 s" for s
      using replace_view [OF ok1 i1, of "fs_device c1" ?e2 s] ok2 view_NO_SECTOR [of c1]
        view_hit [OF cache_okD(2) [OF ok1] i1, of s] eok clean(1)
      by (auto simp: entry_ok_def)
    then have "same_store c1 (set_entry c1 i ?e2)"
      using ok2 i1 by (auto simp: same_store_def nth_list_update set_entry_def)
    then have "same_store c (set_entry c1 i ?e2)" by (rule same_store_trans [OF c1(2)])
    then show ?thesis using ev i i1 clean(2) by simp
  qed
qed

section \<open>Reading, writing and closing\<close>

lemma load_entry_rep:
  assumes ok: "cache_ok c" and i: "i < length (cache_list c)" "sector (cache_list c ! i) = NO_SECTOR"
    and s: "s < blk_size (fs_device c)" "\<forall>k < length (cache_list c). sector (cache_list c ! k) \<noteq> s"
  shows "\<exists>c'. load_entry c i s = Some c' \<and> cache_ok c' \<and> disk_view c' = disk_view c
    \<and> length (cache_list c') = length (cache_list c) \<and> blk_size (fs_device c') = blk_size (fs_device c)
    \<and> sector (cache_list c' ! i) = s"
proof -
  let ?d = "fs_device c"
  let ?d' = "?d\<lparr>read_cnt := read_cnt ?d + 1\<rparr>"
  let ?e = "(cache_list c ! i)\<lparr>buf := blk_data ?d s, sector := s, dirty := False\<rparr>"
  have nn: "s \<noteq> NO_SECTOR" using s(1) NO_SECTOR_max by blast
  have l: "load_entry c i s = Some (set_entry (c\<lparr>fs_device := ?d'\<rparr>) i ?e)"
    using s(1) by (simp add: load_entry_def block_read_def check_sector_def linorder_not_le [symmetric])
  have d': "dev_ok ?d'" using cache_okD(1) [OF ok] by (simp add: dev_ok_def)
  have e: "entry_ok ?d' ?e" using s(1) nn cache_okD(1) [OF ok] by (simp add: entry_ok_def dev_ok_def)
  have ok': "cache_ok (set_entry (c\<lparr>fs_device := ?d'\<rparr>) i ?e)"
    by (rule replace_ok [OF ok i(1) d' _ e]) (use s(2) in simp_all)
  have "disk_view (set_entry (c\<lparr>fs_device := ?d'\<rparr>) i ?e) x = disk_view c x" for x
    using replace_view [OF ok i(1) ok', of x] i(2) view_NO_SECTOR [of c] view_miss [OF s(2)] by auto
  then show ?thesis using l ok' i(1) by (intro exI [of _ "set_entry (c\<lparr>fs_device := ?d'\<rparr>) i ?e"]) auto
qed

text \<open>Both operations first bring the sector into the cache.\<close>

lemma fetch_rep:
  assumes ok: "cache_ok c" and s: "s < blk_size (fs_device c)"
  defines "fetch \<equiv> (case buffer_cache_find c s of
        Some i \<Rightarrow> Some (i, c)
      | None \<Rightarrow> do { (i, c) \<leftarrow> buffer_cache_evict c; c \<leftarrow> load_entry c i s; Some (i, c) })"
  shows "\<exists>i c'. fetch = Some (i, c') \<and> cache_ok c' \<and> disk_view c' = disk_view c \<and> i < length (cache_list c')
    \<and> blk_size (fs_device c') = blk_size (fs_device c) \<and> sector (cache_list c' ! i) = s"
    and "(case buffer_cache_find c s of
        Some i \<Rightarrow> Some (i, c)
      | None \<Rightarrow> do {
          (i, c) \<leftarrow> buffer_cache_evict c;
          c \<leftarrow> (if \<not> used (cache_list c ! i) \<or> sector (cache_list c ! i) \<noteq> s
               then load_entry c i s else Some c);
          Some (i, c)
        }) = fetch"
proof -
  have "(\<exists>i c'. fetch = Some (i, c') \<and> cache_ok c' \<and> disk_view c' = disk_view c \<and> i < length (cache_list c')
    \<and> blk_size (fs_device c') = blk_size (fs_device c) \<and> sector (cache_list c' ! i) = s) \<and>
    (case buffer_cache_find c s of
        Some i \<Rightarrow> Some (i, c)
      | None \<Rightarrow> do {
          (i, c) \<leftarrow> buffer_cache_evict c;
          c \<leftarrow> (if \<not> used (cache_list c ! i) \<or> sector (cache_list c ! i) \<noteq> s
               then load_entry c i s else Some c);
          Some (i, c)
        }) = fetch"
  proof (cases "buffer_cache_find c s")
    case None
    then have absent: "\<forall>k < length (cache_list c). sector (cache_list c ! k) \<noteq> s"
      by (simp add: buffer_cache_find_def find_entry_None)
    have "0 < length (cache_list c)" using ok by (simp add: cache_ok_def)
    then obtain i c1 where e: "buffer_cache_evict c = Some (i, c1)" "same_store c c1"
      "i < length (cache_list c)" "sector (cache_list c1 ! i) = NO_SECTOR" "\<not> used (cache_list c1 ! i)"
      using evict_loop_rep [OF ok] unfolding buffer_cache_evict_def by blast
    have st: "cache_ok c1" "disk_view c1 = disk_view c" "length (cache_list c1) = length (cache_list c)"
      "blk_size (fs_device c1) = blk_size (fs_device c)"
      using e(2) by (simp_all add: same_store_def)
    have "\<forall>k < length (cache_list c1). sector (cache_list c1 ! k) \<noteq> s"
      using e(2) absent s NO_SECTOR_max unfolding same_store_def by fastforce
    then obtain c2 where "load_entry c1 i s = Some c2" "cache_ok c2" "disk_view c2 = disk_view c1"
      "length (cache_list c2) = length (cache_list c1)" "blk_size (fs_device c2) = blk_size (fs_device c1)"
      "sector (cache_list c2 ! i) = s"
      using load_entry_rep [OF st(1), of i s] e(3,4) st s by auto
    then show ?thesis using None e st by (simp add: fetch_def)
  next
    case (Some i)
    then show ?thesis using ok find_entry_Some [of "cache_list c" s i]
      by (simp add: fetch_def buffer_cache_find_def)
  qed
  then show "\<exists>i c'. fetch = Some (i, c') \<and> cache_ok c' \<and> disk_view c' = disk_view c \<and> i < length (cache_list c')
    \<and> blk_size (fs_device c') = blk_size (fs_device c) \<and> sector (cache_list c' ! i) = s"
    "(case buffer_cache_find c s of
        Some i \<Rightarrow> Some (i, c)
      | None \<Rightarrow> do {
          (i, c) \<leftarrow> buffer_cache_evict c;
          c \<leftarrow> (if \<not> used (cache_list c ! i) \<or> sector (cache_list c ! i) \<noteq> s
               then load_entry c i s else Some c);
          Some (i, c)
        }) = fetch"
    by blast+
qed

lemma buffer_cache_read_rep:
  assumes ok: "cache_ok c" and s: "s < blk_size (fs_device c)" and r: "ofs + n \<le> BLOCK_SECTOR_SIZE"
  shows "\<exists>c'. buffer_cache_read c s ofs n = Some (subbuf (disk_view c s) ofs n, c') \<and> cache_ok c'
    \<and> disk_view c' = disk_view c \<and> blk_size (fs_device c') = blk_size (fs_device c)"
proof -
  obtain i c1 where f: "(case buffer_cache_find c s of
        Some i \<Rightarrow> Some (i, c)
      | None \<Rightarrow> do { (i, c) \<leftarrow> buffer_cache_evict c; c \<leftarrow> load_entry c i s; Some (i, c) }) = Some (i, c1)"
    and c1: "cache_ok c1" "disk_view c1 = disk_view c" "i < length (cache_list c1)"
      "blk_size (fs_device c1) = blk_size (fs_device c)" "sector (cache_list c1 ! i) = s"
    using fetch_rep(1) [OF ok s] by blast
  let ?e = "(cache_list c1 ! i)\<lparr>used := True, accessed := True\<rparr>"
  have st: "same_store c1 (set_entry c1 i ?e)"
    by (rule set_flags [OF c1(1,3)]) (use cache_okD(3) [OF c1(1,3)] in \<open>simp_all add: entry_ok_def\<close>)
  have "s \<noteq> NO_SECTOR" using s NO_SECTOR_max by blast
  then have "buf (cache_list c1 ! i) = disk_view c s"
    using view_hit [OF cache_okD(2) [OF c1(1)] c1(3,5)] c1(2) by simp
  then have "buffer_cache_read c s ofs n = Some (subbuf (disk_view c s) ofs n, set_entry c1 i ?e)"
    unfolding buffer_cache_read_def f using c1(3) r by simp
  then show ?thesis using st c1(2,4) by (simp add: same_store_def)
qed

lemma buffer_cache_write_rep:
  assumes ok: "cache_ok c" and s: "s < blk_size (fs_device c)"
    and r: "ofs + length source \<le> BLOCK_SECTOR_SIZE"
  shows "\<exists>c'. buffer_cache_write c s source ofs = Some c' \<and> cache_ok c'
    \<and> disk_view c' = (disk_view c)(s := overwrite (disk_view c s) ofs source)
    \<and> blk_size (fs_device c') = blk_size (fs_device c)"
proof -
  obtain i c1 where f: "(case buffer_cache_find c s of
        Some i \<Rightarrow> Some (i, c)
      | None \<Rightarrow> do { (i, c) \<leftarrow> buffer_cache_evict c; c \<leftarrow> load_entry c i s; Some (i, c) }) = Some (i, c1)"
    and c1: "cache_ok c1" "disk_view c1 = disk_view c" "i < length (cache_list c1)"
      "blk_size (fs_device c1) = blk_size (fs_device c)" "sector (cache_list c1 ! i) = s"
    using fetch_rep(1) [OF ok s] by blast
  have nn: "s \<noteq> NO_SECTOR" using s NO_SECTOR_max by blast
  have b: "buf (cache_list c1 ! i) = disk_view c s"
    using view_hit [OF cache_okD(2) [OF c1(1)] c1(3,5) nn] c1(2) by simp
  have eok: "entry_ok (fs_device c1) (cache_list c1 ! i)" by (rule cache_okD(3) [OF c1(1,3)])
  let ?e = "(cache_list c1 ! i)\<lparr>used := True, accessed := True, dirty := True,
    buf := overwrite (disk_view c s) ofs source\<rparr>"
  have e: "entry_ok (fs_device c1) ?e"
    using eok c1(5) nn r b by (auto simp: entry_ok_def split: if_splits)
  have ok': "cache_ok (set_entry c1 i ?e)"
    using replace_ok [OF c1(1,3) cache_okD(1) [OF c1(1)] refl e] by simp
  have "disk_view (set_entry c1 i ?e) x = ((disk_view c)(s := overwrite (disk_view c s) ofs source)) x" for x
    using replace_view [OF c1(1,3), of "fs_device c1" ?e x] ok' c1(2,5) nn view_NO_SECTOR [of c1] by auto
  moreover have "buffer_cache_write c s source ofs = Some (set_entry c1 i ?e)"
    unfolding buffer_cache_write_def fetch_rep(2) [OF ok s] f using c1(3) r b
    by (simp add: set_entry_def Let_def)
  ultimately show ?thesis using ok' c1(4) by auto
qed

lemma close_loop_rep:
  "cache_ok c \<Longrightarrow> i + n = length (cache_list c) \<Longrightarrow> \<forall>k < i. \<not> dirty (cache_list c ! k) \<Longrightarrow>
     \<exists>c'. close_loop c i n = Some c' \<and> same_store c c' \<and> (\<forall>k < length (cache_list c). \<not> dirty (cache_list c' ! k))"
proof (induction n arbitrary: c i)
  case 0
  then show ?case by (simp add: same_store_refl)
next
  case (Suc n)
  have i: "i < length (cache_list c)" using Suc.prems(2) by simp
  have eok: "entry_ok (fs_device c) (cache_list c ! i)" by (rule cache_okD(3) [OF Suc.prems(1) i])
  obtain c1 where c1: "buffer_cache_flush c i = Some c1" "same_store c c1"
    "cache_list c1 = (cache_list c)[i := (cache_list c ! i)\<lparr>dirty := False\<rparr>]"
    using flush_rep [OF Suc.prems(1) i] by blast
  have step: "(if sector (cache_list c ! i) \<noteq> NO_SECTOR then buffer_cache_flush c i else Some c) = Some c1"
    using c1(1) eok by (auto simp: entry_ok_def buffer_cache_flush_def Let_def split: if_splits)
  have "cache_ok c1" "i + 1 + n = length (cache_list c1)" using c1(2) Suc.prems(2) by (simp_all add: same_store_def)
  moreover have "\<forall>k < i + 1. \<not> dirty (cache_list c1 ! k)"
    using Suc.prems(3) c1(3) i by (auto simp: nth_list_update less_Suc_eq)
  ultimately obtain c2 where c2: "close_loop c1 (i + 1) n = Some c2" "same_store c1 c2"
    "\<forall>k < length (cache_list c1). \<not> dirty (cache_list c2 ! k)"
    using Suc.IH by blast
  have "length (cache_list c1) = length (cache_list c)" using c1(3) by simp
  moreover have "close_loop c i (Suc n) = Some c2" using step c2(1) by simp
  ultimately show ?case using c2(3) same_store_trans [OF c1(2) c2(2)] by auto
qed

lemma clean_disk:
  assumes ok: "cache_ok c" and clean: "\<forall>k < length (cache_list c). \<not> dirty (cache_list c ! k)"
  shows "blk_data (fs_device c) = disk_view c"
proof
  fix s
  show "blk_data (fs_device c) s = disk_view c s"
  proof (cases "s \<noteq> NO_SECTOR \<and> (\<exists>k < length (cache_list c). sector (cache_list c ! k) = s)")
    case True
    then obtain k where k: "k < length (cache_list c)" "sector (cache_list c ! k) = s" "s \<noteq> NO_SECTOR" by blast
    then show ?thesis
      using view_hit [OF cache_okD(2) [OF ok] k] cache_okD(3) [OF ok k(1)] clean
      by (auto simp: entry_ok_def)
  next
    case False
    then show ?thesis using view_miss [of c s] view_NO_SECTOR [of c] by auto
  qed
qed

lemma buffer_cache_close_rep:
  assumes "cache_ok c"
  shows "\<exists>c'. buffer_cache_close c = Some c' \<and> cache_ok c' \<and> disk_view c' = disk_view c
    \<and> blk_data (fs_device c') = disk_view c"
proof -
  obtain c' where "close_loop c 0 (length (cache_list c)) = Some c'" "same_store c c'"
    "\<forall>k < length (cache_list c). \<not> dirty (cache_list c' ! k)"
    using close_loop_rep [OF assms, of 0 "length (cache_list c)"] by auto
  then show ?thesis using clean_disk [of c'] by (auto simp: buffer_cache_close_def same_store_def)
qed

lemma buffer_cache_init_ok:
  assumes "dev_ok dev" "\<forall>i < NUM_SECTORS. length (junk i) = BLOCK_SECTOR_SIZE"
  shows "cache_ok (buffer_cache_init dev junk)" "disk_view (buffer_cache_init dev junk) = blk_data dev"
proof -
  have e: "sector (cache_list (buffer_cache_init dev junk) ! i) = NO_SECTOR" if "i < NUM_SECTORS" for i
    using that by (simp add: buffer_cache_init_def)
  have l: "length (cache_list (buffer_cache_init dev junk)) = NUM_SECTORS" "fs_device (buffer_cache_init dev junk) = dev"
    by (simp_all add: buffer_cache_init_def)
  show "cache_ok (buffer_cache_init dev junk)"
    using assms e l unfolding cache_ok_def sectors_unique_def
    by (auto simp: entry_ok_def) (auto simp: buffer_cache_init_def)
  have "disk_view (buffer_cache_init dev junk) s = blk_data dev s" for s
    using view_miss [of "buffer_cache_init dev junk" s] view_NO_SECTOR [of "buffer_cache_init dev junk"] e l
    by (cases "s = NO_SECTOR") auto
  then show "disk_view (buffer_cache_init dev junk) = blk_data dev" by blast
qed

section \<open>An array of sectors\<close>

text \<open>
  The contract the file system relies on: \<open>view s\<close> is an array of sectors, \<open>nsec s\<close> the number of
  them that may be accessed.
\<close>

locale sector_store =
  fixes inv :: "'s \<Rightarrow> bool"
    and view :: "'s \<Rightarrow> u32 \<Rightarrow> u8 list"
    and nsec :: "'s \<Rightarrow> u32"
    and rd :: "'s \<Rightarrow> u32 \<Rightarrow> nat \<Rightarrow> nat \<Rightarrow> (u8 list \<times> 's) option"
    and wr :: "'s \<Rightarrow> u32 \<Rightarrow> u8 list \<Rightarrow> nat \<Rightarrow> 's option"
  assumes rd_law: "inv s \<Longrightarrow> x < nsec s \<Longrightarrow> ofs + n \<le> 512 \<Longrightarrow>
      \<exists>s'. rd s x ofs n = Some (subbuf (view s x) ofs n, s') \<and> inv s' \<and> view s' = view s \<and> nsec s' = nsec s"
    and wr_law: "inv s \<Longrightarrow> x < nsec s \<Longrightarrow> ofs + length d \<le> 512 \<Longrightarrow>
      \<exists>s'. wr s x d ofs = Some s' \<and> inv s' \<and> view s' = (view s)(x := overwrite (view s x) ofs d)
        \<and> nsec s' = nsec s"
    and view_length: "inv s \<Longrightarrow> x < nsec s \<Longrightarrow> length (view s x) = 512"

text \<open>A sequence of accesses, on a store and on an array.\<close>

datatype access = Rd u32 nat nat | Wr u32 "u8 list" nat

fun access_ok :: "u32 \<Rightarrow> access \<Rightarrow> bool" where
  "access_ok lim (Rd x ofs n) \<longleftrightarrow> x < lim \<and> ofs + n \<le> 512"
| "access_ok lim (Wr x d ofs) \<longleftrightarrow> x < lim \<and> ofs + length d \<le> 512"

fun run_store :: "('s \<Rightarrow> u32 \<Rightarrow> nat \<Rightarrow> nat \<Rightarrow> (u8 list \<times> 's) option) \<Rightarrow>
    ('s \<Rightarrow> u32 \<Rightarrow> u8 list \<Rightarrow> nat \<Rightarrow> 's option) \<Rightarrow> 's \<Rightarrow> access list \<Rightarrow> (u8 list list \<times> 's) option" where
  "run_store rd wr s [] = Some ([], s)"
| "run_store rd wr s (Rd x ofs n # as) = do {
     (d, s) \<leftarrow> rd s x ofs n; (ds, s) \<leftarrow> run_store rd wr s as; Some (d # ds, s)
   }"
| "run_store rd wr s (Wr x d ofs # as) = do { s \<leftarrow> wr s x d ofs; run_store rd wr s as }"

fun run_array :: "(u32 \<Rightarrow> u8 list) \<Rightarrow> access list \<Rightarrow> u8 list list \<times> (u32 \<Rightarrow> u8 list)" where
  "run_array v [] = ([], v)"
| "run_array v (Rd x ofs n # as) = (let (ds, w) = run_array v as in (subbuf (v x) ofs n # ds, w))"
| "run_array v (Wr x d ofs # as) = run_array (v(x := overwrite (v x) ofs d)) as"

context sector_store
begin

lemma run_store_array:
  "inv s \<Longrightarrow> \<forall>a \<in> set as. access_ok (nsec s) a \<Longrightarrow>
     \<exists>s'. run_store rd wr s as = Some (fst (run_array (view s) as), s') \<and> inv s'
       \<and> view s' = snd (run_array (view s) as) \<and> nsec s' = nsec s"
proof (induction as arbitrary: s)
  case (Cons a as)
  show ?case
  proof (cases a)
    case (Rd x ofs n)
    then obtain s1 where s1: "rd s x ofs n = Some (subbuf (view s x) ofs n, s1)" "inv s1"
      "view s1 = view s" "nsec s1 = nsec s"
      using rd_law [OF Cons.prems(1), of x ofs n] Cons.prems(2) by auto
    then show ?thesis using Rd Cons.IH [of s1] Cons.prems(2) by (auto simp: split_beta)
  next
    case (Wr x d ofs)
    then obtain s1 where s1: "wr s x d ofs = Some s1" "inv s1"
      "view s1 = (view s)(x := overwrite (view s x) ofs d)" "nsec s1 = nsec s"
      using wr_law [OF Cons.prems(1), of x ofs d] Cons.prems(2) by auto
    have "\<forall>a \<in> set as. access_ok (nsec s1) a" using Cons.prems(2) s1(4) by simp
    from Cons.IH [OF s1(2) this] show ?thesis using Wr s1(1,3,4) by (simp add: fun_upd_def)
  qed
qed simp

lemma read_after_write:
  assumes "inv s" "x < nsec s" "ofs + length d \<le> 512"
  shows "\<exists>s1 s2. wr s x d ofs = Some s1 \<and> rd s1 x ofs (length d) = Some (d, s2)"
  using wr_law [OF assms] rd_law [of _ x ofs "length d"] assms view_length [OF assms(1,2)]
  by fastforce

end

lemma cache_view_length:
  assumes ok: "cache_ok c" and s: "s < blk_size (fs_device c)"
  shows "length (disk_view c s) = BLOCK_SECTOR_SIZE"
proof (cases "\<exists>k < length (cache_list c). sector (cache_list c ! k) = s")
  case True
  then obtain k where k: "k < length (cache_list c)" "sector (cache_list c ! k) = s" by blast
  have "s \<noteq> NO_SECTOR" using s NO_SECTOR_max by blast
  then show ?thesis
    using view_hit [OF cache_okD(2) [OF ok] k] cache_okD(3) [OF ok k(1)] by (simp add: entry_ok_def)
next
  case False
  then show ?thesis using view_miss [of c s] cache_okD(1) [OF ok] s by (auto simp: dev_ok_def)
qed

interpretation cached_disk: sector_store cache_ok disk_view "\<lambda>c. blk_size (fs_device c)"
  buffer_cache_read buffer_cache_write
  by unfold_locales (auto intro: buffer_cache_read_rep buffer_cache_write_rep cache_view_length)

section \<open>Properties\<close>

text \<open>
  C3: The buffer cache is transparent.  For every sequence of reads and writes of existing sectors
  no access panics, every read returns what an uncached array of sectors would hold at that point,
  and closing the cache afterwards leaves exactly that array on the device, whatever was evicted on
  the way.
\<close>

theorem buffer_cache_transparent:
  assumes "cache_ok c" "\<forall>a \<in> set as. access_ok (blk_size (fs_device c)) a"
  shows "\<exists>c' c''. run_store buffer_cache_read buffer_cache_write c as
      = Some (fst (run_array (disk_view c) as), c')
    \<and> buffer_cache_close c' = Some c'' \<and> cache_ok c''
    \<and> blk_data (fs_device c'') = snd (run_array (disk_view c) as)"
proof -
  obtain c' where c': "run_store buffer_cache_read buffer_cache_write c as
      = Some (fst (run_array (disk_view c) as), c')" "cache_ok c'"
    "disk_view c' = snd (run_array (disk_view c) as)"
    using cached_disk.run_store_array [OF assms] by blast
  then show ?thesis using buffer_cache_close_rep [OF c'(2)] by auto
qed

definition sample_block :: block where
  "sample_block = \<lparr>blk_type = BLOCK_FILESYS, blk_size = 200, blk_data = (\<lambda>_. replicate 512 0),
     read_cnt = 0, write_cnt = 0\<rparr>"

definition sample_cache :: cache where
  "sample_cache = buffer_cache_init sample_block (\<lambda>_. replicate 512 0)"

lemma sample_cache_ok [simp]: "cache_ok sample_cache" "blk_size (fs_device sample_cache) = 200"
proof -
  have "dev_ok sample_block" by (simp add: dev_ok_def sample_block_def)
  then show "cache_ok sample_cache" unfolding sample_cache_def by (rule buffer_cache_init_ok) simp
  show "blk_size (fs_device sample_cache) = 200"
    by (simp add: sample_cache_def buffer_cache_init_def sample_block_def)
qed

theorem buffer_cache_transparent_witness:
  "\<exists>c' c''. run_store buffer_cache_read buffer_cache_write sample_cache [Wr 7 [1, 2] 5, Rd 7 5 2]
      = Some (fst (run_array (disk_view sample_cache) [Wr 7 [1, 2] 5, Rd 7 5 2]), c')
    \<and> buffer_cache_close c' = Some c''"
  using buffer_cache_transparent [of sample_cache "[Wr 7 [1, 2] 5, Rd 7 5 2]"] by fastforce

text \<open>
  C28: Eviction returns on every well-formed cache, even when every entry was used since the last
  eviction; it frees one entry and changes nothing a reader sees.
\<close>

theorem buffer_cache_evict_safe:
  assumes "cache_ok c"
  shows "\<exists>i c'. buffer_cache_evict c = Some (i, c') \<and> cache_ok c' \<and> disk_view c' = disk_view c
    \<and> i < length (cache_list c') \<and> sector (cache_list c' ! i) = NO_SECTOR \<and> \<not> dirty (cache_list c' ! i)"
proof -
  have "0 < length (cache_list c)" using assms by (simp add: cache_ok_def)
  then obtain i c' where e: "buffer_cache_evict c = Some (i, c')" "same_store c c'"
    "i < length (cache_list c)" "sector (cache_list c' ! i) = NO_SECTOR"
    using evict_loop_rep [OF assms] unfolding buffer_cache_evict_def by blast
  have ok: "cache_ok c'" "i < length (cache_list c')" using e(2,3) by (simp_all add: same_store_def)
  have "\<not> dirty (cache_list c' ! i)" using cache_okD(3) [OF ok] e(4) by (simp add: entry_ok_def)
  then show ?thesis using e ok by (auto simp: same_store_def)
qed

text \<open>A cache whose 64 entries all hold unsaved data and were all used since the last eviction.\<close>

definition full_cache :: cache where
  "full_cache = \<lparr>fs_device = sample_block, cache_list = map (\<lambda>i. \<lparr>dirty = True, used = True, accessed = True,
     sector = of_nat i, buf = replicate 512 1\<rparr>) [0..<64]\<rparr>"

lemma full_cache_ok: "cache_ok full_cache"
proof -
  have n: "unat (of_nat i :: block_sector_t) = i" if "i < 64" for i using that by (simp add: unat_of_nat)
  have u: "sectors_unique (cache_list full_cache)"
    unfolding sectors_unique_def by (auto simp: full_cache_def dest: arg_cong [of _ _ unat] simp: n)
  have "entry_ok sample_block (cache_list full_cache ! i)" if "i < 64" for i
  proof -
    have "(of_nat i :: block_sector_t) < 200" using that n [OF that] by (simp add: word_less_nat_alt)
    then show ?thesis using that NO_SECTOR_max [of 200]
      by (auto simp: entry_ok_def full_cache_def sample_block_def)
  qed
  then show ?thesis using u by (simp add: cache_ok_def full_cache_def dev_ok_def sample_block_def)
qed

theorem buffer_cache_evict_safe_witness:
  "\<exists>i c'. buffer_cache_evict full_cache = Some (i, c') \<and> disk_view c' = disk_view full_cache
    \<and> sector (cache_list c' ! i) = NO_SECTOR \<and> (\<forall>j < 64. used (cache_list full_cache ! j) \<and> dirty (cache_list full_cache ! j))"
  using buffer_cache_evict_safe [OF full_cache_ok] by (fastforce simp: full_cache_def)

text \<open>
  C29: A write to the sector number \<open>(block_sector_t) -1\<close>, which marks free entries, is accepted while
  the cache has a free entry: the free entry is taken for the sector, the device is not touched,
  and writing the entry back panics.
\<close>

theorem buffer_cache_write_invalid_sector:
  assumes "i < length (cache_list c)" "sector (cache_list c ! i) = NO_SECTOR"
    "ofs + length source \<le> BLOCK_SECTOR_SIZE"
  shows "\<exists>j c'. buffer_cache_write c NO_SECTOR source ofs = Some c' \<and> fs_device c' = fs_device c
    \<and> j < length (cache_list c') \<and> sector (cache_list c' ! j) = NO_SECTOR \<and> buffer_cache_flush c' j = None"
proof -
  obtain j where j: "buffer_cache_find c NO_SECTOR = Some j" "j < length (cache_list c)"
    "sector (cache_list c ! j) = NO_SECTOR"
    using assms(1,2) find_entry_None find_entry_Some unfolding buffer_cache_find_def
    by (metis not_None_eq)
  then show ?thesis
    using assms(3) NO_SECTOR_max
    by (auto simp: buffer_cache_write_def set_entry_def Let_def buffer_cache_flush_def block_write_def
      check_sector_def NO_SECTOR_def)
qed

theorem buffer_cache_write_invalid_sector_witness:
  "\<exists>j c'. buffer_cache_write sample_cache NO_SECTOR [1] 0 = Some c' \<and> buffer_cache_flush c' j = None"
proof -
  have "sector (cache_list sample_cache ! 0) = NO_SECTOR" "0 < length (cache_list sample_cache)"
    by (simp_all add: sample_cache_def buffer_cache_init_def)
  then show ?thesis using buffer_cache_write_invalid_sector [of 0 sample_cache 0 "[1]"] by auto
qed

end
