(* ===== verification/Filesys_Inode.thy ===== *)
theory Filesys_Inode
  imports Filesys_Cache Kernel_Bitmap "HOL-Library.Signed_Division"
begin

text \<open>
  Inodes (\<open>filesys/inode.c\<close>), the free map (\<open>filesys/free-map.c\<close>), open files (\<open>filesys/file.c\<close>) and
  the two bitmap operations that use a file.

  The state holds the buffer cache, the free map, the list of open inodes and a heap of the
  structures the code allocates.  A pointer is a natural number, 0 is null; \<open>avail\<close> are the blocks
  \<open>malloc\<close> can still hand out: it takes the first, and \<open>free\<close> puts a block back in front.  Access
  through a pointer that does not point to a structure of the right type is \<open>None\<close>.

  An \<open>off_t\<close> is an integer; a signed overflow, which C leaves undefined, is \<open>None\<close>.  The three padding
  bytes of \<open>struct inode_disk\<close> are zero, as \<open>calloc\<close> leaves them.

  \<open>inode_write_at\<close> may extend the file, which allocates sectors, which writes the free map to its
  file, which is a call of \<open>inode_write_at\<close>.  The recursion is cut by a fuel argument: the functions
  between take the \<open>inode_write_at\<close> they call as the argument \<open>wr\<close>.  The free map's file never grows
  after it was created, so two units of fuel are enough in every well-formed state.
\<close>

section \<open>Data\<close>

type_synonym off_t = int

abbreviation OFF_MAX :: int where
  "OFF_MAX \<equiv> 2147483647"

abbreviation DIRECT_COUNT :: nat where
  "DIRECT_COUNT \<equiv> 123"

abbreviation INDIRECT_COUNT :: nat where
  "INDIRECT_COUNT \<equiv> 128"

definition INODE_MAGIC :: u32 where
  "INODE_MAGIC = 0x494e4f44"

abbreviation FREE_MAP_SECTOR :: block_sector_t where
  "FREE_MAP_SECTOR \<equiv> 0"

abbreviation ROOT_DIR_SECTOR :: block_sector_t where
  "ROOT_DIR_SECTOR \<equiv> 1"

record inode_disk =
  dlength :: off_t
  magic :: u32
  directory :: bool
  direct_blocks :: "block_sector_t list"
  indirect_block :: block_sector_t
  double_indirect_block :: block_sector_t

record inode =
  isector :: block_sector_t
  open_cnt :: int
  removed :: bool
  deny_write_cnt :: int
  idata :: inode_disk

record open_file =
  finode :: nat
  fpos :: off_t
  fdeny_write :: bool

record dir =
  dinode :: nat
  dpos :: off_t

datatype object = Inode inode | File open_file | Dir dir

record fs_state =
  cch :: cache
  free_map :: bitmap
  free_map_file :: nat
  open_inodes :: "nat list"
  objs :: "nat \<rightharpoonup> object"
  avail :: "nat list"

text \<open>
  The memory layout of \<open>struct inode_disk\<close>, which is one sector long.  The code has no such
  functions: it passes the structure itself to \<open>buffer_cache_write\<close> and reads a sector straight into
  it.  The model keeps the structure as a record, and these two functions are what the copy does.
\<close>

definition enc_inode :: "inode_disk \<Rightarrow> u8 list" where
  "enc_inode d = enc32 (word_of_int (dlength d)) @ enc32 (magic d)
     @ [if directory d then 1 else 0, 0, 0, 0]
     @ enc32s (direct_blocks d) @ enc32 (indirect_block d) @ enc32 (double_indirect_block d)"

definition dec_inode :: "u8 list \<Rightarrow> inode_disk" where
  "dec_inode bs = \<lparr>dlength = sint (dec32 (take 4 bs)), magic = dec32 (subbuf bs 4 4), directory = bs ! 8 \<noteq> 0,
     direct_blocks = dec32s DIRECT_COUNT (drop 12 bs),
     indirect_block = dec32 (subbuf bs 504 4), double_indirect_block = dec32 (subbuf bs 508 4)\<rparr>"

section \<open>The heap\<close>

definition alloc_obj :: "fs_state \<Rightarrow> object \<Rightarrow> nat \<times> fs_state" where
  "alloc_obj s x = (case avail s of
     [] \<Rightarrow> (0, s)
   | p # ps \<Rightarrow> (p, s\<lparr>avail := ps, objs := (objs s)(p \<mapsto> x)\<rparr>))"

definition free_obj :: "fs_state \<Rightarrow> nat \<Rightarrow> fs_state" where
  "free_obj s p = (if p = 0 then s else s\<lparr>avail := p # avail s, objs := (objs s)(p := None)\<rparr>)"

definition get_inode :: "fs_state \<Rightarrow> nat \<Rightarrow> inode option" where
  "get_inode s p = (case objs s p of Some (Inode i) \<Rightarrow> Some i | _ \<Rightarrow> None)"

definition get_file :: "fs_state \<Rightarrow> nat \<Rightarrow> open_file option" where
  "get_file s p = (case objs s p of Some (File f) \<Rightarrow> Some f | _ \<Rightarrow> None)"

definition get_dir :: "fs_state \<Rightarrow> nat \<Rightarrow> dir option" where
  "get_dir s p = (case objs s p of Some (Dir d) \<Rightarrow> Some d | _ \<Rightarrow> None)"

definition put_obj :: "fs_state \<Rightarrow> nat \<Rightarrow> object \<Rightarrow> fs_state" where
  "put_obj s p x = s\<lparr>objs := (objs s)(p \<mapsto> x)\<rparr>"

text \<open>The cache operations on the whole state.\<close>

definition cache_rd :: "fs_state \<Rightarrow> block_sector_t \<Rightarrow> nat \<Rightarrow> nat \<Rightarrow> (u8 list \<times> fs_state) option" where
  "cache_rd s x ofs n = do { (bs, c) \<leftarrow> buffer_cache_read (cch s) x ofs n; Some (bs, s\<lparr>cch := c\<rparr>) }"

definition cache_wr :: "fs_state \<Rightarrow> block_sector_t \<Rightarrow> u8 list \<Rightarrow> nat \<Rightarrow> fs_state option" where
  "cache_wr s x bs ofs = do { c \<leftarrow> buffer_cache_write (cch s) x bs ofs; Some (s\<lparr>cch := c\<rparr>) }"

section \<open>Finding a byte of a file\<close>

text \<open>\<open>DIV_ROUND_UP (size, 512)\<close> in \<open>int\<close>, converted to \<open>size_t\<close>.\<close>

definition bytes_to_sectors :: "off_t \<Rightarrow> nat option" where
  "bytes_to_sectors sz = do {
     ASSERT (sz + 512 \<le> OFF_MAX);
     Some (nat (((sz + 511) sdiv 512) mod 2 ^ 32))
   }"

text \<open>
  The doubly indirect case reads a whole sector into a variable of four bytes: what happens then is
  undefined.
\<close>

definition get_index_sector :: "fs_state \<Rightarrow> inode_disk \<Rightarrow> off_t \<Rightarrow> (block_sector_t \<times> fs_state) option" where
  "get_index_sector s d index =
     (if index < int DIRECT_COUNT then do {
        ASSERT (0 \<le> index);
        Some (direct_blocks d ! nat index, s)
      }
      else let index = index - int DIRECT_COUNT in
      if index < int INDIRECT_COUNT then do {
        (bs, s) \<leftarrow> cache_rd s (indirect_block d) 0 BLOCK_SECTOR_SIZE;
        Some (dec32s INDIRECT_COUNT bs ! nat index, s)
      }
      else let index = index - int INDIRECT_COUNT in
      if index < int (INDIRECT_COUNT * INDIRECT_COUNT) then None
      else Some (- 1, s))"

definition byte_to_sector :: "fs_state \<Rightarrow> inode_disk \<Rightarrow> off_t \<Rightarrow> (block_sector_t \<times> fs_state) option" where
  "byte_to_sector s d pos =
     (if pos < dlength d then get_index_sector s d (pos sdiv 512) else Some (- 1, s))"

definition inode_length :: "inode \<Rightarrow> off_t" where
  "inode_length i = dlength (idata i)"

section \<open>Reading\<close>

text \<open>How much of a transfer of \<open>sz\<close> bytes at \<open>offset\<close> lies in one sector of the file.\<close>

definition chunk_at :: "inode_disk \<Rightarrow> off_t \<Rightarrow> off_t \<Rightarrow> int" where
  "chunk_at d sz offset = (
     let sector_ofs = offset smod 512;
         inode_left = dlength d - offset;
         sector_left = 512 - sector_ofs;
         min_left = (if inode_left < sector_left then inode_left else sector_left)
     in if sz < min_left then sz else min_left)"

function read_loop :: "fs_state \<Rightarrow> inode_disk \<Rightarrow> off_t \<Rightarrow> off_t \<Rightarrow> u8 list \<Rightarrow> (u8 list \<times> fs_state) option" where
  "read_loop s d sz offset buffer =
     (if sz > 0 then do {
        (sector_idx, s) \<leftarrow> byte_to_sector s d offset;
        let sector_ofs = offset smod 512;
        let chunk_size = chunk_at d sz offset;
        if chunk_size \<le> 0 then Some (buffer, s)
        else do {
          ASSERT (0 \<le> sector_ofs);
          (bs, s) \<leftarrow> cache_rd s sector_idx (nat sector_ofs) (nat chunk_size);
          read_loop s d (sz - chunk_size) (offset + chunk_size) (buffer @ bs)
        }
      } else Some (buffer, s))"
  by pat_completeness auto
termination
  by (relation "measure (\<lambda>(s, d, sz, offset, buffer). nat sz)") auto

declare read_loop.simps [simp del]

text \<open>The bytes read are returned; the C function returns their number.\<close>

definition inode_read_at :: "fs_state \<Rightarrow> nat \<Rightarrow> off_t \<Rightarrow> off_t \<Rightarrow> (u8 list \<times> fs_state) option" where
  "inode_read_at s ip sz offset = do {
     i \<leftarrow> get_inode s ip;
     read_loop s (idata i) sz offset []
   }"

definition file_read_at :: "fs_state \<Rightarrow> nat \<Rightarrow> off_t \<Rightarrow> off_t \<Rightarrow> (u8 list \<times> fs_state) option" where
  "file_read_at s fp sz file_ofs = do {
     f \<leftarrow> get_file s fp;
     inode_read_at s (finode f) sz file_ofs
   }"

section \<open>The free map\<close>

type_synonym writer = "fs_state \<Rightarrow> nat \<Rightarrow> u8 list \<Rightarrow> off_t \<Rightarrow> off_t \<Rightarrow> (off_t \<times> fs_state) option"

definition file_write_at ::
  "writer \<Rightarrow> fs_state \<Rightarrow> nat \<Rightarrow> u8 list \<Rightarrow> off_t \<Rightarrow> off_t \<Rightarrow> (off_t \<times> fs_state) option" where
  "file_write_at wr s fp buffer sz file_ofs = do {
     f \<leftarrow> get_file s fp;
     wr s (finode f) buffer sz file_ofs
   }"

definition bitmap_write :: "writer \<Rightarrow> fs_state \<Rightarrow> nat \<Rightarrow> (bool \<times> fs_state) option" where
  "bitmap_write wr s fp = do {
     let sz = int (byte_cnt (bit_cnt (free_map s)));
     (n, s) \<leftarrow> file_write_at wr s fp (enc32s (bits (free_map s))) sz 0;
     Some (n = sz, s)
   }"

definition bitmap_read :: "fs_state \<Rightarrow> bitmap \<Rightarrow> nat \<Rightarrow> (bool \<times> bitmap \<times> fs_state) option" where
  "bitmap_read s b fp =
     (if bit_cnt b > 0 then do {
        let sz = byte_cnt (bit_cnt b);
        (bs, s) \<leftarrow> file_read_at s fp (int sz) 0;
        let ws = dec32s (elem_cnt (bit_cnt b)) (overwrite (enc32s (bits b)) 0 bs);
        let k = elem_cnt (bit_cnt b) - 1;
        Some (length bs = sz, b\<lparr>bits := ws[k := ws ! k AND last_mask b]\<rparr>, s)
      } else Some (True, b, s))"

text \<open>\<open>Some sector\<close> stands for \<open>true\<close> with \<open>*sectorp\<close> set.\<close>

definition free_map_allocate :: "writer \<Rightarrow> nat \<Rightarrow> fs_state \<Rightarrow> (block_sector_t option \<times> fs_state) option" where
  "free_map_allocate wr cnt s = do {
     (idx, bm) \<leftarrow> bitmap_scan_and_flip (free_map s) 0 cnt False;
     let s = s\<lparr>free_map := bm\<rparr>;
     if idx \<noteq> BITMAP_ERROR \<and> free_map_file s \<noteq> 0 then do {
       (ok, s) \<leftarrow> bitmap_write wr s (free_map_file s);
       if \<not> ok then do {
         bm \<leftarrow> bitmap_set_multiple (free_map s) idx cnt False;
         Some (None, s\<lparr>free_map := bm\<rparr>)
       } else Some (Some (of_nat idx), s)
     }
     else Some (if idx \<noteq> BITMAP_ERROR then Some (of_nat idx) else None, s)
   }"

definition free_map_release :: "writer \<Rightarrow> block_sector_t \<Rightarrow> nat \<Rightarrow> fs_state \<Rightarrow> fs_state option" where
  "free_map_release wr sec cnt s = do {
     al \<leftarrow> bitmap_all (free_map s) (unat sec) cnt;
     ASSERT al;
     bm \<leftarrow> bitmap_set_multiple (free_map s) (unat sec) cnt False;
     (_, s) \<leftarrow> bitmap_write wr (s\<lparr>free_map := bm\<rparr>) (free_map_file s);
     Some s
   }"

section \<open>Allocating and releasing the blocks of an inode\<close>

definition zeros :: "u8 list" where
  "zeros = replicate BLOCK_SECTOR_SIZE 0"

text \<open>
  The body the three allocation loops share: give every unused one of the \<open>n\<close> entries from \<open>i\<close> on a
  zeroed sector.
\<close>

fun alloc_blocks :: "writer \<Rightarrow> fs_state \<Rightarrow> block_sector_t list \<Rightarrow> nat \<Rightarrow> nat \<Rightarrow>
    (bool \<times> block_sector_t list \<times> fs_state) option" where
  "alloc_blocks wr s bs i 0 = Some (True, bs, s)"
| "alloc_blocks wr s bs i (Suc n) =
     (if bs ! i = 0 then do {
        (r, s) \<leftarrow> free_map_allocate wr 1 s;
        case r of
          None \<Rightarrow> Some (False, bs, s)
        | Some sec \<Rightarrow> do {
            s \<leftarrow> cache_wr s sec zeros 0;
            alloc_blocks wr s (bs[i := sec]) (i + 1) n
          }
      } else alloc_blocks wr s bs (i + 1) n)"

text \<open>
  An index block: allocate it when it is 0, then allocate the entries in it and write it back.  The
  entries are not written back when an allocation fails.
\<close>

definition alloc_index :: "writer \<Rightarrow> fs_state \<Rightarrow> block_sector_t \<Rightarrow> nat \<Rightarrow> (bool \<times> block_sector_t \<times> fs_state) option" where
  "alloc_index wr s blk cnt = do {
     (r, s) \<leftarrow> (if blk = 0 then do {
        (r, s) \<leftarrow> free_map_allocate wr 1 s;
        case r of
          None \<Rightarrow> Some (None, s)
        | Some sec \<Rightarrow> do { s \<leftarrow> cache_wr s sec zeros 0; Some (Some sec, s) }
      } else Some (Some blk, s));
     case r of
       None \<Rightarrow> Some (False, blk, s)
     | Some blk \<Rightarrow> do {
         (raw, s) \<leftarrow> cache_rd s blk 0 BLOCK_SECTOR_SIZE;
         (ok, es, s) \<leftarrow> alloc_blocks wr s (dec32s INDIRECT_COUNT raw) 0 cnt;
         if \<not> ok then Some (False, blk, s)
         else do { s \<leftarrow> cache_wr s blk (enc32s es) 0; Some (True, blk, s) }
       }
   }"

text \<open>
  A file of more than \<open>DIRECT_COUNT + INDIRECT_COUNT\<close> sectors is refused before anything is allocated,
  so the last part, which allocates the entries of the doubly indirect block, is never reached.  The
  inode's new blocks are returned also on failure: the C function updates the structure in place.
\<close>

definition inode_allocate :: "writer \<Rightarrow> fs_state \<Rightarrow> inode_disk \<Rightarrow> off_t \<Rightarrow> (bool \<times> inode_disk \<times> fs_state) option" where
  "inode_allocate wr s d len = do {
     sector_ct \<leftarrow> bytes_to_sectors len;
     let direct_ct = (if sector_ct > DIRECT_COUNT then DIRECT_COUNT else sector_ct);
     let rest = sector_ct - direct_ct;
     let indirect_ct = (if rest > INDIRECT_COUNT then INDIRECT_COUNT else rest);
     let dbl_indirect_ct = rest - indirect_ct;
     if dbl_indirect_ct > 0 then Some (False, d, s)
     else do {
       (ok, bs, s) \<leftarrow> alloc_blocks wr s (direct_blocks d) 0 direct_ct;
       let d = d\<lparr>direct_blocks := bs\<rparr>;
       if \<not> ok then Some (False, d, s)
       else do {
         (ok, d, s) \<leftarrow> (if indirect_ct > 0 then do {
            (ok, blk, s) \<leftarrow> alloc_index wr s (indirect_block d) indirect_ct;
            Some (ok, d\<lparr>indirect_block := blk\<rparr>, s)
          } else Some (True, d, s));
         if ok \<and> dbl_indirect_ct > 0 then do {
           (ok, blk, s) \<leftarrow> alloc_index wr s (double_indirect_block d) dbl_indirect_ct;
           Some (ok, d\<lparr>double_indirect_block := blk\<rparr>, s)
         }
         else Some (ok, d, s)
       }
     }
   }"

fun release_blocks :: "writer \<Rightarrow> fs_state \<Rightarrow> block_sector_t list \<Rightarrow> fs_state option" where
  "release_blocks wr s [] = Some s"
| "release_blocks wr s (b # bs) = do { s \<leftarrow> free_map_release wr b 1 s; release_blocks wr s bs }"

text \<open>
  For a file that would need the doubly indirect block the release of that block again reads a
  sector into a variable of four bytes, which is undefined.
\<close>

definition inode_deallocate :: "writer \<Rightarrow> fs_state \<Rightarrow> inode_disk \<Rightarrow> off_t \<Rightarrow> fs_state option" where
  "inode_deallocate wr s d len = do {
     sector_ct \<leftarrow> bytes_to_sectors len;
     let direct_ct = (if sector_ct > DIRECT_COUNT then DIRECT_COUNT else sector_ct);
     let sector_ct = sector_ct - direct_ct;
     let indirect_ct = (if sector_ct > INDIRECT_COUNT then INDIRECT_COUNT else sector_ct);
     let sector_ct = sector_ct - indirect_ct;
     dbl_indirect_ct \<leftarrow> bytes_to_sectors (int sector_ct);
     s \<leftarrow> release_blocks wr s (take direct_ct (direct_blocks d));
     s \<leftarrow> (if indirect_ct > 0 then do {
        (raw, s) \<leftarrow> cache_rd s (indirect_block d) 0 BLOCK_SECTOR_SIZE;
        s \<leftarrow> release_blocks wr s (take indirect_ct (dec32s INDIRECT_COUNT raw));
        free_map_release wr (indirect_block d) 1 s
      } else Some s);
     if dbl_indirect_ct > 0 then None else Some s
   }"

section \<open>Writing\<close>

function write_loop :: "fs_state \<Rightarrow> inode_disk \<Rightarrow> u8 list \<Rightarrow> off_t \<Rightarrow> off_t \<Rightarrow> nat \<Rightarrow>
    (nat \<times> off_t \<times> fs_state) option" where
  "write_loop s d buffer sz offset bytes_written =
     (if sz > 0 then do {
        (sector_idx, s) \<leftarrow> byte_to_sector s d offset;
        let sector_ofs = offset smod 512;
        let chunk_size = chunk_at d sz offset;
        if chunk_size \<le> 0 then Some (bytes_written, offset, s)
        else do {
          ASSERT (0 \<le> sector_ofs);
          ASSERT (bytes_written + nat chunk_size \<le> length buffer);
          s \<leftarrow> cache_wr s sector_idx (subbuf buffer bytes_written (nat chunk_size)) (nat sector_ofs);
          write_loop s d buffer (sz - chunk_size) (offset + chunk_size) (bytes_written + nat chunk_size)
        }
      } else Some (bytes_written, offset, s))"
  by pat_completeness auto
termination
  by (relation "measure (\<lambda>(s, d, buffer, sz, offset, bytes_written). nat sz)") auto

declare write_loop.simps [simp del]

text \<open>Change the \<open>data\<close> of the inode at \<open>ip\<close>.\<close>

definition set_idata :: "fs_state \<Rightarrow> nat \<Rightarrow> inode_disk \<Rightarrow> fs_state option" where
  "set_idata s ip d = do { i \<leftarrow> get_inode s ip; Some (put_obj s ip (Inode (i\<lparr>idata := d\<rparr>))) }"

text \<open>
  The file is extended before anything is written; a failure of \<open>inode_allocate\<close> is ignored.
\<close>

definition extend_file :: "writer \<Rightarrow> fs_state \<Rightarrow> nat \<Rightarrow> inode \<Rightarrow> off_t \<Rightarrow> fs_state option" where
  "extend_file wr s ip i new_length =
     (if new_length > dlength (idata i) then do {
        (_, d, s) \<leftarrow> inode_allocate wr s (idata i) new_length;
        let d = d\<lparr>dlength := new_length\<rparr>;
        s \<leftarrow> set_idata s ip d;
        cache_wr s (isector i) (enc_inode d) 0
      } else Some s)"

definition inode_write_step :: "writer \<Rightarrow> writer" where
  "inode_write_step wr s ip buffer sz offset = do {
     i \<leftarrow> get_inode s ip;
     if deny_write_cnt i \<noteq> 0 then Some (0, s)
     else do {
       let new_length = offset + sz;
       ASSERT (- OFF_MAX - 1 \<le> new_length \<and> new_length \<le> OFF_MAX);
       s \<leftarrow> extend_file wr s ip i new_length;
       i \<leftarrow> get_inode s ip;
       (bytes_written, offset, s) \<leftarrow> write_loop s (idata i) buffer sz offset 0;
       s \<leftarrow> (if offset > dlength (idata i) then do {
          let d = (idata i)\<lparr>dlength := offset\<rparr>;
          s \<leftarrow> set_idata s ip d;
          cache_wr s (isector i) (enc_inode d) 0
        } else Some s);
       Some (int bytes_written, s)
     }
   }"

fun inode_write_at :: "nat \<Rightarrow> writer" where
  "inode_write_at 0 s ip buffer sz offset = None"
| "inode_write_at (Suc fuel) s ip buffer sz offset =
     inode_write_step (inode_write_at fuel) s ip buffer sz offset"

text \<open>
  The operations below change the file system by way of \<open>inode_write_at\<close>; each call chain enters it
  with this much fuel.
\<close>

definition WRITE_FUEL :: nat where
  "WRITE_FUEL = 2"

definition write_at :: writer where
  "write_at = inode_write_at WRITE_FUEL"

section \<open>Creating, opening and closing inodes\<close>

definition inode_create :: "fs_state \<Rightarrow> block_sector_t \<Rightarrow> off_t \<Rightarrow> bool \<Rightarrow> (bool \<times> fs_state) option" where
  "inode_create s sec len is_dir = do {
     ASSERT (len \<ge> 0);
     if avail s = [] then Some (False, s)
     else do {
       (ok, d, s) \<leftarrow> inode_allocate write_at s
          \<lparr>dlength = len, magic = INODE_MAGIC, directory = is_dir,
           direct_blocks = replicate DIRECT_COUNT 0, indirect_block = 0, double_indirect_block = 0\<rparr> len;
       if ok then do { s \<leftarrow> cache_wr s sec (enc_inode d) 0; Some (True, s) }
       else Some (False, s)
     }
   }"

definition inode_reopen :: "fs_state \<Rightarrow> nat \<Rightarrow> fs_state option" where
  "inode_reopen s ip = (if ip = 0 then Some s else do {
     i \<leftarrow> get_inode s ip;
     ASSERT (open_cnt i < OFF_MAX);
     Some (put_obj s ip (Inode (i\<lparr>open_cnt := open_cnt i + 1\<rparr>)))
   })"

text \<open>The first open inode for the sector.\<close>

fun find_inode :: "fs_state \<Rightarrow> nat list \<Rightarrow> block_sector_t \<Rightarrow> nat option option" where
  "find_inode s [] sec = Some None"
| "find_inode s (p # ps) sec = do {
     i \<leftarrow> get_inode s p;
     if isector i = sec then Some (Some p) else find_inode s ps sec
   }"

definition inode_open :: "fs_state \<Rightarrow> block_sector_t \<Rightarrow> (nat \<times> fs_state) option" where
  "inode_open s sec = do {
     r \<leftarrow> find_inode s (open_inodes s) sec;
     case r of
       Some p \<Rightarrow> do { s \<leftarrow> inode_reopen s p; Some (p, s) }
     | None \<Rightarrow>
         if avail s = [] then Some (0, s)
         else do {
           (bs, s) \<leftarrow> cache_rd s sec 0 BLOCK_SECTOR_SIZE;
           let (p, s) = alloc_obj s (Inode \<lparr>isector = sec, open_cnt = 1, removed = False, deny_write_cnt = 0,
             idata = dec_inode bs\<rparr>);
           Some (p, s\<lparr>open_inodes := p # open_inodes s\<rparr>)
         }
   }"

definition inode_get_inumber :: "fs_state \<Rightarrow> nat \<Rightarrow> block_sector_t option" where
  "inode_get_inumber s ip = do { i \<leftarrow> get_inode s ip; Some (isector i) }"

definition inode_close :: "fs_state \<Rightarrow> nat \<Rightarrow> fs_state option" where
  "inode_close s ip = (if ip = 0 then Some s else do {
     i \<leftarrow> get_inode s ip;
     let i = i\<lparr>open_cnt := open_cnt i - 1\<rparr>;
     let s = put_obj s ip (Inode i);
     if open_cnt i = 0 then do {
       ASSERT (ip \<in> set (open_inodes s));
       let s = s\<lparr>open_inodes := remove1 ip (open_inodes s)\<rparr>;
       s \<leftarrow> (if removed i then do {
          s \<leftarrow> free_map_release write_at (isector i) 1 s;
          inode_deallocate write_at s (idata i) (dlength (idata i))
        } else Some s);
       Some (free_obj s ip)
     } else Some s
   })"

definition inode_remove :: "fs_state \<Rightarrow> nat \<Rightarrow> fs_state option" where
  "inode_remove s ip = do { i \<leftarrow> get_inode s ip; Some (put_obj s ip (Inode (i\<lparr>removed := True\<rparr>))) }"

definition inode_deny_write :: "fs_state \<Rightarrow> nat \<Rightarrow> fs_state option" where
  "inode_deny_write s ip = do {
     i \<leftarrow> get_inode s ip;
     let i = i\<lparr>deny_write_cnt := deny_write_cnt i + 1\<rparr>;
     ASSERT (deny_write_cnt i \<le> open_cnt i);
     Some (put_obj s ip (Inode i))
   }"

definition inode_allow_write :: "fs_state \<Rightarrow> nat \<Rightarrow> fs_state option" where
  "inode_allow_write s ip = do {
     i \<leftarrow> get_inode s ip;
     ASSERT (deny_write_cnt i > 0);
     ASSERT (deny_write_cnt i \<le> open_cnt i);
     Some (put_obj s ip (Inode (i\<lparr>deny_write_cnt := deny_write_cnt i - 1\<rparr>)))
   }"

definition inode_is_dir :: "fs_state \<Rightarrow> nat \<Rightarrow> bool option" where
  "inode_is_dir s ip = (if ip = 0 then Some False else do { i \<leftarrow> get_inode s ip; Some (directory (idata i)) })"

definition inode_is_removed :: "fs_state \<Rightarrow> nat \<Rightarrow> bool option" where
  "inode_is_removed s ip = do { i \<leftarrow> get_inode s ip; Some (removed i) }"

section \<open>Open files\<close>

definition file_open :: "fs_state \<Rightarrow> nat \<Rightarrow> (nat \<times> fs_state) option" where
  "file_open s ip =
     (if ip \<noteq> 0 \<and> avail s \<noteq> [] then Some (alloc_obj s (File \<lparr>finode = ip, fpos = 0, fdeny_write = False\<rparr>))
      else do { s \<leftarrow> inode_close s ip; Some (0, s) })"

definition file_reopen :: "fs_state \<Rightarrow> nat \<Rightarrow> (nat \<times> fs_state) option" where
  "file_reopen s fp = do {
     f \<leftarrow> get_file s fp;
     s \<leftarrow> inode_reopen s (finode f);
     file_open s (finode f)
   }"

definition file_allow_write :: "fs_state \<Rightarrow> nat \<Rightarrow> fs_state option" where
  "file_allow_write s fp = do {
     f \<leftarrow> get_file s fp;
     if fdeny_write f then inode_allow_write (put_obj s fp (File (f\<lparr>fdeny_write := False\<rparr>))) (finode f)
     else Some s
   }"

definition file_deny_write :: "fs_state \<Rightarrow> nat \<Rightarrow> fs_state option" where
  "file_deny_write s fp = do {
     f \<leftarrow> get_file s fp;
     if \<not> fdeny_write f then inode_deny_write (put_obj s fp (File (f\<lparr>fdeny_write := True\<rparr>))) (finode f)
     else Some s
   }"

definition file_close :: "fs_state \<Rightarrow> nat \<Rightarrow> fs_state option" where
  "file_close s fp = (if fp = 0 then Some s else do {
     s \<leftarrow> file_allow_write s fp;
     f \<leftarrow> get_file s fp;
     s \<leftarrow> inode_close s (finode f);
     Some (free_obj s fp)
   })"

definition file_get_inode :: "fs_state \<Rightarrow> nat \<Rightarrow> nat option" where
  "file_get_inode s fp = do { f \<leftarrow> get_file s fp; Some (finode f) }"

text \<open>Advance the position of a file; the sum stays in range as the file itself does.\<close>

definition advance_file :: "fs_state \<Rightarrow> nat \<Rightarrow> off_t \<Rightarrow> fs_state option" where
  "advance_file s fp n = do {
     f \<leftarrow> get_file s fp;
     ASSERT (fpos f + n \<le> OFF_MAX);
     Some (put_obj s fp (File (f\<lparr>fpos := fpos f + n\<rparr>)))
   }"

definition file_read :: "fs_state \<Rightarrow> nat \<Rightarrow> off_t \<Rightarrow> (u8 list \<times> fs_state) option" where
  "file_read s fp sz = do {
     f \<leftarrow> get_file s fp;
     (bs, s) \<leftarrow> inode_read_at s (finode f) sz (fpos f);
     s \<leftarrow> advance_file s fp (int (length bs));
     Some (bs, s)
   }"

definition file_write :: "fs_state \<Rightarrow> nat \<Rightarrow> u8 list \<Rightarrow> off_t \<Rightarrow> (off_t \<times> fs_state) option" where
  "file_write s fp buffer sz = do {
     f \<leftarrow> get_file s fp;
     (n, s) \<leftarrow> write_at s (finode f) buffer sz (fpos f);
     s \<leftarrow> advance_file s fp n;
     Some (n, s)
   }"

definition file_length :: "fs_state \<Rightarrow> nat \<Rightarrow> off_t option" where
  "file_length s fp = do { f \<leftarrow> get_file s fp; i \<leftarrow> get_inode s (finode f); Some (inode_length i) }"

definition file_seek :: "fs_state \<Rightarrow> nat \<Rightarrow> off_t \<Rightarrow> fs_state option" where
  "file_seek s fp new_pos = do {
     f \<leftarrow> get_file s fp;
     ASSERT (new_pos \<ge> 0);
     Some (put_obj s fp (File (f\<lparr>fpos := new_pos\<rparr>)))
   }"

definition file_tell :: "fs_state \<Rightarrow> nat \<Rightarrow> off_t option" where
  "file_tell s fp = do { f \<leftarrow> get_file s fp; Some (fpos f) }"

section \<open>The free map's file\<close>

text \<open>\<open>bitmap_create\<close> with memory whose contents are \<open>junk\<close>; a failure panics.\<close>

definition free_map_init :: "fs_state \<Rightarrow> u32 list \<Rightarrow> fs_state option" where
  "free_map_init s junk = do {
     bm \<leftarrow> bitmap_create True (Some junk) (unat (block_size (fs_device (cch s))));
     bm \<leftarrow> bm;
     bm \<leftarrow> bitmap_mark bm (unat FREE_MAP_SECTOR);
     bm \<leftarrow> bitmap_mark bm (unat ROOT_DIR_SECTOR);
     Some (s\<lparr>free_map := bm\<rparr>)
   }"

definition free_map_open :: "fs_state \<Rightarrow> fs_state option" where
  "free_map_open s = do {
     (ip, s) \<leftarrow> inode_open s FREE_MAP_SECTOR;
     (fp, s) \<leftarrow> file_open s ip;
     ASSERT (fp \<noteq> 0);
     (ok, bm, s) \<leftarrow> bitmap_read s (free_map s) fp;
     ASSERT ok;
     Some (s\<lparr>free_map := bm, free_map_file := fp\<rparr>)
   }"

definition free_map_close :: "fs_state \<Rightarrow> fs_state option" where
  "free_map_close s = file_close s (free_map_file s)"

definition free_map_create :: "fs_state \<Rightarrow> fs_state option" where
  "free_map_create s = do {
     (ok, s) \<leftarrow> inode_create s FREE_MAP_SECTOR (int (bitmap_file_size (free_map s))) False;
     ASSERT ok;
     (ip, s) \<leftarrow> inode_open s FREE_MAP_SECTOR;
     (fp, s) \<leftarrow> file_open s ip;
     ASSERT (fp \<noteq> 0);
     (ok, s) \<leftarrow> bitmap_write write_at (s\<lparr>free_map_file := fp\<rparr>) fp;
     ASSERT ok;
     Some s
   }"

end
