(* ===== verification/Filesys_Directory.thy ===== *)
theory Filesys_Directory
  imports Filesys_Inode
begin

text \<open>
  Directories (\<open>filesys/directory.c\<close>) and paths (\<open>filesys/filesys.c\<close>).

  A directory is a file of 20-byte entries.  A C string is the list of its bytes without the
  terminating 0; the name in an entry is an array of 15 bytes, and reading it as a string is \<open>None\<close>
  when no 0 ends it.  The code writes structures it has only partly initialised: the bytes a local
  variable starts with are the argument \<open>junk\<close>.  Console output is left out, and so are the
  temporary buffers that \<open>filesys.c\<close> allocates for the parts of a path and frees before it returns; the working
  directory of the running thread is the argument \<open>cwd\<close>, a pointer to a directory or 0.
\<close>

section \<open>Directory entries\<close>

type_synonym cstr = "u8 list"

abbreviation NAME_MAX :: nat where
  "NAME_MAX \<equiv> 14"

abbreviation DIR_ENTRY_SIZE :: nat where
  "DIR_ENTRY_SIZE \<equiv> 20"

record dir_entry =
  inode_sector :: block_sector_t
  ename :: "u8 list"
  in_use :: bool

text \<open>The memory layout of \<open>struct dir_entry\<close>, which the code copies to and from a file.\<close>

definition enc_entry :: "dir_entry \<Rightarrow> u8 list" where
  "enc_entry e = enc32 (inode_sector e) @ ename e @ [if in_use e then 1 else 0]"

definition dec_entry :: "u8 list \<Rightarrow> dir_entry" where
  "dec_entry bs = \<lparr>inode_sector = dec32 (take 4 bs), ename = subbuf bs 4 (NAME_MAX + 1), in_use = bs ! 19 \<noteq> 0\<rparr>"

text \<open>The string in an array, and \<open>strlcpy\<close> into an array.\<close>

definition cstring :: "u8 list \<Rightarrow> cstr option" where
  "cstring a = (if 0 \<in> set a then Some (takeWhile (\<lambda>c. c \<noteq> 0) a) else None)"

definition strlcpy_array :: "u8 list \<Rightarrow> cstr \<Rightarrow> u8 list" where
  "strlcpy_array dst src = overwrite dst 0 (take (length dst - 1) src @ [0])"

definition DOT :: cstr where
  "DOT = [46]"

definition DOTDOT :: cstr where
  "DOTDOT = [46, 46]"

section \<open>Opening and closing\<close>

definition dir_open :: "fs_state \<Rightarrow> nat \<Rightarrow> (nat \<times> fs_state) option" where
  "dir_open s ip = (
     let (dp, s) = alloc_obj s (Dir \<lparr>dinode = ip, dpos = 0\<rparr>) in
     if ip \<noteq> 0 \<and> dp \<noteq> 0 then Some (dp, s)
     else do { s \<leftarrow> inode_close s ip; Some (0, free_obj s dp) })"

definition dir_open_root :: "fs_state \<Rightarrow> (nat \<times> fs_state) option" where
  "dir_open_root s = do { (ip, s) \<leftarrow> inode_open s ROOT_DIR_SECTOR; dir_open s ip }"

definition dir_reopen :: "fs_state \<Rightarrow> nat \<Rightarrow> (nat \<times> fs_state) option" where
  "dir_reopen s dp = do {
     d \<leftarrow> get_dir s dp;
     s \<leftarrow> inode_reopen s (dinode d);
     dir_open s (dinode d)
   }"

definition dir_close :: "fs_state \<Rightarrow> nat \<Rightarrow> fs_state option" where
  "dir_close s dp = (if dp = 0 then Some s else do {
     d \<leftarrow> get_dir s dp;
     s \<leftarrow> inode_close s (dinode d);
     Some (free_obj s dp)
   })"

definition dir_get_inode :: "fs_state \<Rightarrow> nat \<Rightarrow> nat option" where
  "dir_get_inode s dp = do { d \<leftarrow> get_dir s dp; Some (dinode d) }"

section \<open>Looking up a name\<close>

text \<open>
  The loops over the entries end at the first read that returns less than an entry.  \<open>lookup\<close> returns
  the entry and its offset; the C function returns \<open>true\<close> and stores them.
\<close>

partial_function (option) lookup_loop :: "fs_state \<Rightarrow> nat \<Rightarrow> cstr \<Rightarrow> off_t \<Rightarrow> ((dir_entry \<times> off_t) option \<times> fs_state) option" where
  "lookup_loop s ip name ofs = do {
     (bs, s) \<leftarrow> inode_read_at s ip (int DIR_ENTRY_SIZE) ofs;
     if length bs = DIR_ENTRY_SIZE then do {
       let e = dec_entry bs;
       found \<leftarrow> (if in_use e then do { n \<leftarrow> cstring (ename e); Some (name = n) } else Some False);
       if found then Some (Some (e, ofs), s) else lookup_loop s ip name (ofs + int DIR_ENTRY_SIZE)
     }
     else Some (None, s)
   }"

definition lookup :: "fs_state \<Rightarrow> nat \<Rightarrow> cstr \<Rightarrow> ((dir_entry \<times> off_t) option \<times> fs_state) option" where
  "lookup s dp name = do {
     ASSERT (dp \<noteq> 0);
     d \<leftarrow> get_dir s dp;
     lookup_loop s (dinode d) name 0
   }"

text \<open>The inode for the name, 0 if there is none.\<close>

definition dir_lookup :: "fs_state \<Rightarrow> nat \<Rightarrow> cstr \<Rightarrow> (nat \<times> fs_state) option" where
  "dir_lookup s dp name = do {
     (r, s) \<leftarrow> lookup s dp name;
     case r of
       Some (e, ofs) \<Rightarrow> inode_open s (inode_sector e)
     | None \<Rightarrow> Some (0, s)
   }"

section \<open>Adding a name\<close>

text \<open>
  The offset of the first entry that is not in use, or of the end of the file, and the bytes that are
  then in the variable \<open>e\<close>.
\<close>

partial_function (option) free_slot :: "fs_state \<Rightarrow> nat \<Rightarrow> u8 list \<Rightarrow> off_t \<Rightarrow> (u8 list \<times> off_t \<times> fs_state) option" where
  "free_slot s ip e ofs = do {
     (bs, s) \<leftarrow> inode_read_at s ip (int DIR_ENTRY_SIZE) ofs;
     let e = overwrite e 0 bs;
     if length bs = DIR_ENTRY_SIZE \<and> in_use (dec_entry e) then free_slot s ip e (ofs + int DIR_ENTRY_SIZE)
     else Some (e, ofs, s)
   }"

definition write_entry :: "fs_state \<Rightarrow> nat \<Rightarrow> u8 list \<Rightarrow> cstr \<Rightarrow> block_sector_t \<Rightarrow> off_t \<Rightarrow> (bool \<times> fs_state) option" where
  "write_entry s ip old name sec ofs = do {
     let e = \<lparr>inode_sector = sec, ename = strlcpy_array (ename (dec_entry old)) name, in_use = True\<rparr>;
     (n, s) \<leftarrow> write_at s ip (enc_entry e) (int DIR_ENTRY_SIZE) ofs;
     Some (n = int DIR_ENTRY_SIZE, s)
   }"

text \<open>The entries for the directory itself and its parent in a new directory.\<close>

definition add_dots :: "fs_state \<Rightarrow> nat \<Rightarrow> block_sector_t \<Rightarrow> (nat \<Rightarrow> u8 list) \<Rightarrow> (bool \<times> fs_state) option" where
  "add_dots s ip sec junk = do {
     (sip, s) \<leftarrow> inode_open s sec;
     (sub_dir, s) \<leftarrow> dir_open s sip;
     if sub_dir = 0 then Some (False, s)
     else do {
       d \<leftarrow> get_dir s sub_dir;
       (ok, s) \<leftarrow> write_entry s (dinode d) (junk 1) DOT sec 0;
       if \<not> ok then do { s \<leftarrow> dir_close s sub_dir; Some (False, s) }
       else do {
         parent \<leftarrow> inode_get_inumber s ip;
         (ok, s) \<leftarrow> write_entry s (dinode d) (junk 2) DOTDOT parent (int DIR_ENTRY_SIZE);
         s \<leftarrow> dir_close s sub_dir;
         Some (ok, s)
       }
     }
   }"

definition dir_add :: "fs_state \<Rightarrow> nat \<Rightarrow> cstr \<Rightarrow> block_sector_t \<Rightarrow> bool \<Rightarrow> (nat \<Rightarrow> u8 list) \<Rightarrow> (bool \<times> fs_state) option" where
  "dir_add s dp name sec is_dir junk = do {
     ASSERT (dp \<noteq> 0);
     if name = [] \<or> length name > NAME_MAX then Some (False, s)
     else do {
       (r, s) \<leftarrow> lookup s dp name;
       if r \<noteq> None then Some (False, s)
       else do {
         d \<leftarrow> get_dir s dp;
         (e, ofs, s) \<leftarrow> free_slot s (dinode d) (junk 0) 0;
         (ok, s) \<leftarrow> write_entry s (dinode d) e name sec ofs;
         if \<not> ok then Some (False, s)
         else if is_dir then add_dots s (dinode d) sec junk
         else Some (True, s)
       }
     }
   }"

section \<open>Removing a name\<close>

definition special_entry :: "dir_entry \<Rightarrow> bool option" where
  "special_entry e = (if in_use e then do { n \<leftarrow> cstring (ename e); Some (n = DOT \<or> n = DOTDOT) } else Some True)"

partial_function (option) is_empty_loop :: "fs_state \<Rightarrow> nat \<Rightarrow> off_t \<Rightarrow> (bool \<times> fs_state) option" where
  "is_empty_loop s ip ofs = do {
     (bs, s) \<leftarrow> inode_read_at s ip (int DIR_ENTRY_SIZE) ofs;
     if length bs = DIR_ENTRY_SIZE then do {
       special \<leftarrow> special_entry (dec_entry bs);
       if special then is_empty_loop s ip (ofs + int DIR_ENTRY_SIZE) else Some (False, s)
     }
     else Some (True, s)
   }"

definition dir_is_empty :: "fs_state \<Rightarrow> nat \<Rightarrow> (bool \<times> fs_state) option" where
  "dir_is_empty s dp = do {
     ASSERT (dp \<noteq> 0);
     d \<leftarrow> get_dir s dp;
     is_empty_loop s (dinode d) 0
   }"

text \<open>
  The inode of a directory is given to \<open>dir_open\<close> and closed with it, and is then used and closed once more.
\<close>

definition remove_entry :: "fs_state \<Rightarrow> nat \<Rightarrow> nat \<Rightarrow> dir_entry \<Rightarrow> off_t \<Rightarrow> (bool \<times> fs_state) option" where
  "remove_entry s dp ip e ofs = do {
     d \<leftarrow> get_dir s dp;
     (n, s) \<leftarrow> write_at s (dinode d) (enc_entry (e\<lparr>in_use := False\<rparr>)) (int DIR_ENTRY_SIZE) ofs;
     if n \<noteq> int DIR_ENTRY_SIZE then do { s \<leftarrow> inode_close s ip; Some (False, s) }
     else do {
       s \<leftarrow> inode_remove s ip;
       s \<leftarrow> inode_close s ip;
       c \<leftarrow> buffer_cache_close (cch s);
       Some (True, s\<lparr>cch := c\<rparr>)
     }
   }"

definition remove_inode :: "fs_state \<Rightarrow> nat \<Rightarrow> nat \<Rightarrow> dir_entry \<Rightarrow> off_t \<Rightarrow> (bool \<times> fs_state) option" where
  "remove_inode s dp ip e ofs = do {
     is_dir \<leftarrow> inode_is_dir s ip;
     if is_dir then do {
       (sub_dir, s) \<leftarrow> dir_open s ip;
       (empty, s) \<leftarrow> dir_is_empty s sub_dir;
       s \<leftarrow> dir_close s sub_dir;
       if empty then remove_entry s dp ip e ofs
       else do { s \<leftarrow> inode_close s ip; Some (False, s) }
     }
     else remove_entry s dp ip e ofs
   }"

definition dir_remove :: "fs_state \<Rightarrow> nat \<Rightarrow> cstr \<Rightarrow> (bool \<times> fs_state) option" where
  "dir_remove s dp name = do {
     (r, s) \<leftarrow> lookup s dp name;
     case r of
       None \<Rightarrow> Some (False, s)
     | Some (e, ofs) \<Rightarrow> do {
         (ip, s) \<leftarrow> inode_open s (inode_sector e);
         if ip = 0 then Some (False, s) else remove_inode s dp ip e ofs
       }
   }"

section \<open>Reading and creating directories\<close>

partial_function (option) readdir_loop :: "fs_state \<Rightarrow> nat \<Rightarrow> (cstr option \<times> fs_state) option" where
  "readdir_loop s dp = do {
     d \<leftarrow> get_dir s dp;
     (bs, s) \<leftarrow> inode_read_at s (dinode d) (int DIR_ENTRY_SIZE) (dpos d);
     if length bs = DIR_ENTRY_SIZE then do {
       let s = put_obj s dp (Dir (d\<lparr>dpos := dpos d + int DIR_ENTRY_SIZE\<rparr>));
       special \<leftarrow> special_entry (dec_entry bs);
       if special then readdir_loop s dp
       else Some (cstring (ename (dec_entry bs)), s)
     }
     else Some (None, s)
   }"

definition dir_readdir :: "fs_state \<Rightarrow> nat \<Rightarrow> (cstr option \<times> fs_state) option" where
  "dir_readdir s dp = readdir_loop s dp"

definition blank_entry :: "u8 list" where
  "blank_entry = replicate DIR_ENTRY_SIZE 0"

definition dir_create :: "fs_state \<Rightarrow> block_sector_t \<Rightarrow> nat \<Rightarrow> (bool \<times> fs_state) option" where
  "dir_create s sec entry_cnt = do {
     (created, s) \<leftarrow> inode_create s sec (int (entry_cnt * DIR_ENTRY_SIZE)) True;
     if \<not> created then Some (False, s)
     else do {
       (ip, s) \<leftarrow> inode_open s sec;
       (dp, s) \<leftarrow> dir_open s ip;
       if dp = 0 then Some (False, s)
       else do {
         d \<leftarrow> get_dir s dp;
         (_, s) \<leftarrow> write_entry s (dinode d) blank_entry DOT sec 0;
         parent \<leftarrow> inode_get_inumber s (dinode d);
         (_, s) \<leftarrow> write_entry s (dinode d) blank_entry DOTDOT parent (int DIR_ENTRY_SIZE);
         s \<leftarrow> dir_close s dp;
         c \<leftarrow> buffer_cache_close (cch s);
         Some (True, s\<lparr>cch := c\<rparr>)
       }
     }
   }"

section \<open>Paths\<close>

definition SLASH :: u8 where
  "SLASH = 47"

text \<open>Everything before the last slash and after it; the base name is cut to \<open>NAME_MAX\<close> bytes.\<close>

definition split_path :: "cstr \<Rightarrow> (cstr \<times> cstr) option" where
  "split_path path =
     (if path = [] then None
      else if SLASH \<notin> set path then Some ([], take NAME_MAX path)
      else let base = rev (takeWhile (\<lambda>c. c \<noteq> SLASH) (rev path));
               dir_len = length path - length base - 1
           in if dir_len > NAME_MAX then None else Some (take dir_len path, take NAME_MAX base))"

text \<open>The tokens between slashes, as repeated calls of \<open>strtok_r\<close> return them.\<close>

function path_tokens :: "cstr \<Rightarrow> cstr list" where
  "path_tokens s = (
     let s = dropWhile (\<lambda>c. c = SLASH) s in
     if s = [] then []
     else takeWhile (\<lambda>c. c \<noteq> SLASH) s # path_tokens (dropWhile (\<lambda>c. c \<noteq> SLASH) s))"
  by pat_completeness auto
termination
proof (relation "measure length", simp)
  fix s x :: "u8 list"
  assume x: "x = dropWhile (\<lambda>c. c = SLASH) s" "x \<noteq> []"
  then have "hd x \<noteq> SLASH" using hd_dropWhile [of "\<lambda>c. c = SLASH" s] by simp
  then have "dropWhile (\<lambda>c. c \<noteq> SLASH) x = dropWhile (\<lambda>c. c \<noteq> SLASH) (tl x)" using x(2) by (cases x) auto
  then have "length (dropWhile (\<lambda>c. c \<noteq> SLASH) x) < length x"
    using x(2) length_dropWhile_le [of "\<lambda>c. c \<noteq> SLASH" "tl x"] by (cases x) auto
  moreover have "length x \<le> length s" using x(1) length_dropWhile_le by simp
  ultimately show "(dropWhile (\<lambda>c. c \<noteq> SLASH) x, s) \<in> measure length" by simp
qed

declare path_tokens.simps [simp del]

fun walk :: "fs_state \<Rightarrow> nat \<Rightarrow> cstr list \<Rightarrow> (nat \<times> fs_state) option" where
  "walk s cur_dir [] = do {
     ip \<leftarrow> dir_get_inode s cur_dir;
     gone \<leftarrow> inode_is_removed s ip;
     if gone then do { s \<leftarrow> dir_close s cur_dir; Some (0, s) } else Some (cur_dir, s)
   }"
| "walk s cur_dir (token # tokens) = do {
     (ip, s) \<leftarrow> dir_lookup s cur_dir token;
     if ip = 0 then do { s \<leftarrow> dir_close s cur_dir; Some (0, s) }
     else do {
       (next_dir, s) \<leftarrow> dir_open s ip;
       s \<leftarrow> dir_close s cur_dir;
       if next_dir = 0 then Some (0, s) else walk s next_dir tokens
     }
   }"

definition dir_open_path :: "nat \<Rightarrow> fs_state \<Rightarrow> cstr \<Rightarrow> (nat \<times> fs_state) option" where
  "dir_open_path cwd s path = do {
     (cur_dir, s) \<leftarrow> (if path \<noteq> [] \<and> hd path = SLASH then dir_open_root s
                  else if cwd \<noteq> 0 then dir_reopen s cwd else dir_open_root s);
     if cur_dir = 0 then Some (0, s) else walk s cur_dir (path_tokens path)
   }"

text \<open>A helper that is not called.\<close>

definition get_next_part :: "cstr \<Rightarrow> (cstr \<times> cstr) option" where
  "get_next_part src = (
     let src = dropWhile (\<lambda>c. c = SLASH) src in
     if src = [] then None
     else Some (take NAME_MAX (takeWhile (\<lambda>c. c \<noteq> SLASH) src), dropWhile (\<lambda>c. c \<noteq> SLASH) src))"

section \<open>The file system\<close>

definition filesys_create :: "nat \<Rightarrow> fs_state \<Rightarrow> cstr \<Rightarrow> off_t \<Rightarrow> bool \<Rightarrow> (nat \<Rightarrow> u8 list) \<Rightarrow> (bool \<times> fs_state) option" where
  "filesys_create cwd s name initial_size is_dir junk =
     (case split_path name of
        None \<Rightarrow> Some (False, s)
      | Some (dir_name, base_name) \<Rightarrow> do {
          (dp, s) \<leftarrow> dir_open_path cwd s dir_name;
          if dp = 0 then Some (False, s)
          else do {
            (r, s) \<leftarrow> free_map_allocate write_at 1 s;
            (success, s) \<leftarrow> (case r of
                None \<Rightarrow> Some (False, s)
              | Some sec \<Rightarrow> do {
                  (ok, s) \<leftarrow> inode_create s sec initial_size is_dir;
                  (ok, s) \<leftarrow> (if ok then dir_add s dp base_name sec is_dir junk else Some (False, s));
                  s \<leftarrow> (if \<not> ok \<and> sec \<noteq> 0 then free_map_release write_at sec 1 s else Some s);
                  Some (ok, s)
                });
            s \<leftarrow> dir_close s dp;
            Some (success, s)
          }
        })"

definition filesys_open :: "nat \<Rightarrow> fs_state \<Rightarrow> cstr \<Rightarrow> (nat \<times> fs_state) option" where
  "filesys_open cwd s name =
     (case split_path name of
        None \<Rightarrow> Some (0, s)
      | Some (dir_name, base_name) \<Rightarrow> do {
          (dp, s) \<leftarrow> dir_open_path cwd s dir_name;
          (ip, s) \<leftarrow> (if dp \<noteq> 0 then do {
             (ip, s) \<leftarrow> dir_lookup s dp base_name;
             s \<leftarrow> dir_close s dp;
             Some (ip, s)
           } else Some (0, s));
          file_open s ip
        })"

definition filesys_remove :: "nat \<Rightarrow> fs_state \<Rightarrow> cstr \<Rightarrow> (bool \<times> fs_state) option" where
  "filesys_remove cwd s name =
     (case split_path name of
        None \<Rightarrow> Some (False, s)
      | Some (dir_name, base_name) \<Rightarrow> do {
          (dp, s) \<leftarrow> dir_open_path cwd s dir_name;
          (success, s) \<leftarrow> (if dp \<noteq> 0 then do {
             (success, s) \<leftarrow> dir_remove s dp base_name;
             s \<leftarrow> dir_close s dp;
             Some (success, s)
           } else Some (False, s));
          s \<leftarrow> (if success then do { c \<leftarrow> buffer_cache_close (cch s); Some (s\<lparr>cch := c\<rparr>) } else Some s);
          Some (success, s)
        })"

definition do_format :: "fs_state \<Rightarrow> fs_state option" where
  "do_format s = do {
     s \<leftarrow> free_map_create s;
     (ok, s) \<leftarrow> dir_create s ROOT_DIR_SECTOR 16;
     ASSERT ok;
     free_map_close s
   }"

text \<open>
  \<open>junk\<close> is what the memory for the free map and the cache entries holds.  Nothing is open yet, so the list of open inodes
  becomes empty.
\<close>

definition filesys_init :: "fs_state \<Rightarrow> bool \<Rightarrow> u32 list \<Rightarrow> (nat \<Rightarrow> u8 list) \<Rightarrow> fs_state option" where
  "filesys_init s format junk buf_junk = do {
     s \<leftarrow> free_map_init (s\<lparr>open_inodes := []\<rparr>) junk;
     let s = s\<lparr>cch := buffer_cache_init (fs_device (cch s)) buf_junk\<rparr>;
     s \<leftarrow> (if format then do_format s else Some s);
     free_map_open s
   }"

text \<open>The line that looks like a call of \<open>buffer_cache_close\<close> declares that function.\<close>

definition filesys_done :: "fs_state \<Rightarrow> fs_state option" where
  "filesys_done s = free_map_close s"

end
