(* ===== verification/Filesys_Contents.thy ===== *)
theory Filesys_Contents
  imports Filesys_Inode
begin

text \<open>
  What the inode operations do to the contents of a file.

  \<open>file_bytes v d\<close> is the sequence of bytes the on-disk inode \<open>d\<close> stands for when \<open>v\<close> is the array of
  sectors.  \<open>inode_ok\<close> says that the inode is well-formed: its blocks are existing, pairwise different
  sectors.  Reading returns a part of the contents, and writing inside the file overwrites a part of
  them and nothing else on the disk.
\<close>

section \<open>The on-disk layout\<close>

text \<open>An on-disk inode whose fields have the sizes the C structure gives them.\<close>

definition inode_fits :: "inode_disk \<Rightarrow> bool" where
  "inode_fits d \<longleftrightarrow> - OFF_MAX - 1 \<le> dlength d \<and> dlength d \<le> OFF_MAX \<and> length (direct_blocks d) = DIRECT_COUNT"

lemma length_enc_inode: "inode_fits d \<Longrightarrow> length (enc_inode d) = BLOCK_SECTOR_SIZE"
  by (simp add: enc_inode_def inode_fits_def)

lemma sint_of_off_t: "- OFF_MAX - 1 \<le> k \<Longrightarrow> k \<le> OFF_MAX \<Longrightarrow> sint (word_of_int k :: u32) = k"
  by (simp add: signed_of_int signed_take_bit_int_eq_self)

lemma dec_enc_inode:
  assumes "inode_fits d"
  shows "dec_inode (enc_inode d) = d"
proof -
  have l: "length (direct_blocks d) = DIRECT_COUNT" and k: "sint (word_of_int (dlength d) :: u32) = dlength d"
    using assms by (simp_all add: inode_fits_def sint_of_off_t)
  let ?h = "enc32 (word_of_int (dlength d)) @ enc32 (magic d) @ [if directory d then 1 else 0, 0, 0, 0]"
  let ?t = "enc32 (indirect_block d) @ enc32 (double_indirect_block d)"
  have e: "enc_inode d = ?h @ enc32s (direct_blocks d) @ ?t" by (simp add: enc_inode_def)
  have h: "length ?h = 12" by simp
  have "take 4 (enc_inode d) = enc32 (word_of_int (dlength d))" by (simp add: enc_inode_def)
  moreover have "subbuf (enc_inode d) 4 4 = enc32 (magic d)" by (simp add: enc_inode_def subbuf_def)
  moreover have "enc_inode d ! 8 = (if directory d then 1 else 0)"
    by (simp add: enc_inode_def nth_append)
  moreover have "dec32s DIRECT_COUNT (drop 12 (enc_inode d)) = direct_blocks d"
    unfolding e using h l dec32s_enc32s [of "direct_blocks d" ?t] by simp
  moreover have "subbuf (enc_inode d) 504 4 = enc32 (indirect_block d)"
    "subbuf (enc_inode d) 508 4 = enc32 (double_indirect_block d)"
    using l by (simp_all add: enc_inode_def subbuf_def)
  ultimately show ?thesis by (simp add: dec_inode_def k)
qed

section \<open>Sequences of sectors\<close>

lemma subbuf_append_right: "n \<ge> length xs \<Longrightarrow> subbuf (xs @ ys) n k = subbuf ys (n - length xs) k"
  by (simp add: subbuf_def)

lemma subbuf_add: "subbuf xs o1 (a + b) = subbuf xs o1 a @ subbuf xs (o1 + a) b"
  by (simp add: subbuf_def take_add add.commute)

lemma subbuf_take: "o1 + n \<le> k \<Longrightarrow> subbuf (take k xs) o1 n = subbuf xs o1 n"
  by (simp add: subbuf_def drop_take min_def)

lemma length_concat_sectors: "\<forall>x \<in> set xss. length x = 512 \<Longrightarrow> length (concat xss) = 512 * length xss"
  by (induction xss) auto

lemma nth_concat_sectors:
  "\<forall>x \<in> set xss. length x = 512 \<Longrightarrow> k < 512 * length xss \<Longrightarrow> concat xss ! k = xss ! (k div 512) ! (k mod 512)"
proof (induction xss arbitrary: k)
  case (Cons x xss)
  show ?case
  proof (cases "k < 512")
    case False
    then obtain j where j: "k = 512 + j" by (metis le_Suc_ex not_less)
    then have "k div 512 = Suc (j div 512)" "k mod 512 = j mod 512" by simp_all
    then show ?thesis using Cons.IH [of j] Cons.prems j by (simp add: nth_append)
  qed (use Cons.prems in \<open>simp add: nth_append\<close>)
qed simp

text \<open>A part that lies inside the \<open>i\<close>-th sector.\<close>

lemma subbuf_concat:
  assumes len: "\<forall>x \<in> set xss. length x = 512" and i: "i < length xss" and r: "r + n \<le> 512"
  shows "subbuf (concat xss) (512 * i + r) n = subbuf (xss ! i) r n"
proof (rule nth_equalityI)
  have l: "length (concat xss) = 512 * length xss" by (rule length_concat_sectors [OF len])
  have x: "length (xss ! i) = 512" using len i by auto
  have "512 * i + r + n \<le> 512 * (i + 1)" using r by simp
  also have "\<dots> \<le> 512 * length xss" using i by (intro mult_le_mono) auto
  finally have b: "512 * i + r + n \<le> 512 * length xss" .
  show "length (subbuf (concat xss) (512 * i + r) n) = length (subbuf (xss ! i) r n)"
    using b l x r by simp
  fix k assume "k < length (subbuf (concat xss) (512 * i + r) n)"
  then have k: "k < n" using b l by simp
  have "(512 * i + (r + k)) div 512 = i" "(512 * i + (r + k)) mod 512 = r + k" using k r by simp_all
  then show "subbuf (concat xss) (512 * i + r) n ! k = subbuf (xss ! i) r n ! k"
    using k b l x r nth_concat_sectors [OF len, of "512 * i + (r + k)"] by (simp add: add.assoc)
qed

lemma overwrite_concat:
  assumes len: "\<forall>x \<in> set xss. length x = 512" and i: "i < length xss" and r: "r + length d \<le> 512"
  shows "concat (xss[i := overwrite (xss ! i) r d]) = overwrite (concat xss) (512 * i + r) d"
proof -
  let ?y = "xss[i := overwrite (xss ! i) r d]"
  have x: "length (xss ! i) = 512" using len i by auto
  have len': "\<forall>x \<in> set ?y. length x = 512"
    using set_update_subset_insert [of xss i "overwrite (xss ! i) r d"] len x r by auto
  have l: "length (concat xss) = 512 * length xss" "length (concat ?y) = 512 * length xss"
    using length_concat_sectors [OF len] length_concat_sectors [OF len'] by simp_all
  have b: "512 * i + r + length d \<le> 512 * length xss"
  proof -
    have "512 * i + r + length d \<le> 512 * (i + 1)" using r by simp
    also have "\<dots> \<le> 512 * length xss" using i by (intro mult_le_mono) auto
    finally show ?thesis .
  qed
  show ?thesis
  proof (rule nth_equalityI)
    show "length (concat ?y) = length (overwrite (concat xss) (512 * i + r) d)" using l b by simp
    fix k assume "k < length (concat ?y)"
    then have k: "k < 512 * length xss" using l by simp
    have dm: "k = 512 * (k div 512) + k mod 512" by simp
    show "concat ?y ! k = overwrite (concat xss) (512 * i + r) d ! k"
    proof (cases "k div 512 = i")
      case True
      have m: "k mod 512 < 512" by simp
      have "k - (512 * i + r) = k mod 512 - r" "512 * i + r \<le> k \<longleftrightarrow> r \<le> k mod 512"
        "k < 512 * i + r + length d \<longleftrightarrow> k mod 512 < r + length d"
        using True dm by linarith+
      then show ?thesis
        using True nth_concat_sectors [OF len', of k] nth_concat_sectors [OF len, of k] k l b x r i m
        by (simp add: nth_overwrite)
    next
      case False
      have "\<not> (512 * i + r \<le> k \<and> k < 512 * i + r + length d)"
      proof
        assume "512 * i + r \<le> k \<and> k < 512 * i + r + length d"
        then have "512 * i \<le> k" "k < 512 * i + 512" using r by linarith+
        then have "k div 512 = i" by (simp add: div_nat_eqI)
        then show False using False by simp
      qed
      then show ?thesis
        using False nth_concat_sectors [OF len', of k] nth_concat_sectors [OF len, of k] k l b
        by (auto simp: nth_overwrite)
    qed
  qed
qed

section \<open>The contents of a file\<close>

abbreviation vw :: "fs_state \<Rightarrow> block_sector_t \<Rightarrow> u8 list" where
  "vw s \<equiv> disk_view (cch s)"

abbreviation nsec :: "fs_state \<Rightarrow> block_sector_t" where
  "nsec s \<equiv> blk_size (fs_device (cch s))"

definition sectors_of :: "(block_sector_t \<Rightarrow> u8 list) \<Rightarrow> inode_disk \<Rightarrow> block_sector_t list" where
  "sectors_of v d = direct_blocks d @ dec32s INDIRECT_COUNT (v (indirect_block d))"

definition nsecs :: "inode_disk \<Rightarrow> nat" where
  "nsecs d = nat ((dlength d + 511) div 512)"

definition data_sectors :: "(block_sector_t \<Rightarrow> u8 list) \<Rightarrow> inode_disk \<Rightarrow> block_sector_t list" where
  "data_sectors v d = take (nsecs d) (sectors_of v d)"

text \<open>The sector that holds the numbers of the indirect blocks is in use once there are any.\<close>

definition index_blocks :: "inode_disk \<Rightarrow> block_sector_t list" where
  "index_blocks d = (if nsecs d > DIRECT_COUNT then [indirect_block d] else [])"

abbreviation blocks_of :: "(block_sector_t \<Rightarrow> u8 list) \<Rightarrow> inode_disk \<Rightarrow> block_sector_t list" where
  "blocks_of v d \<equiv> data_sectors v d @ index_blocks d"

definition inode_ok :: "(block_sector_t \<Rightarrow> u8 list) \<Rightarrow> block_sector_t \<Rightarrow> inode_disk \<Rightarrow> bool" where
  "inode_ok v n d \<longleftrightarrow> inode_fits d \<and> 0 \<le> dlength d \<and> nsecs d \<le> DIRECT_COUNT + INDIRECT_COUNT
     \<and> distinct (blocks_of v d) \<and> (\<forall>b \<in> set (blocks_of v d). b < n)"

definition raw_bytes :: "(block_sector_t \<Rightarrow> u8 list) \<Rightarrow> inode_disk \<Rightarrow> u8 list" where
  "raw_bytes v d = concat (map v (data_sectors v d))"

definition file_bytes :: "(block_sector_t \<Rightarrow> u8 list) \<Rightarrow> inode_disk \<Rightarrow> u8 list" where
  "file_bytes v d = take (nat (dlength d)) (raw_bytes v d)"

lemma sdiv_pos: "0 \<le> k \<Longrightarrow> k sdiv 512 = k div (512 :: int)"
  by (cases "k = 0") (simp_all add: signed_divide_int_def sgn_if)

lemma smod_pos: "0 \<le> k \<Longrightarrow> k smod 512 = k mod (512 :: int)"
  by (cases "k = 0") (simp_all add: signed_modulo_int_def sgn_if)

lemma inode_okD:
  assumes "inode_ok v n d"
  shows "length (direct_blocks d) = DIRECT_COUNT" "0 \<le> dlength d" "dlength d \<le> OFF_MAX"
    "nsecs d \<le> 251" "distinct (blocks_of v d)" "\<And>b. b \<in> set (blocks_of v d) \<Longrightarrow> b < n"
  using assms by (auto simp: inode_ok_def inode_fits_def)

lemma length_data_sectors: "inode_ok v n d \<Longrightarrow> length (data_sectors v d) = nsecs d"
  using inode_okD(1,4) [of v n d] by (simp add: data_sectors_def sectors_of_def)

lemma pos_in_sectors:
  assumes "0 \<le> pos" "pos < dlength d"
  shows "nat (pos div 512) < nsecs d"
proof -
  have "pos div 512 < (dlength d + 511) div 512" using assms by linarith
  then show ?thesis using assms by (simp add: nsecs_def nat_less_eq_zless)
qed

lemma sectors_cover: "0 \<le> dlength d \<Longrightarrow> nat (dlength d) \<le> 512 * nsecs d"
  by (simp add: nsecs_def nat_le_iff) linarith

lemma length_file_bytes:
  assumes "inode_ok v n d" "\<forall>x < n. length (v x) = 512"
  shows "length (file_bytes v d) = nat (dlength d)"
proof -
  have "\<forall>x \<in> set (map v (data_sectors v d)). length x = 512" using inode_okD(6) [OF assms(1)] assms(2) by auto
  from length_concat_sectors [OF this] show ?thesis
    using length_data_sectors [OF assms(1)] sectors_cover [OF inode_okD(2) [OF assms(1)]]
    by (simp add: file_bytes_def raw_bytes_def)
qed

text \<open>The state after an operation that only used the cache.\<close>

definition cached :: "fs_state \<Rightarrow> fs_state \<Rightarrow> (block_sector_t \<Rightarrow> u8 list) \<Rightarrow> bool" where
  "cached s s' v \<longleftrightarrow> (\<exists>c. s' = s\<lparr>cch := c\<rparr> \<and> cache_ok c \<and> disk_view c = v \<and> blk_size (fs_device c) = nsec s)"

lemma cachedD:
  assumes "cached s s' v"
  shows "cache_ok (cch s')" "vw s' = v" "nsec s' = nsec s" "objs s' = objs s" "free_map s' = free_map s"
    "free_map_file s' = free_map_file s" "open_inodes s' = open_inodes s" "avail s' = avail s"
    "get_inode s' = get_inode s" "get_file s' = get_file s" "get_dir s' = get_dir s"
  using assms by (auto simp: cached_def get_inode_def get_file_def get_dir_def fun_eq_iff)

lemma cached_refl: "cache_ok (cch s) \<Longrightarrow> cached s s (vw s)"
  unfolding cached_def by (intro exI [of _ "cch s"]) simp

lemma cached_trans: "cached s s1 v \<Longrightarrow> cached s1 s2 w \<Longrightarrow> cached s s2 w"
  by (auto simp: cached_def)

lemma cache_rd_rep:
  assumes "cache_ok (cch s)" "x < nsec s" "ofs + n \<le> 512"
  shows "\<exists>s'. cache_rd s x ofs n = Some (subbuf (vw s x) ofs n, s') \<and> cached s s' (vw s)"
  using cached_disk.rd_law [OF assms] by (auto simp: cache_rd_def cached_def)

lemma cache_wr_rep:
  assumes "cache_ok (cch s)" "x < nsec s" "ofs + length b \<le> 512"
  shows "\<exists>s'. cache_wr s x b ofs = Some s' \<and> cached s s' ((vw s)(x := overwrite (vw s x) ofs b))"
  using cached_disk.wr_law [OF assms] by (auto simp: cache_wr_def cached_def)

lemma byte_to_sector_rep:
  assumes ok: "cache_ok (cch s)" "inode_ok (vw s) (nsec s) d" and pos: "0 \<le> pos" "pos < dlength d"
  shows "\<exists>s'. byte_to_sector s d pos = Some (data_sectors (vw s) d ! nat (pos div 512), s') \<and> cached s s' (vw s)"
proof -
  let ?k = "pos div 512"
  have k: "0 \<le> ?k" "nat ?k < nsecs d" using pos pos_in_sectors by (simp_all add: pos_imp_zdiv_nonneg_iff)
  have eq: "byte_to_sector s d pos = get_index_sector s d ?k" using pos by (simp add: byte_to_sector_def sdiv_pos)
  have nth: "data_sectors (vw s) d ! nat ?k = sectors_of (vw s) d ! nat ?k" using k by (simp add: data_sectors_def)
  have len: "length (direct_blocks d) = 123" "nsecs d \<le> 251" using inode_okD [OF ok(2)] by simp_all
  show ?thesis
  proof (cases "?k < 123")
    case True
    then have "sectors_of (vw s) d ! nat ?k = direct_blocks d ! nat ?k"
      using len(1) k(1) by (simp add: sectors_of_def nth_append nat_less_iff)
    then show ?thesis using True k(1) cached_refl [OF ok(1)] unfolding eq nth
      by (auto simp: get_index_sector_def)
  next
    case False
    then have n: "nsecs d > 123" using k by linarith
    then have "indirect_block d < nsec s" using inode_okD(6) [OF ok(2), of "indirect_block d"] by (simp add: index_blocks_def)
    then obtain s' where r: "cache_rd s (indirect_block d) 0 512 = Some (subbuf (vw s (indirect_block d)) 0 512, s')"
      "cached s s' (vw s)"
      using cache_rd_rep [OF ok(1), of "indirect_block d" 0 512] by auto
    have l: "length (vw s (indirect_block d)) = 512"
      using cache_view_length [OF ok(1)] \<open>indirect_block d < nsec s\<close> by simp
    have "nat (?k - 123) = nat ?k - 123" using False by simp
    then have "sectors_of (vw s) d ! nat ?k = dec32s 128 (vw s (indirect_block d)) ! nat (?k - 123)"
      using len(1) False by (simp add: sectors_of_def nth_append nat_less_iff)
    moreover have "?k - 123 < 128" using k len(2) by linarith
    ultimately show ?thesis using False r l unfolding eq nth by (simp add: get_index_sector_def)
  qed
qed

lemma chunk_at_bounds:
  assumes "0 \<le> ofs" "ofs < dlength d" "0 < sz"
  shows "0 < chunk_at d sz ofs" "chunk_at d sz ofs \<le> sz" "ofs + chunk_at d sz ofs \<le> dlength d"
    "ofs mod 512 + chunk_at d sz ofs \<le> 512"
proof -
  have "ofs mod 512 < 512" by simp
  then show "0 < chunk_at d sz ofs" "chunk_at d sz ofs \<le> sz" "ofs + chunk_at d sz ofs \<le> dlength d"
    "ofs mod 512 + chunk_at d sz ofs \<le> 512"
    using assms by (auto simp: chunk_at_def Let_def smod_pos)
qed

section \<open>Reading\<close>

lemma nat_split_512: "0 \<le> ofs \<Longrightarrow> nat ofs = 512 * nat (ofs div 512) + nat (ofs mod 512)"
proof -
  assume "0 \<le> ofs"
  then obtain m where m: "ofs = int m" by (rule nonneg_int_cases)
  have "int m div 512 = int (m div 512)" "int m mod 512 = int (m mod 512)" by (simp_all add: zdiv_int zmod_int)
  then show ?thesis by (simp add: m)
qed

text \<open>A chunk of the contents is a part of one sector.\<close>

lemma file_chunk:
  assumes ok: "inode_ok v n d" "\<forall>x < n. length (v x) = 512"
    and b: "0 \<le> ofs" "ofs < dlength d" "0 \<le> ch" "ofs + ch \<le> dlength d" "ofs mod 512 + ch \<le> 512"
  shows "subbuf (file_bytes v d) (nat ofs) (nat ch) =
    subbuf (v (data_sectors v d ! nat (ofs div 512))) (nat (ofs mod 512)) (nat ch)"
proof -
  let ?ds = "data_sectors v d" and ?i = "nat (ofs div 512)" and ?r = "nat (ofs mod 512)"
  have len: "\<forall>x \<in> set (map v ?ds). length x = 512" using inode_okD(6) [OF ok(1)] ok(2) by auto
  have i: "?i < length (map v ?ds)" using pos_in_sectors [OF b(1,2)] length_data_sectors [OF ok(1)] by simp
  have r: "?r + nat ch \<le> 512" using b(3,5) by simp
  have "nat ofs + nat ch \<le> nat (dlength d)" using b by simp
  then have "subbuf (file_bytes v d) (nat ofs) (nat ch) = subbuf (concat (map v ?ds)) (nat ofs) (nat ch)"
    unfolding file_bytes_def raw_bytes_def by (rule subbuf_take)
  also have "\<dots> = subbuf (map v ?ds ! ?i) ?r (nat ch)"
    unfolding nat_split_512 [OF b(1)] by (rule subbuf_concat [OF len i r])
  finally show ?thesis using i by simp
qed

lemma read_loop_rep:
  "cache_ok (cch s) \<Longrightarrow> inode_ok (vw s) (nsec s) d \<Longrightarrow> 0 \<le> ofs \<Longrightarrow>
     \<exists>s'. read_loop s d sz ofs bf =
         Some (bf @ subbuf (file_bytes (vw s) d) (nat ofs) (nat (min sz (dlength d - ofs))), s')
       \<and> cached s s' (vw s)"
proof (induction "nat sz" arbitrary: s sz ofs bf rule: less_induct)
  case less
  note ok = less.prems(1,2) and ofs = less.prems(3)
  have views: "\<forall>x < nsec s. length (vw s x) = 512" using cache_view_length [OF ok(1)] by blast
  consider "sz \<le> 0" | "0 < sz" "dlength d \<le> ofs" | "0 < sz" "ofs < dlength d" by linarith
  then show ?case
  proof cases
    case 1
    then show ?thesis using cached_refl [OF ok(1)] by (simp add: read_loop.simps [of s] subbuf_def)
  next
    case 2
    then have "chunk_at d sz ofs \<le> 0" by (auto simp: chunk_at_def Let_def)
    then show ?thesis using 2 cached_refl [OF ok(1)]
      by (simp add: read_loop.simps [of s] byte_to_sector_def subbuf_def)
  next
    case 3
    let ?ch = "chunk_at d sz ofs" and ?x = "data_sectors (vw s) d ! nat (ofs div 512)"
    note ch = chunk_at_bounds [OF ofs 3(2,1)]
    obtain s1 where s1: "byte_to_sector s d ofs = Some (?x, s1)" "cached s s1 (vw s)"
      using byte_to_sector_rep [OF ok ofs 3(2)] by blast
    have "?x \<in> set (data_sectors (vw s) d)"
      using pos_in_sectors [OF ofs 3(2)] length_data_sectors [OF ok(2)] by simp
    then have x: "?x < nsec s1" using inode_okD(6) [OF ok(2)] cachedD(3) [OF s1(2)] by simp
    have r: "nat (ofs mod 512) + nat ?ch \<le> 512" using ch(1,4) by simp
    obtain s2 where s2: "cache_rd s1 ?x (nat (ofs mod 512)) (nat ?ch) =
        Some (subbuf (vw s ?x) (nat (ofs mod 512)) (nat ?ch), s2)" "cached s1 s2 (vw s)"
      using cache_rd_rep [OF cachedD(1) [OF s1(2)] x r] cachedD(2) [OF s1(2)] by auto
    note c2 = cached_trans [OF s1(2) s2(2)]
    let ?f = "file_bytes (vw s) d"
    have piece: "subbuf (vw s ?x) (nat (ofs mod 512)) (nat ?ch) = subbuf ?f (nat ofs) (nat ?ch)"
      by (rule file_chunk [OF ok(2) views ofs 3(2) _ ch(3,4), symmetric]) (use ch(1) in simp)
    have "read_loop s d sz ofs bf = read_loop s2 d (sz - ?ch) (ofs + ?ch) (bf @ subbuf ?f (nat ofs) (nat ?ch))"
      using s1(1) s2(1) ch(1) 3(1) ofs piece by (simp add: read_loop.simps [of s] smod_pos Let_def)
    moreover obtain s3 where s3: "read_loop s2 d (sz - ?ch) (ofs + ?ch) (bf @ subbuf ?f (nat ofs) (nat ?ch)) =
        Some ((bf @ subbuf ?f (nat ofs) (nat ?ch)) @
          subbuf ?f (nat (ofs + ?ch)) (nat (min (sz - ?ch) (dlength d - (ofs + ?ch)))), s3)" "cached s2 s3 (vw s)"
      using less.hyps [of "sz - ?ch" s2 "ofs + ?ch" "bf @ subbuf ?f (nat ofs) (nat ?ch)"]
        cachedD [OF c2] ok(2) ch(1,2) 3(1) ofs by auto
    moreover have "nat (min sz (dlength d - ofs)) = nat ?ch + nat (min (sz - ?ch) (dlength d - (ofs + ?ch)))"
      using ch by (simp add: min_def nat_add_distrib [symmetric])
    moreover have "nat (ofs + ?ch) = nat ofs + nat ?ch" using ofs ch(1) by simp
    ultimately show ?thesis using cached_trans [OF c2 s3(2)] by (simp add: subbuf_add)
  qed
qed

lemma inode_read_at_rep:
  assumes "cache_ok (cch s)" "get_inode s ip = Some i" "inode_ok (vw s) (nsec s) (idata i)" "0 \<le> ofs"
  shows "\<exists>s'. inode_read_at s ip sz ofs =
      Some (subbuf (file_bytes (vw s) (idata i)) (nat ofs) (nat (min sz (dlength (idata i) - ofs))), s')
    \<and> cached s s' (vw s)"
  using read_loop_rep [OF assms(1,3,4), of sz "[]"] assms(2) by (simp add: inode_read_at_def)

section \<open>Writing inside the file\<close>

lemma map_upd_distinct:
  assumes "distinct xs" "i < length xs"
  shows "map (f(xs ! i := y)) xs = (map f xs)[i := y]"
  using assms by (intro nth_equalityI) (auto simp: nth_list_update nth_eq_iff_index_eq)

lemma take_overwrite: "k + length b \<le> n \<Longrightarrow> n \<le> length xs \<Longrightarrow> take n (overwrite xs k b) = overwrite (take n xs) k b"
  by (intro nth_equalityI) (auto simp: nth_overwrite)

text \<open>The sectors of a file do not move when something other than its index block is written.\<close>

lemma data_sectors_cong:
  "(nsecs d > DIRECT_COUNT \<Longrightarrow> v' (indirect_block d) = v (indirect_block d)) \<Longrightarrow>
     length (direct_blocks d) = DIRECT_COUNT \<Longrightarrow> data_sectors v' d = data_sectors v d"
  by (cases "nsecs d > DIRECT_COUNT") (simp_all add: data_sectors_def sectors_of_def)

lemma inode_ok_cong:
  assumes "inode_ok v n d" "data_sectors v' d = data_sectors v d"
  shows "inode_ok v' n d"
  using assms by (simp add: inode_ok_def)

lemma length_raw_bytes:
  assumes "inode_ok v n d" "\<forall>x < n. length (v x) = 512"
  shows "length (raw_bytes v d) = 512 * nsecs d"
proof -
  have "\<forall>x \<in> set (map v (data_sectors v d)). length x = 512" using inode_okD(6) [OF assms(1)] assms(2) by auto
  then show ?thesis using length_concat_sectors length_data_sectors [OF assms(1)] by (fastforce simp: raw_bytes_def)
qed

lemma write_chunk:
  assumes ok: "inode_ok v n d" "\<forall>x < n. length (v x) = 512"
    and b: "0 \<le> ofs" "ofs < dlength d" "ofs + int (length b) \<le> dlength d" "ofs mod 512 + int (length b) \<le> 512"
  defines "x \<equiv> data_sectors v d ! nat (ofs div 512)"
  defines "v' \<equiv> v(x := overwrite (v x) (nat (ofs mod 512)) b)"
  shows "data_sectors v' d = data_sectors v d" "inode_ok v' n d" "\<forall>y < n. length (v' y) = 512"
    "raw_bytes v' d = overwrite (raw_bytes v d) (nat ofs) b" "x \<in> set (data_sectors v d)"
proof -
  let ?ds = "data_sectors v d" and ?i = "nat (ofs div 512)" and ?r = "nat (ofs mod 512)"
  have len: "\<forall>x \<in> set (map v ?ds). length x = 512" using inode_okD(6) [OF ok(1)] ok(2) by auto
  have i: "?i < length ?ds" using pos_in_sectors [OF b(1,2)] length_data_sectors [OF ok(1)] by simp
  have r: "?r + length b \<le> 512" using b(4) by linarith
  show x: "x \<in> set ?ds" using i by (simp add: x_def)
  have d: "distinct ?ds" "index_blocks d = [indirect_block d] \<Longrightarrow> indirect_block d \<notin> set ?ds"
    using inode_okD(5) [OF ok(1)] by auto
  show ds: "data_sectors v' d = ?ds"
    by (rule data_sectors_cong) (use d(2) x inode_okD(1) [OF ok(1)] in \<open>auto simp: v'_def index_blocks_def\<close>)
  show "inode_ok v' n d" by (rule inode_ok_cong [OF ok(1) ds])
  show "\<forall>y < n. length (v' y) = 512" using ok(2) r by (auto simp: v'_def)
  have "concat (map v' ?ds) = concat ((map v ?ds)[?i := overwrite (map v ?ds ! ?i) ?r b])"
    unfolding v'_def x_def by (subst map_upd_distinct [OF d(1) i]) (use i in simp)
  also have "\<dots> = overwrite (concat (map v ?ds)) (512 * ?i + ?r) b"
    by (rule overwrite_concat [OF len _ r]) (use i in simp)
  finally show "raw_bytes v' d = overwrite (raw_bytes v d) (nat ofs) b"
    unfolding raw_bytes_def ds nat_split_512 [OF b(1), symmetric] .
qed

lemma overwrite_add:
  "k + length a + length b \<le> length xs \<Longrightarrow> overwrite (overwrite xs k a) (k + length a) b = overwrite xs k (a @ b)"
  by (intro nth_equalityI) (auto simp: nth_overwrite nth_append)

lemma write_loop_rep:
  "cache_ok (cch s) \<Longrightarrow> inode_ok (vw s) (nsec s) d \<Longrightarrow> 0 \<le> ofs \<Longrightarrow> 0 \<le> sz \<Longrightarrow> ofs + sz \<le> dlength d \<Longrightarrow>
     bw + nat sz \<le> length bf \<Longrightarrow>
     \<exists>s' v'. write_loop s d bf sz ofs bw = Some (bw + nat sz, ofs + sz, s') \<and> cached s s' v'
       \<and> data_sectors v' d = data_sectors (vw s) d
       \<and> raw_bytes v' d = overwrite (raw_bytes (vw s) d) (nat ofs) (subbuf bf bw (nat sz))
       \<and> (\<forall>x. x \<notin> set (data_sectors (vw s) d) \<longrightarrow> v' x = vw s x)"
proof (induction "nat sz" arbitrary: s sz ofs bw rule: less_induct)
  case less
  note ok = less.prems(1,2) and ofs = less.prems(3)
  have views: "\<forall>x < nsec s. length (vw s x) = 512" using cache_view_length [OF ok(1)] by blast
  show ?case
  proof (cases "sz = 0")
    case True
    then show ?thesis using cached_refl [OF ok(1)]
      by (intro exI [of _ s] exI [of _ "vw s"]) (simp add: write_loop.simps [of s] subbuf_def overwrite_def)
  next
    case False
    then have sz: "0 < sz" "ofs < dlength d" using less.prems by simp_all
    let ?ch = "chunk_at d sz ofs" and ?x = "data_sectors (vw s) d ! nat (ofs div 512)"
    note ch = chunk_at_bounds [OF ofs sz(2,1)]
    let ?b = "subbuf bf bw (nat ?ch)"
    have bw: "bw + nat ?ch \<le> length bf" using less.prems(6) ch by linarith
    have lb: "length ?b = nat ?ch" using bw by simp
    obtain s1 where s1: "byte_to_sector s d ofs = Some (?x, s1)" "cached s s1 (vw s)"
      using byte_to_sector_rep [OF ok ofs sz(2)] by blast
    let ?v = "(vw s)(?x := overwrite (vw s ?x) (nat (ofs mod 512)) ?b)"
    have wc: "data_sectors ?v d = data_sectors (vw s) d" "inode_ok ?v (nsec s) d"
      "raw_bytes ?v d = overwrite (raw_bytes (vw s) d) (nat ofs) ?b" "?x \<in> set (data_sectors (vw s) d)"
      using write_chunk [OF ok(2) views ofs sz(2), of ?b] lb ch(1,3,4) by simp_all
    then have x: "?x < nsec s1" using inode_okD(6) [OF ok(2)] cachedD(3) [OF s1(2)] by simp
    have r: "nat (ofs mod 512) + length ?b \<le> 512" using ch(1,4) lb by simp
    obtain s2 where s2: "cache_wr s1 ?x ?b (nat (ofs mod 512)) = Some s2" "cached s1 s2 ?v"
      using cache_wr_rep [OF cachedD(1) [OF s1(2)] x r] cachedD(2) [OF s1(2)] by auto
    note c2 = cached_trans [OF s1(2) s2(2)]
    have step: "write_loop s d bf sz ofs bw = write_loop s2 d bf (sz - ?ch) (ofs + ?ch) (bw + nat ?ch)"
      using s1(1) s2(1) ch(1) sz(1) ofs bw by (simp add: write_loop.simps [of s] smod_pos Let_def)
    have "cache_ok (cch s2)" "vw s2 = ?v" "nsec s2 = nsec s" using cachedD [OF c2] by simp_all
    moreover have "bw + nat ?ch + nat (sz - ?ch) \<le> length bf" using less.prems(6) ch by linarith
    ultimately obtain s3 v3 where s3: "write_loop s2 d bf (sz - ?ch) (ofs + ?ch) (bw + nat ?ch) =
        Some (bw + nat ?ch + nat (sz - ?ch), ofs + ?ch + (sz - ?ch), s3)" "cached s2 s3 v3"
      "data_sectors v3 d = data_sectors ?v d"
      "raw_bytes v3 d = overwrite (raw_bytes ?v d) (nat (ofs + ?ch)) (subbuf bf (bw + nat ?ch) (nat (sz - ?ch)))"
      "\<forall>x. x \<notin> set (data_sectors ?v d) \<longrightarrow> v3 x = ?v x"
      using less.hyps [of "sz - ?ch" s2 "ofs + ?ch" "bw + nat ?ch"] wc(2) ch ofs sz(1) less.prems(5) by auto
    have n: "nat sz = nat ?ch + nat (sz - ?ch)" "nat (ofs + ?ch) = nat ofs + nat ?ch" using ch ofs by simp_all
    have le: "nat ofs + nat ?ch + nat (sz - ?ch) \<le> nat (dlength d)" using n(1) less.prems(5) ofs sz(1) by linarith
    have fl: "nat (dlength d) \<le> length (raw_bytes (vw s) d)"
      using length_raw_bytes [OF ok(2) views] sectors_cover [OF inode_okD(2) [OF ok(2)]] by simp
    have "raw_bytes v3 d = overwrite (raw_bytes (vw s) d) (nat ofs) (?b @ subbuf bf (bw + nat ?ch) (nat (sz - ?ch)))"
      unfolding s3(4) wc(3) n(2) using overwrite_add [of "nat ofs" ?b "subbuf bf (bw + nat ?ch) (nat (sz - ?ch))"
        "raw_bytes (vw s) d"] lb fl le less.prems(6) n(1) by simp
    then have "raw_bytes v3 d = overwrite (raw_bytes (vw s) d) (nat ofs) (subbuf bf bw (nat sz))"
      unfolding n(1) subbuf_add .
    moreover have "\<forall>x. x \<notin> set (data_sectors (vw s) d) \<longrightarrow> v3 x = vw s x" using s3(5) wc(1,4) by auto
    moreover have "bw + nat ?ch + nat (sz - ?ch) = bw + nat sz" "ofs + ?ch + (sz - ?ch) = ofs + sz" using n(1) by simp_all
    ultimately show ?thesis using step s3(1,3) wc(1) cached_trans [OF c2 s3(2)] by auto
  qed
qed


lemma file_bytes_overwrite:
  assumes "inode_ok v n d" "\<forall>x < n. length (v x) = 512" "k + length b \<le> nat (dlength d)"
    "raw_bytes v' d = overwrite (raw_bytes v d) k b"
  shows "file_bytes v' d = overwrite (file_bytes v d) k b"
  using assms take_overwrite [of k b "nat (dlength d)" "raw_bytes v d"] length_raw_bytes [OF assms(1,2)]
    sectors_cover [OF inode_okD(2) [OF assms(1)]] by (simp add: file_bytes_def)

end
