(* ===== verification/Filesys_Growth.thy ===== *)
theory Filesys_Growth
  imports Filesys_Contents
begin

text \<open>
  Allocation of sectors: the free map and its file, and files that grow.

  \<open>fs_ok\<close> is the file system's invariant: the cache is well-formed, the free map has one bit per sector,
  and the file it is stored in is a well-formed file of exactly its size whose blocks are marked as
  used.  \<open>fs_step s s' a w\<close> describes what allocations do: the sectors \<open>a\<close> become used, the sectors \<open>w\<close> and
  those of the free map's file may change, and nothing else does.
\<close>

section \<open>The invariant\<close>

definition used_sectors :: "fs_state \<Rightarrow> block_sector_t set" where
  "used_sectors s = {x. unat x < bit_cnt (free_map s) \<and> bit_list (free_map s) ! unat x}"

definition fm_inode :: "fs_state \<Rightarrow> inode option" where
  "fm_inode s = (if free_map_file s = 0 then None
     else do { f \<leftarrow> get_file s (free_map_file s); get_inode s (finode f) })"

definition fm_data :: "fs_state \<Rightarrow> block_sector_t set" where
  "fm_data s = (case fm_inode s of Some i \<Rightarrow> set (data_sectors (vw s) (idata i)) | None \<Rightarrow> {})"

definition fm_ok :: "fs_state \<Rightarrow> inode \<Rightarrow> bool" where
  "fm_ok s i \<longleftrightarrow> deny_write_cnt i = 0 \<and> inode_ok (vw s) (nsec s) (idata i)
     \<and> dlength (idata i) = int (byte_cnt (bit_cnt (free_map s)))
     \<and> set (blocks_of (vw s) (idata i)) \<subseteq> used_sectors s"

definition fs_ok :: "fs_state \<Rightarrow> bool" where
  "fs_ok s \<longleftrightarrow> cache_ok (cch s) \<and> bitmap_ok (free_map s) \<and> bit_cnt (free_map s) = unat (nsec s)
     \<and> 0 \<in> used_sectors s
     \<and> (free_map_file s \<noteq> 0 \<longrightarrow> (\<exists>i. fm_inode s = Some i \<and> fm_ok s i))"

definition fs_step :: "fs_state \<Rightarrow> fs_state \<Rightarrow> block_sector_t set \<Rightarrow> block_sector_t set \<Rightarrow> bool" where
  "fs_step s s' a w \<longleftrightarrow> fs_ok s' \<and> s' = s\<lparr>cch := cch s', free_map := free_map s'\<rparr> \<and> nsec s' = nsec s
     \<and> used_sectors s' = used_sectors s \<union> a \<and> fm_data s' = fm_data s
     \<and> (\<forall>x. x \<notin> w \<union> fm_data s \<longrightarrow> vw s' x = vw s x)"

lemma fs_okD:
  assumes "fs_ok s"
  shows "cache_ok (cch s)" "bitmap_ok (free_map s)" "bit_cnt (free_map s) = unat (nsec s)"
    "0 \<in> used_sectors s" "free_map_file s \<noteq> 0 \<Longrightarrow> \<exists>i. fm_inode s = Some i \<and> fm_ok s i"
  using assms by (auto simp: fs_ok_def)

lemma fs_stepD:
  assumes "fs_step s s' a w"
  shows "fs_ok s'" "nsec s' = nsec s" "used_sectors s' = used_sectors s \<union> a" "fm_data s' = fm_data s"
    "\<And>x. x \<notin> w \<Longrightarrow> x \<notin> fm_data s \<Longrightarrow> vw s' x = vw s x"
    "get_inode s' = get_inode s" "get_file s' = get_file s" "get_dir s' = get_dir s"
    "objs s' = objs s" "free_map_file s' = free_map_file s" "open_inodes s' = open_inodes s" "avail s' = avail s"
    "fm_inode s' = fm_inode s"
proof -
  have eq: "s' = s\<lparr>cch := cch s', free_map := free_map s'\<rparr>" using assms by (simp add: fs_step_def)
  show o: "objs s' = objs s" "free_map_file s' = free_map_file s" "open_inodes s' = open_inodes s" "avail s' = avail s"
    by (subst eq, simp)+
  show g: "get_inode s' = get_inode s" "get_file s' = get_file s" "get_dir s' = get_dir s"
    by (simp_all add: get_inode_def get_file_def get_dir_def o fun_eq_iff)
  show "fm_inode s' = fm_inode s" by (simp add: fm_inode_def o g)
qed (use assms in \<open>auto simp: fs_step_def\<close>)

lemma fs_step_refl: "fs_ok s \<Longrightarrow> fs_step s s {} w"
  by (simp add: fs_step_def)

lemma fs_step_trans:
  assumes "fs_step s s1 a w" "fs_step s1 s2 b x"
  shows "fs_step s s2 (a \<union> b) (w \<union> x)"
proof -
  note d1 = fs_stepD [OF assms(1)] and d2 = fs_stepD [OF assms(2)]
  have "s2 = s\<lparr>cch := cch s2, free_map := free_map s2\<rparr>"
    by (rule fs_state.equality) (simp_all add: d1 d2)
  moreover have "vw s2 y = vw s y" if "y \<notin> (w \<union> x) \<union> fm_data s" for y
    using that d1(4,5) d2(5) by simp
  ultimately show ?thesis using d1 d2 by (auto simp: fs_step_def)
qed

lemma fs_step_mono: "fs_step s s' a w \<Longrightarrow> w \<subseteq> x \<Longrightarrow> fs_step s s' a x"
  unfolding fs_step_def by blast

lemma fm_data_used: "fs_ok s \<Longrightarrow> fm_data s \<subseteq> used_sectors s"
  using fs_okD(5) [of s] by (auto simp: fm_data_def fm_ok_def fm_inode_def split: option.splits if_splits)

lemma used_in_range: "fs_ok s \<Longrightarrow> x \<in> used_sectors s \<Longrightarrow> x < nsec s"
  using fs_okD(3) [of s] by (simp add: used_sectors_def word_less_nat_alt)

text \<open>A write through the cache outside the free map's file keeps the invariant.\<close>

lemma cached_fs_step:
  assumes ok: "fs_ok s" and c: "cached s s' v"
    and same: "\<forall>x. x \<notin> w \<union> fm_data s \<longrightarrow> v x = vw s x"
    and idx: "\<And>i. fm_inode s = Some i \<Longrightarrow> data_sectors v (idata i) = data_sectors (vw s) (idata i)"
  shows "fs_step s s' {} w"
proof -
  note d = cachedD [OF c]
  have fm: "fm_inode s' = fm_inode s" by (simp add: fm_inode_def d)
  have us: "used_sectors s' = used_sectors s" by (simp add: used_sectors_def d)
  have data: "fm_data s' = fm_data s" by (auto simp: fm_data_def fm d idx split: option.split)
  have "fm_ok s' i" if "fm_inode s = Some i" "fm_ok s i" for i
    using that idx [OF that(1)] inode_ok_cong [of "vw s" "nsec s" "idata i" v] by (simp add: fm_ok_def d us)
  then have "fs_ok s'" using ok fs_okD(5) [OF ok] unfolding fs_ok_def by (auto simp: d us fm)
  moreover have "s' = s\<lparr>cch := cch s', free_map := free_map s'\<rparr>"
    by (rule fs_state.equality) (simp_all add: d)
  ultimately show ?thesis using same by (simp add: fs_step_def d us data)
qed

lemma cache_wr_step:
  assumes ok: "fs_ok s" and x: "x < nsec s" "ofs + length b \<le> 512"
    and idx: "\<And>i. fm_inode s = Some i \<Longrightarrow> x \<notin> set (index_blocks (idata i))"
  shows "\<exists>s'. cache_wr s x b ofs = Some s' \<and> fs_step s s' {} {x} \<and> vw s' = (vw s)(x := overwrite (vw s x) ofs b)"
proof -
  obtain s' where s': "cache_wr s x b ofs = Some s'" "cached s s' ((vw s)(x := overwrite (vw s x) ofs b))"
    using cache_wr_rep [OF fs_okD(1) [OF ok] x] by blast
  have "fs_step s s' {} {x}"
  proof (rule cached_fs_step [OF ok s'(2)])
    fix i assume i: "fm_inode s = Some i"
    then have "free_map_file s \<noteq> 0" by (auto simp: fm_inode_def split: if_splits)
    then have "length (direct_blocks (idata i)) = DIRECT_COUNT"
      using fs_okD(5) [OF ok] i inode_okD(1) by (auto simp: fm_ok_def)
    then show "data_sectors ((vw s)(x := overwrite (vw s x) ofs b)) (idata i) = data_sectors (vw s) (idata i)"
      using idx [OF i] by (intro data_sectors_cong) (auto simp: index_blocks_def)
  qed auto
  then show ?thesis using s' cachedD(2) by blast
qed

section \<open>Writing the free map\<close>

lemma inode_write_at_inside:
  assumes "cache_ok (cch s)" "get_inode s ip = Some i" "deny_write_cnt i = 0" "inode_ok (vw s) (nsec s) (idata i)"
    "0 \<le> ofs" "0 \<le> sz" "ofs + sz \<le> dlength (idata i)" "nat sz \<le> length bf"
  shows "\<exists>s' v'. inode_write_at (Suc n) s ip bf sz ofs = Some (sz, s') \<and> cached s s' v'
    \<and> data_sectors v' (idata i) = data_sectors (vw s) (idata i)
    \<and> raw_bytes v' (idata i) = overwrite (raw_bytes (vw s) (idata i)) (nat ofs) (take (nat sz) bf)
    \<and> file_bytes v' (idata i) = overwrite (file_bytes (vw s) (idata i)) (nat ofs) (take (nat sz) bf)
    \<and> (\<forall>x. x \<notin> set (data_sectors (vw s) (idata i)) \<longrightarrow> v' x = vw s x)"
proof -
  obtain s' v' where w: "write_loop s (idata i) bf sz ofs 0 = Some (nat sz, ofs + sz, s')" "cached s s' v'"
    "data_sectors v' (idata i) = data_sectors (vw s) (idata i)"
    "raw_bytes v' (idata i) = overwrite (raw_bytes (vw s) (idata i)) (nat ofs) (take (nat sz) bf)"
    "\<forall>x. x \<notin> set (data_sectors (vw s) (idata i)) \<longrightarrow> v' x = vw s x"
    using write_loop_rep [OF assms(1,4,5,6,7), of 0 bf] assms(8) by (auto simp: subbuf_def)
  have "file_bytes v' (idata i) = overwrite (file_bytes (vw s) (idata i)) (nat ofs) (take (nat sz) bf)"
    using file_bytes_overwrite [OF assms(4) _ _ w(4)] cache_view_length [OF assms(1)] assms(5-8) by simp
  moreover have "dlength (idata i) \<le> OFF_MAX" using inode_okD(3) [OF assms(4)] .
  then have "inode_write_at (Suc n) s ip bf sz ofs = Some (sz, s')"
    using assms w(1) by (simp add: inode_write_step_def extend_file_def)
  ultimately show ?thesis using w by blast
qed

declare inode_write_at.simps(2) [simp del]

lemma length_bits_bytes: "bitmap_ok b \<Longrightarrow> length (enc32s (bits b)) = byte_cnt (bit_cnt b)"
  by (simp add: bitmap_ok_def byte_cnt_def)

lemma bitmap_write_rep:
  assumes cok: "cache_ok (cch s)" and bok: "bitmap_ok (free_map s)"
    and fm: "fm_inode s = Some i" "fm_ok s i"
  shows "\<exists>s' v'. bitmap_write (inode_write_at (Suc n)) s (free_map_file s) = Some (True, s') \<and> cached s s' v'
    \<and> data_sectors v' (idata i) = data_sectors (vw s) (idata i)
    \<and> file_bytes v' (idata i) = enc32s (bits (free_map s))
    \<and> (\<forall>x. x \<notin> fm_data s \<longrightarrow> v' x = vw s x)"
proof -
  let ?b = "enc32s (bits (free_map s))" and ?k = "byte_cnt (bit_cnt (free_map s))"
  obtain f where f: "get_file s (free_map_file s) = Some f" "get_inode s (finode f) = Some i"
    using fm(1) by (auto simp: fm_inode_def bind_Some_iff split: if_splits)
  have i: "deny_write_cnt i = 0" "inode_ok (vw s) (nsec s) (idata i)" "dlength (idata i) = int ?k"
    using fm(2) by (simp_all add: fm_ok_def)
  have l: "length ?b = ?k" by (rule length_bits_bytes [OF bok])
  obtain s' v' where w: "inode_write_at (Suc n) s (finode f) ?b (int ?k) 0 = Some (int ?k, s')" "cached s s' v'"
    "data_sectors v' (idata i) = data_sectors (vw s) (idata i)"
    "file_bytes v' (idata i) = overwrite (file_bytes (vw s) (idata i)) 0 ?b"
    "\<forall>x. x \<notin> set (data_sectors (vw s) (idata i)) \<longrightarrow> v' x = vw s x"
    using inode_write_at_inside [OF cok f(2) i(1,2), of 0 "int ?k" ?b n] i(3) l by auto
  have "length (file_bytes (vw s) (idata i)) = ?k"
    using length_file_bytes [OF i(2)] cache_view_length [OF cok] i(3) by simp
  then have "file_bytes v' (idata i) = ?b" using w(4) l by simp
  moreover have "bitmap_write (inode_write_at (Suc n)) s (free_map_file s) = Some (True, s')"
    using f(1) w(1) by (simp add: bitmap_write_def file_write_at_def)
  ultimately show ?thesis using w(2,3,5) fm(1) by (auto simp: fm_data_def)
qed

text \<open>Changing bits of the free map and writing it to its file.\<close>

lemma set_bit_step:
  assumes ok: "fs_ok s" and bm: "bitmap_ok bm" "bit_cnt bm = bit_cnt (free_map s)"
    and us: "used_sectors (s\<lparr>free_map := bm\<rparr>) = used_sectors s \<union> a"
  shows "fs_step s (s\<lparr>free_map := bm\<rparr>) a w"
proof -
  let ?s = "s\<lparr>free_map := bm\<rparr>"
  have g: "get_inode ?s = get_inode s" "get_file ?s = get_file s"
    by (simp_all add: get_inode_def get_file_def fun_eq_iff)
  have fm: "fm_inode ?s = fm_inode s" by (simp add: fm_inode_def g)
  then have fd: "fm_data ?s = fm_data s" by (simp add: fm_data_def split: option.split)
  have "fm_ok ?s i" if "fm_ok s i" for i using that bm(2) us by (auto simp: fm_ok_def)
  then have "fs_ok ?s" using ok bm us unfolding fs_ok_def fm by auto
  then show ?thesis using us fd by (simp add: fs_step_def)
qed

lemma free_map_write_step:
  assumes ok: "fs_ok s" and bm: "bitmap_ok bm" "bit_cnt bm = bit_cnt (free_map s)" and f: "free_map_file s \<noteq> 0"
    and us: "used_sectors (s\<lparr>free_map := bm\<rparr>) = used_sectors s \<union> a"
  shows "\<exists>s'. bitmap_write (inode_write_at (Suc n)) (s\<lparr>free_map := bm\<rparr>) (free_map_file s) = Some (True, s')
    \<and> fs_step s s' a {}"
proof -
  let ?s = "s\<lparr>free_map := bm\<rparr>"
  have st: "fs_step s ?s a {}" by (rule set_bit_step [OF ok bm us])
  note ok1 = fs_stepD(1) [OF st]
  obtain i where i: "fm_inode ?s = Some i" "fm_ok ?s i" using fs_okD(5) [OF ok1] f by auto
  obtain s' v' where w: "bitmap_write (inode_write_at (Suc n)) ?s (free_map_file ?s) = Some (True, s')" "cached ?s s' v'"
    "data_sectors v' (idata i) = data_sectors (vw ?s) (idata i)" "\<forall>x. x \<notin> fm_data ?s \<longrightarrow> v' x = vw ?s x"
    using bitmap_write_rep [OF fs_okD(1,2) [OF ok1] i, of n] by blast
  have "fs_step ?s s' {} {}"
    by (rule cached_fs_step [OF ok1 w(2)]) (use w(3,4) i in auto)
  then show ?thesis using w(1) fs_step_trans [OF st] by fastforce
qed

lemma group_at_one: "group_at xs i 1 v \<longleftrightarrow> i < length xs \<and> xs ! i = v"
  by (auto simp: group_at_def less_Suc_eq_le intro: le_antisym)

lemma free_map_allocate_rep:
  assumes ok: "fs_ok s"
  shows "\<exists>r s'. free_map_allocate (inode_write_at (Suc n)) 1 s = Some (r, s')
    \<and> (case r of None \<Rightarrow> s' = s \<and> used_sectors s = {x. x < nsec s}
       | Some x \<Rightarrow> x \<notin> used_sectors s \<and> x < nsec s \<and> fs_step s s' {x} {})"
proof -
  let ?b = "free_map s"
  note d = fs_okD [OF ok]
  obtain r b' where r: "bitmap_scan_and_flip ?b 0 1 False = Some (r, b')" "bitmap_ok b'" "bit_cnt b' = bit_cnt ?b"
    "if r = BITMAP_ERROR then b' = ?b \<and> (\<forall>j \<ge> 0. \<not> group_at (bit_list ?b) j 1 False)
       else first_group (bit_list ?b) 0 1 False r \<and> bit_list b' = overwrite (bit_list ?b) r (replicate 1 (\<not> False))"
    using bitmap_scan_and_flip_rep [OF d(2) le0, of 1 False] by blast
  show ?thesis
  proof (cases "r = BITMAP_ERROR")
    case True
    then have "free_map_allocate (inode_write_at (Suc n)) 1 s = Some (None, s)"
      using r by (simp add: free_map_allocate_def)
    moreover have "bit_list ?b ! j" if "j < bit_cnt ?b" for j
      using r(4) True that by (simp add: group_at_one [of _ _ False, unfolded One_nat_def] nth_bit_list)
    then have "used_sectors s = {x. x < nsec s}"
      using d(3) by (auto simp: used_sectors_def word_less_nat_alt)
    ultimately show ?thesis by (intro exI [of _ None] exI [of _ s]) simp
  next
    case False
    then have g: "group_at (bit_list ?b) r 1 False" and bl': "bit_list b' = overwrite (bit_list ?b) r [True]"
      using r(4) by (simp_all add: first_group_def)
    have rl: "r < bit_cnt ?b" "\<not> bit_list ?b ! r" using g [unfolded group_at_one] by simp_all
    have bl: "bit_list b' = (bit_list ?b)[r := True]"
      using bl' rl(1) by (simp add: overwrite_def upd_conv_take_nth_drop)
    let ?x = "of_nat r :: block_sector_t"
    have x: "unat ?x = r" by (rule unat_of_nat32) (use rl(1) d(3) unat_bound32 [of "nsec s"] in simp)
    have us: "used_sectors (s\<lparr>free_map := b'\<rparr>) = used_sectors s \<union> {?x}"
      using r(3) rl(1) x by (auto simp: used_sectors_def bl nth_list_update)
    have nu: "?x \<notin> used_sectors s" "?x < nsec s" using rl x d(3) by (simp_all add: used_sectors_def word_less_nat_alt)
    show ?thesis
    proof (cases "free_map_file s = 0")
      case True
      then have "free_map_allocate (inode_write_at (Suc n)) 1 s = Some (Some ?x, s\<lparr>free_map := b'\<rparr>)"
        using r(1) False by (simp add: free_map_allocate_def)
      then show ?thesis using nu set_bit_step [OF ok r(2,3) us] by fastforce
    next
      case f: False
      obtain s' where s': "bitmap_write (inode_write_at (Suc n)) (s\<lparr>free_map := b'\<rparr>) (free_map_file s) = Some (True, s')"
        "fs_step s s' {?x} {}" using free_map_write_step [OF ok r(2,3) f us] by blast
      then have "free_map_allocate (inode_write_at (Suc n)) 1 s = Some (Some ?x, s')"
        using r(1) False f by (simp add: free_map_allocate_def)
      then show ?thesis using nu s'(2) by fastforce
    qed
  qed
qed


section \<open>Giving a file its blocks\<close>

text \<open>
  The loop over the blocks, where the entries from \<open>i\<close> on are unused: it gives all of them fresh, zeroed
  sectors, or stops when no sector is left.
\<close>

lemma index_fresh:
  assumes "fs_ok s" "x \<notin> used_sectors s" "fm_inode s = Some i"
  shows "x \<notin> set (index_blocks (idata i))"
proof -
  have "free_map_file s \<noteq> 0" using assms(3) by (auto simp: fm_inode_def split: if_splits)
  then show ?thesis using fs_okD(5) [OF assms(1)] assms(2,3) by (auto simp: fm_ok_def)
qed

lemma new_sector_rep:
  assumes ok: "fs_ok s" and r: "free_map_allocate (inode_write_at (Suc n)) 1 s = Some (Some x, s1)"
  shows "\<exists>s'. cache_wr s1 x zeros 0 = Some s' \<and> fs_step s s' {x} {x} \<and> vw s' x = zeros
    \<and> x \<notin> used_sectors s \<and> x < nsec s"
proof -
  have x: "x \<notin> used_sectors s" "x < nsec s" "fs_step s s1 {x} {}"
    using free_map_allocate_rep [OF ok, of n] r by auto
  note st = fs_stepD [OF x(3)]
  obtain s' where s': "cache_wr s1 x zeros 0 = Some s'" "fs_step s1 s' {} {x}"
    "vw s' = (vw s1)(x := overwrite (vw s1 x) 0 zeros)"
    using cache_wr_step [OF st(1), of x 0 zeros] x(2) st(2,13) index_fresh [OF ok x(1)]
    by (metis (no_types, lifting) add_0 length_replicate order_refl zeros_def)
  have "length (vw s1 x) = 512" using cache_view_length [OF fs_okD(1) [OF st(1)]] x(2) st(2) by simp
  then have "vw s' x = zeros" using s'(3) by (simp add: zeros_def)
  moreover have "fs_step s s' {x} {x}" using fs_step_trans [OF x(3) s'(2)] by simp
  ultimately show ?thesis using s'(1) x(1,2) by blast
qed

definition fresh :: "fs_state \<Rightarrow> block_sector_t list \<Rightarrow> bool" where
  "fresh s xs \<longleftrightarrow> distinct xs \<and> set xs \<inter> used_sectors s = {} \<and> (\<forall>x \<in> set xs. x < nsec s)"

lemma fresh_nonzero: "fs_ok s \<Longrightarrow> fresh s xs \<Longrightarrow> x \<in> set xs \<Longrightarrow> x \<noteq> 0"
  using fs_okD(4) by (auto simp: fresh_def)

lemma fresh_Cons:
  assumes "fs_step s s' {x} w" "x \<notin> used_sectors s" "x < nsec s" "fresh s' xs"
  shows "fresh s (x # xs)"
  using assms fs_stepD(2,3) [OF assms(1)] by (auto simp: fresh_def)

lemma alloc_blocks_rep:
  assumes "fs_ok s" "i + k \<le> length bs" "\<forall>j. i \<le> j \<and> j < i + k \<longrightarrow> bs ! j = 0"
  shows "\<exists>ok bs' xs s'. alloc_blocks (inode_write_at (Suc n)) s bs i k = Some (ok, bs', s')
    \<and> fresh s xs \<and> length xs \<le> k \<and> bs' = overwrite bs i xs \<and> fs_step s s' (set xs) (set xs)
    \<and> (\<forall>x \<in> set xs. vw s' x = zeros)
    \<and> (if ok then length xs = k else length xs < k \<and> used_sectors s' = {x. x < nsec s})"
  using assms
proof (induction k arbitrary: s i bs)
  case 0
  show ?case
    by (rule exI [of _ True], rule exI [of _ bs], rule exI [of _ "[]"], rule exI [of _ s])
      (use 0(1) in \<open>simp add: fresh_def overwrite_def fs_step_refl\<close>)
next
  case (Suc k)
  have z: "bs ! i = 0" using Suc.prems(3) by simp
  obtain r s1 where r: "free_map_allocate (inode_write_at (Suc n)) 1 s = Some (r, s1)"
    "case r of None \<Rightarrow> s1 = s \<and> used_sectors s = {x. x < nsec s}
       | Some x \<Rightarrow> x \<notin> used_sectors s \<and> x < nsec s \<and> fs_step s s1 {x} {}"
    using free_map_allocate_rep [OF Suc.prems(1), of n] by blast
  show ?case
  proof (cases r)
    case None
    show ?thesis
      by (rule exI [of _ False], rule exI [of _ bs], rule exI [of _ "[]"], rule exI [of _ s])
        (use None r z Suc.prems(1) in \<open>simp add: fresh_def overwrite_def fs_step_refl\<close>)
  next
    case (Some x)
    obtain s2 where s2: "cache_wr s1 x zeros 0 = Some s2" "fs_step s s2 {x} {x}" "vw s2 x = zeros"
      "x \<notin> used_sectors s" "x < nsec s"
      using new_sector_rep [OF Suc.prems(1)] r(1) Some by blast
    note st = fs_stepD [OF s2(2)]
    obtain ok bs' xs s' where h: "alloc_blocks (inode_write_at (Suc n)) s2 (bs[i := x]) (i + 1) k = Some (ok, bs', s')"
      "fresh s2 xs" "length xs \<le> k" "bs' = overwrite (bs[i := x]) (i + 1) xs" "fs_step s2 s' (set xs) (set xs)"
      "\<forall>y \<in> set xs. vw s' y = zeros"
      "if ok then length xs = k else length xs < k \<and> used_sectors s' = {x. x < nsec s2}"
      using Suc.IH [OF st(1), of "i + 1" "bs[i := x]"] Suc.prems(2,3) by auto
    have f: "fresh s (x # xs)" by (rule fresh_Cons [OF s2(2,4,5) h(2)])
    have "x \<in> used_sectors s2" using st(3) by simp
    then have "x \<notin> set xs" "x \<notin> fm_data s2"
      using h(2) f fm_data_used [OF Suc.prems(1)] s2(4) st(4) by (auto simp: fresh_def)
    then have zx: "vw s' x = zeros" using fs_stepD(5) [OF h(5)] s2(3) by simp
    have step: "fs_step s s' (set (x # xs)) (set (x # xs))" using fs_step_trans [OF s2(2) h(5)] by simp
    have ov: "bs' = overwrite bs i (x # xs)"
      using h(3,4) Suc.prems(2) by (simp add: overwrite_def take_Suc_conv_app_nth nth_list_update drop_update_cancel take_update_cancel)
    have "alloc_blocks (inode_write_at (Suc n)) s bs i (Suc k) = Some (ok, bs', s')"
      using z r(1) Some s2(1) h(1) by simp
    note a = this
    show ?thesis
      by (rule exI [of _ ok], rule exI [of _ bs'], rule exI [of _ "x # xs"], rule exI [of _ s'])
        (use a f step ov zx h(3,6,7) st(2) in \<open>auto split: if_splits\<close>)
  qed
qed

lemma alloc_blocks_skip:
  assumes "\<forall>j. i \<le> j \<and> j < i + m \<longrightarrow> bs ! j \<noteq> 0"
  shows "alloc_blocks wr s bs i (m + k) = alloc_blocks wr s bs (i + m) k"
  using assms by (induction m arbitrary: i) auto


definition fm_blocks :: "fs_state \<Rightarrow> block_sector_t set" where
  "fm_blocks s = (case fm_inode s of Some i \<Rightarrow> set (blocks_of (vw s) (idata i)) | None \<Rightarrow> {})"

lemma fm_data_blocks: "fm_data s \<subseteq> fm_blocks s"
  by (auto simp: fm_data_def fm_blocks_def split: option.split)

lemma fm_blocks_used: "fs_ok s \<Longrightarrow> fm_blocks s \<subseteq> used_sectors s"
  using fs_okD(5) [of s] by (auto simp: fm_blocks_def fm_ok_def fm_inode_def split: option.splits if_splits)

lemma fm_blocks_step: "fs_step s s' a w \<Longrightarrow> fm_blocks s' = fm_blocks s"
  using fs_stepD(4,13) [of s s' a w] by (auto simp: fm_blocks_def fm_data_def split: option.splits)

lemma fm_index: "fm_inode s = Some i \<Longrightarrow> x \<notin> fm_blocks s \<Longrightarrow> x \<notin> set (index_blocks (idata i))"
  by (auto simp: fm_blocks_def)

lemma dec32s_zeros: "dec32s INDIRECT_COUNT zeros = replicate INDIRECT_COUNT 0"
  by (simp add: zeros_def numeral_eq_Suc dec32_def)

text \<open>
  The sector of block numbers: \<open>es\<close> is what it holds before, of which the first \<open>m\<close> are in use.
\<close>

lemma alloc_entries_rep:
  assumes ok: "fs_ok s" and blk: "blk < nsec s" "blk \<in> used_sectors s" "blk \<notin> fm_blocks s"
    and es: "es = dec32s INDIRECT_COUNT (vw s blk)" "m \<le> cnt" "cnt \<le> INDIRECT_COUNT"
      "\<forall>j < m. es ! j \<noteq> 0" "\<forall>j. m \<le> j \<and> j < INDIRECT_COUNT \<longrightarrow> es ! j = 0"
  shows "\<exists>ok xs s'. do {
      (raw, s) \<leftarrow> cache_rd s blk 0 BLOCK_SECTOR_SIZE;
      (ok, es, s) \<leftarrow> alloc_blocks (inode_write_at (Suc n)) s (dec32s INDIRECT_COUNT raw) 0 cnt;
      if \<not> ok then Some (False, blk, s)
      else do { s \<leftarrow> cache_wr s blk (enc32s es) 0; Some (True, blk, s) }
    } = Some (ok, blk, s') \<and> fresh s xs
    \<and> (if ok then length xs = cnt - m \<and> fs_step s s' (set xs) (insert blk (set xs))
         \<and> (\<forall>x \<in> set xs. vw s' x = zeros) \<and> dec32s INDIRECT_COUNT (vw s' blk) = overwrite es m xs
       else length xs < cnt - m \<and> fs_step s s' (set xs) (set xs) \<and> used_sectors s' = {x. x < nsec s})"
proof -
  let ?wr = "inode_write_at (Suc n)"
  have l: "length (vw s blk) = 512" using cache_view_length [OF fs_okD(1) [OF ok] blk(1)] by simp
  obtain s1 where s1: "cache_rd s blk 0 512 = Some (vw s blk, s1)" "cached s s1 (vw s)"
    using cache_rd_rep [OF fs_okD(1) [OF ok] blk(1), of 0 512] l by auto
  have st1: "fs_step s s1 {} {}" by (rule cached_fs_step [OF ok s1(2)]) auto
  note d1 = fs_stepD [OF st1]
  have sk: "alloc_blocks ?wr s1 es 0 cnt = alloc_blocks ?wr s1 es m (cnt - m)"
    using alloc_blocks_skip [of 0 m es ?wr s1 "cnt - m"] es(2,4) by simp
  obtain k es' xs s2 where h: "alloc_blocks ?wr s1 es m (cnt - m) = Some (k, es', s2)"
    "fresh s1 xs" "length xs \<le> cnt - m" "es' = overwrite es m xs" "fs_step s1 s2 (set xs) (set xs)"
    "\<forall>x \<in> set xs. vw s2 x = zeros"
    "if k then length xs = cnt - m else length xs < cnt - m \<and> used_sectors s2 = {x. x < nsec s1}"
    using alloc_blocks_rep [OF d1(1), of m "cnt - m" es n] es by auto
  have f: "fresh s xs" using h(2) d1 by (simp add: fresh_def)
  have st2: "fs_step s s2 (set xs) (set xs)" using fs_step_trans [OF st1 h(5)] by simp
  note d2 = fs_stepD [OF st2]
  show ?thesis
  proof (cases k)
    case False
    show ?thesis
      by (intro exI [of _ False] exI [of _ xs] exI [of _ s2])
        (use False s1(1) sk h(1,7) es(1) f st2 d1(2) in simp)
  next
    case True
    have len: "length es' = 128" using h(3,4) es(1-3) by simp
    obtain s3 where s3: "cache_wr s2 blk (enc32s es') 0 = Some s3" "fs_step s2 s3 {} {blk}"
      "vw s3 = (vw s2)(blk := overwrite (vw s2 blk) 0 (enc32s es'))"
      using cache_wr_step [OF d2(1), of blk 0 "enc32s es'"] blk d2(2,13) len fm_index [of s2 _ blk]
        fm_blocks_step [OF st2] by auto
    have "length (vw s2 blk) = 512" using cache_view_length [OF fs_okD(1) [OF d2(1)], of blk] blk(1) d2(2) by simp
    then have "dec32s INDIRECT_COUNT (vw s3 blk) = es'"
      using s3(3) len dec32s_enc32s [of es' "[]"] by simp
    moreover have "vw s3 x = zeros" if "x \<in> set xs" for x
      using that h(6) s3(3) f blk(2) by (auto simp: fresh_def)
    moreover have "fs_step s s3 (set xs) (insert blk (set xs))" using fs_step_trans [OF st2 s3(2)] by simp
    ultimately show ?thesis
      by (intro exI [of _ True] exI [of _ s3] exI [of _ xs])
        (use True s1(1) sk h(1,4,7) es(1) f s3(1) in simp)
  qed
qed

lemma alloc_index_rep:
  assumes ok: "fs_ok s"
    and blk: "blk \<noteq> 0 \<longrightarrow> blk < nsec s \<and> blk \<in> used_sectors s \<and> blk \<notin> fm_blocks s"
    and es: "es = (if blk = 0 then replicate INDIRECT_COUNT 0 else dec32s INDIRECT_COUNT (vw s blk))"
      "m \<le> cnt" "cnt \<le> INDIRECT_COUNT" "\<forall>j < m. es ! j \<noteq> 0" "\<forall>j. m \<le> j \<and> j < INDIRECT_COUNT \<longrightarrow> es ! j = 0"
  shows "\<exists>ok blk' xs ys s'. alloc_index (inode_write_at (Suc n)) s blk cnt = Some (ok, blk', s') \<and> fresh s (ys @ xs)
    \<and> (if ok then length xs = cnt - m \<and> fs_step s s' (set (ys @ xs)) (insert blk' (set xs))
         \<and> (\<forall>x \<in> set xs. vw s' x = zeros) \<and> dec32s INDIRECT_COUNT (vw s' blk') = overwrite es m xs
         \<and> (if blk = 0 then ys = [blk'] else ys = [] \<and> blk' = blk)
       else length (ys @ xs) < cnt - m + (if blk = 0 then 1 else 0)
         \<and> fs_step s s' (set (ys @ xs)) (set (ys @ xs)) \<and> used_sectors s' = {x. x < nsec s})"
proof (cases "blk = 0")
  case False
  obtain k xs s' where h: "alloc_index (inode_write_at (Suc n)) s blk cnt = Some (k, blk, s')" "fresh s xs"
    "if k then length xs = cnt - m \<and> fs_step s s' (set xs) (insert blk (set xs))
         \<and> (\<forall>x \<in> set xs. vw s' x = zeros) \<and> dec32s INDIRECT_COUNT (vw s' blk) = overwrite es m xs
       else length xs < cnt - m \<and> fs_step s s' (set xs) (set xs) \<and> used_sectors s' = {x. x < nsec s}"
    using alloc_entries_rep [OF ok, of blk es m cnt n] blk [rule_format, OF False] es False by (auto simp: alloc_index_def)
  show ?thesis
    by (rule exI [of _ k], rule exI [of _ blk], rule exI [of _ xs], rule exI [of _ "[]"], rule exI [of _ s'])
      (use h False in auto)
next
  case True
  obtain r s1 where r: "free_map_allocate (inode_write_at (Suc n)) 1 s = Some (r, s1)"
    "case r of None \<Rightarrow> s1 = s \<and> used_sectors s = {x. x < nsec s}
       | Some x \<Rightarrow> x \<notin> used_sectors s \<and> x < nsec s \<and> fs_step s s1 {x} {}"
    using free_map_allocate_rep [OF ok, of n] by blast
  show ?thesis
  proof (cases r)
    case None
    show ?thesis
      by (rule exI [of _ False], rule exI [of _ 0], rule exI [of _ "[]"], rule exI [of _ "[]"], rule exI [of _ s])
        (use True None r ok in \<open>simp add: alloc_index_def fresh_def fs_step_refl\<close>)
  next
    case (Some y)
    obtain s2 where s2: "cache_wr s1 y zeros 0 = Some s2" "fs_step s s2 {y} {y}" "vw s2 y = zeros"
      "y \<notin> used_sectors s" "y < nsec s"
      using new_sector_rep [OF ok] r(1) Some by blast
    note d2 = fs_stepD [OF s2(2)]
    have y: "y < nsec s2" "y \<in> used_sectors s2" "y \<notin> fm_blocks s2"
      using s2(4,5) d2(2,3) fm_blocks_step [OF s2(2)] fm_blocks_used [OF ok] by auto
    have es': "es = dec32s INDIRECT_COUNT (vw s2 y)" using es(1) True by (simp add: s2(3) dec32s_zeros)
    obtain k xs s' where h: "alloc_index (inode_write_at (Suc n)) s blk cnt = Some (k, y, s')" "fresh s2 xs"
      "if k then length xs = cnt - m \<and> fs_step s2 s' (set xs) (insert y (set xs))
           \<and> (\<forall>x \<in> set xs. vw s' x = zeros) \<and> dec32s INDIRECT_COUNT (vw s' y) = overwrite es m xs
         else length xs < cnt - m \<and> fs_step s2 s' (set xs) (set xs) \<and> used_sectors s' = {x. x < nsec s2}"
      using alloc_entries_rep [OF d2(1) y es' es(2-5), of n] True r(1) Some s2(1) by (auto simp: alloc_index_def)
    have f: "fresh s (y # xs)" by (rule fresh_Cons [OF s2(2,4,5) h(2)])
    have "fs_step s2 s' (set xs) (insert y (set xs))"
      using h(3) fs_step_mono [of s2 s' "set xs" "set xs" "insert y (set xs)"] by (auto split: if_splits)
    then have st: "fs_step s s' (insert y (set xs)) (insert y (set xs))" using fs_step_trans [OF s2(2)] by fastforce
    show ?thesis
      by (rule exI [of _ k], rule exI [of _ y], rule exI [of _ xs], rule exI [of _ "[y]"], rule exI [of _ s'])
        (use h(1,3) f True d2(2) st in \<open>auto split: if_splits\<close>)
  qed
qed

section \<open>Files that may grow\<close>

text \<open>
  In a file that may grow the entries after its last sector are 0, and its own blocks are used ones
  other than sector 0 and those of the free map's file.
\<close>

definition spare_zero :: "(block_sector_t \<Rightarrow> u8 list) \<Rightarrow> inode_disk \<Rightarrow> bool" where
  "spare_zero v d \<longleftrightarrow> (\<forall>j < DIRECT_COUNT. nsecs d \<le> j \<longrightarrow> direct_blocks d ! j = 0)
     \<and> (if nsecs d \<le> DIRECT_COUNT then indirect_block d = 0
        else \<forall>j < INDIRECT_COUNT. nsecs d \<le> DIRECT_COUNT + j \<longrightarrow> dec32s INDIRECT_COUNT (v (indirect_block d)) ! j = 0)"

definition file_ok :: "fs_state \<Rightarrow> inode_disk \<Rightarrow> bool" where
  "file_ok s d \<longleftrightarrow> inode_ok (vw s) (nsec s) d \<and> spare_zero (vw s) d
     \<and> set (blocks_of (vw s) d) \<subseteq> used_sectors s - insert 0 (fm_blocks s)"

lemma file_okD:
  assumes "file_ok s d"
  shows "inode_ok (vw s) (nsec s) d" "spare_zero (vw s) d"
    "\<And>x. x \<in> set (blocks_of (vw s) d) \<Longrightarrow> x \<in> used_sectors s \<and> x \<noteq> 0 \<and> x \<notin> fm_blocks s"
  using assms by (auto simp: file_ok_def)

lemma direct_nonzero:
  assumes "file_ok s d" "j < nsecs d" "j < DIRECT_COUNT"
  shows "direct_blocks d ! j \<noteq> 0"
proof -
  note i = inode_okD [OF file_okD(1) [OF assms(1)]]
  have "direct_blocks d ! j = data_sectors (vw s) d ! j"
    using assms(2,3) i(1) by (simp add: data_sectors_def sectors_of_def nth_append)
  then have "direct_blocks d ! j \<in> set (data_sectors (vw s) d)"
    using assms(2) length_data_sectors [OF file_okD(1) [OF assms(1)]] by (metis nth_mem)
  then show ?thesis using file_okD(3) [OF assms(1)] by (metis Un_iff set_append)
qed

lemma indirect_nonzero:
  assumes "file_ok s d" "DIRECT_COUNT + j < nsecs d"
  shows "dec32s INDIRECT_COUNT (vw s (indirect_block d)) ! j \<noteq> 0"
proof -
  note i = inode_okD [OF file_okD(1) [OF assms(1)]]
  have "dec32s INDIRECT_COUNT (vw s (indirect_block d)) ! j = data_sectors (vw s) d ! (DIRECT_COUNT + j)"
    using assms(2) i(1) by (simp add: data_sectors_def sectors_of_def nth_append)
  then have "dec32s INDIRECT_COUNT (vw s (indirect_block d)) ! j \<in> set (data_sectors (vw s) d)"
    using assms(2) length_data_sectors [OF file_okD(1) [OF assms(1)]] by (metis nth_mem)
  then show ?thesis using file_okD(3) [OF assms(1)] by (metis Un_iff set_append)
qed


lemma bytes_to_sectors_nsecs:
  assumes "0 \<le> len" "len + 512 \<le> OFF_MAX"
  shows "bytes_to_sectors len = Some (nsecs (d\<lparr>dlength := len\<rparr>))"
  using assms by (simp add: bytes_to_sectors_def nsecs_def sdiv_pos)

lemma fresh_append:
  assumes "fs_step s s' (set xs) w" "fresh s xs" "fresh s' ys"
  shows "fresh s (xs @ ys)"
  using assms fs_stepD(2,3) [OF assms(1)] by (auto simp: fresh_def)

text \<open>\<open>grown s d len s' d' xs ys\<close>: the file has got the data sectors \<open>xs\<close> and the index blocks \<open>ys\<close>.\<close>

definition grown :: "fs_state \<Rightarrow> inode_disk \<Rightarrow> off_t \<Rightarrow> fs_state \<Rightarrow> inode_disk \<Rightarrow>
    block_sector_t list \<Rightarrow> block_sector_t list \<Rightarrow> bool" where
  "grown s d len s' d' xs ys \<longleftrightarrow> fresh s (xs @ ys)
     \<and> fs_step s s' (set (xs @ ys)) (set (xs @ ys) \<union> set (index_blocks (d'\<lparr>dlength := len\<rparr>)))
     \<and> (\<forall>x \<in> set xs. vw s' x = zeros)
     \<and> data_sectors (vw s') (d'\<lparr>dlength := len\<rparr>) = data_sectors (vw s) d @ xs
     \<and> index_blocks (d'\<lparr>dlength := len\<rparr>) = index_blocks d @ ys
     \<and> length (direct_blocks d') = DIRECT_COUNT \<and> spare_zero (vw s') (d'\<lparr>dlength := len\<rparr>)
     \<and> dlength d' = dlength d \<and> magic d' = magic d \<and> directory d' = directory d"

text \<open>A file that stays within its direct blocks.\<close>

lemma inode_allocate_direct:
  assumes ok: "fs_ok s" and f: "file_ok s d" and len: "dlength d \<le> len" "len + 512 \<le> OFF_MAX"
    and n: "N = nsecs (d\<lparr>dlength := len\<rparr>)" "N \<le> DIRECT_COUNT"
  shows "\<exists>ok d' s' xs. inode_allocate (inode_write_at (Suc n)) s d len = Some (ok, d', s')
    \<and> (if ok then grown s d len s' d' xs []
       else fresh s xs \<and> length xs < N - nsecs d \<and> fs_step s s' (set xs) (set xs) \<and> used_sectors s' = {x. x < nsec s})"
proof -
  let ?wr = "inode_write_at (Suc n)" and ?bs = "direct_blocks d" and ?m = "nsecs d"
  note i = inode_okD [OF file_okD(1) [OF f]]
  have m: "?m \<le> N" using len(1) by (simp add: n(1) nsecs_def nat_mono zdiv_mono1)
  have sk: "alloc_blocks ?wr s ?bs 0 N = alloc_blocks ?wr s ?bs ?m (N - ?m)"
    using alloc_blocks_skip [of 0 ?m ?bs ?wr s "N - ?m"] m n(2) direct_nonzero [OF f] by simp
  have z: "\<forall>j. ?m \<le> j \<and> j < ?m + (N - ?m) \<longrightarrow> ?bs ! j = 0"
    using file_okD(2) [OF f] m n(2) by (simp add: spare_zero_def)
  obtain k bs xs s' where h: "alloc_blocks ?wr s ?bs ?m (N - ?m) = Some (k, bs, s')" "fresh s xs"
    "length xs \<le> N - ?m" "bs = overwrite ?bs ?m xs" "fs_step s s' (set xs) (set xs)" "\<forall>x \<in> set xs. vw s' x = zeros"
    "if k then length xs = N - ?m else length xs < N - ?m \<and> used_sectors s' = {x. x < nsec s}"
    using alloc_blocks_rep [OF ok, of ?m "N - ?m" ?bs n] z i(1) m n(2) by auto
  let ?d = "d\<lparr>direct_blocks := bs\<rparr>" and ?e = "d\<lparr>direct_blocks := bs, dlength := len\<rparr>"
  have ia: "inode_allocate ?wr s d len = Some (k, ?d, s')"
    using bytes_to_sectors_nsecs [of len d] i(2) len n h(1) sk
    by (auto simp: inode_allocate_def Let_def)
  have "grown s d len s' ?d xs []" if k
  proof -
    have l: "length xs = N - ?m" using that h(7) by simp
    have e: "nsecs ?e = N" by (simp add: n(1) nsecs_def)
    have lb: "length bs = 123" using h(3,4) i(1) m n(2) by simp
    have nth: "bs ! j = (if ?m \<le> j \<and> j < N then xs ! (j - ?m) else ?bs ! j)" if "j < 123" for j
      using that l m n(2) i(1) by (simp add: h(4) nth_overwrite)
    have "data_sectors (vw s') ?e = data_sectors (vw s) d @ xs"
      unfolding data_sectors_def e using i(1) m n(2) l by (simp add: sectors_of_def h(4) overwrite_def)
    moreover have "spare_zero (vw s') ?e"
      using file_okD(2) [OF f] n(2) m nth by (simp add: spare_zero_def e)
    moreover have "index_blocks ?e = index_blocks d" using m n(2) by (simp add: index_blocks_def e)
    ultimately show ?thesis
      using h(2,6) lb fs_step_mono [OF h(5), of "set xs \<union> set (index_blocks ?e)"] by (simp add: grown_def)
  qed
  then show ?thesis
    by (intro exI [of _ k] exI [of _ ?d] exI [of _ s'] exI [of _ xs]) (use ia h(2,5,7) in simp)
qed

end
