(* ===== verification/Filesys_Extend.thy ===== *)
theory Filesys_Extend
  imports Filesys_Growth
begin

text \<open>
  \<open>inode_allocate\<close> (\<open>filesys/inode.c\<close>) for files that need the indirect block.
\<close>

text \<open>A file that needs the indirect block.\<close>

lemma take_overwrite_tail:
  assumes "m + length xs = k" "k \<le> length es"
  shows "take k (overwrite es m xs) = take m es @ xs"
  using assms by (auto simp: overwrite_def)

lemma overwrite_after: "m + length xs \<le> j \<Longrightarrow> m + length xs \<le> length es \<Longrightarrow> j < length es \<Longrightarrow> overwrite es m xs ! j = es ! j"
  by (simp add: nth_overwrite)

lemma inode_allocate_indirect:
  assumes ok: "fs_ok s" and f: "file_ok s d" and len: "dlength d \<le> len" "len + 512 \<le> OFF_MAX"
    and n: "N = nsecs (d\<lparr>dlength := len\<rparr>)" "DIRECT_COUNT < N" "N \<le> 251"
  shows "\<exists>ok d' s' xs ys. inode_allocate (inode_write_at (Suc n)) s d len = Some (ok, d', s')
    \<and> (if ok then grown s d len s' d' xs ys
       else fresh s xs \<and> length xs < N - nsecs d + 1 \<and> fs_step s s' (set xs) (set xs) \<and> used_sectors s' = {x. x < nsec s})"
proof -
  let ?wr = "inode_write_at (Suc n)" and ?bs = "direct_blocks d" and ?m = "nsecs d"
  let ?k = "min ?m 123"
  note i = inode_okD [OF file_okD(1) [OF f]]
  have m: "?m \<le> N" using len(1) by (simp add: n(1) nsecs_def nat_mono zdiv_mono1)
  have sk: "alloc_blocks ?wr s ?bs 0 123 = alloc_blocks ?wr s ?bs ?k (123 - ?k)"
    using alloc_blocks_skip [of 0 ?k ?bs ?wr s "123 - ?k"] direct_nonzero [OF f] by simp
  have z: "\<forall>j. ?k \<le> j \<and> j < ?k + (123 - ?k) \<longrightarrow> ?bs ! j = 0"
    using file_okD(2) [OF f] by (auto simp: spare_zero_def)
  obtain k bs xs s1 where h: "alloc_blocks ?wr s ?bs ?k (123 - ?k) = Some (k, bs, s1)" "fresh s xs"
    "length xs \<le> 123 - ?k" "bs = overwrite ?bs ?k xs" "fs_step s s1 (set xs) (set xs)" "\<forall>x \<in> set xs. vw s1 x = zeros"
    "if k then length xs = 123 - ?k else length xs < 123 - ?k \<and> used_sectors s1 = {x. x < nsec s}"
    using alloc_blocks_rep [OF ok, of ?k "123 - ?k" ?bs n] z i(1) by auto
  let ?d = "d\<lparr>direct_blocks := bs\<rparr>"
  have ia: "inode_allocate ?wr s d len = (if k then do {
      (ok, blk, s) \<leftarrow> alloc_index ?wr s1 (indirect_block d) (N - 123);
      Some (ok, ?d\<lparr>indirect_block := blk\<rparr>, s) } else Some (False, ?d, s1))"
  proof -
    have "bytes_to_sectors len = Some N" using bytes_to_sectors_nsecs [of len d] i(2) len n(1) by simp
    moreover have "\<not> INDIRECT_COUNT < N - 123" "0 < N - 123" using n(2,3) by simp_all
    ultimately show ?thesis using n(2) by (simp add: inode_allocate_def Let_def trans [OF sk h(1)])
  qed
  show ?thesis
  proof (cases k)
    case False
    then have "length xs < 123 - ?k" using h(7) by simp
    then have "length xs < N - ?m + 1" using n(2) by arith
    then show ?thesis
      by (intro exI [of _ False] exI [of _ ?d] exI [of _ s1] exI [of _ xs] exI [of _ "[]"])
        (use False ia h(2,5,7) n(2) in simp)
  next
    case True
    let ?blk = "indirect_block d"
    let ?es = "if ?blk = 0 then replicate INDIRECT_COUNT 0 else dec32s INDIRECT_COUNT (vw s1 ?blk)"
    note d1 = fs_stepD [OF h(5)]
    have big: "?m > 123" if "?blk \<noteq> 0" using file_okD(2) [OF f] that by (auto simp: spare_zero_def split: if_splits)
    have small: "?m \<le> 123" if "?blk = 0"
    proof (rule ccontr)
      assume "\<not> ?m \<le> 123"
      then show False using file_okD(3) [OF f, of ?blk] that by (simp add: index_blocks_def)
    qed
    have blk: "?blk \<in> used_sectors s \<and> ?blk \<notin> fm_blocks s \<and> ?blk < nsec s \<and> ?blk \<notin> set xs" if "?blk \<noteq> 0"
      using file_okD(3) [OF f, of ?blk] big [OF that] i(6) [of ?blk] h(2) by (auto simp: index_blocks_def fresh_def)
    then have same: "vw s1 ?blk = vw s ?blk" if "?blk \<noteq> 0"
      using d1(5) that fm_data_blocks by blast
    have es0: "\<forall>j < ?m - 123. ?es ! j \<noteq> 0"
      using small same indirect_nonzero [OF f] by auto
    have es1: "\<forall>j. ?m - 123 \<le> j \<and> j < INDIRECT_COUNT \<longrightarrow> ?es ! j = 0"
      using big same file_okD(2) [OF f] by (auto simp: spare_zero_def)
    have bs1: "?blk \<noteq> 0 \<longrightarrow> ?blk < nsec s1 \<and> ?blk \<in> used_sectors s1 \<and> ?blk \<notin> fm_blocks s1"
      using blk d1(2,3) fm_blocks_step [OF h(5)] by simp
    have le: "?m - 123 \<le> N - 123" "N - 123 \<le> INDIRECT_COUNT" using m n(3) by simp_all
    from alloc_index_rep [OF d1(1) bs1 refl le es0 es1, of n]
    obtain r blk' us ys s' where g: "alloc_index ?wr s1 ?blk (N - 123) = Some (r, blk', s')" "fresh s1 (ys @ us)"
      "if r then length us = N - 123 - (?m - 123) \<and> fs_step s1 s' (set (ys @ us)) (insert blk' (set us))
         \<and> (\<forall>x \<in> set us. vw s' x = zeros) \<and> dec32s INDIRECT_COUNT (vw s' blk') = overwrite ?es (?m - 123) us
         \<and> (if ?blk = 0 then ys = [blk'] else ys = [] \<and> blk' = ?blk)
       else length (ys @ us) < N - 123 - (?m - 123) + (if ?blk = 0 then 1 else 0)
         \<and> fs_step s1 s' (set (ys @ us)) (set (ys @ us)) \<and> used_sectors s' = {x. x < nsec s1}"
      by (elim exE conjE) (rule that; assumption)
    have fr: "fresh s (xs @ ys @ us)" by (rule fresh_append [OF h(5,2) g(2)])
    let ?e = "?d\<lparr>indirect_block := blk'\<rparr>"
    have ia': "inode_allocate ?wr s d len = Some (r, ?e, s')" using ia True g(1) by simp
    show ?thesis
    proof (cases r)
      case False
      then have l: "length (ys @ us) < N - 123 - (?m - 123) + (if ?blk = 0 then 1 else 0)"
        and st: "fs_step s1 s' (set (ys @ us)) (set (ys @ us))" and u: "used_sectors s' = {x. x < nsec s1}"
        using g(3) by simp_all
      have "length (xs @ ys @ us) < N - ?m + 1" using l h(3) n(2) m by (auto split: if_splits)
      moreover have "fs_step s s' (set (xs @ ys @ us)) (set (xs @ ys @ us))" using fs_step_trans [OF h(5) st] by simp
      ultimately show ?thesis using ia' False fr u d1(2)
        by (intro exI [of _ False] exI [of _ ?e] exI [of _ s'] exI [of _ "xs @ ys @ us"] exI [of _ "[]"]) simp
    next
      case rt: True
      then have l: "length us = N - 123 - (?m - 123)" and st: "fs_step s1 s' (set (ys @ us)) (insert blk' (set us))"
        and zu: "\<forall>x \<in> set us. vw s' x = zeros"
        and en: "dec32s INDIRECT_COUNT (vw s' blk') = overwrite ?es (?m - 123) us"
        and ys: "if ?blk = 0 then ys = [blk'] else ys = [] \<and> blk' = ?blk" using g(3) by simp_all
      have lb: "length bs = 123" using h(3,4) i(1) by simp
      have e: "nsecs (?e\<lparr>dlength := len\<rparr>) = N" by (simp add: n(1) nsecs_def)
      have ib: "index_blocks (?e\<lparr>dlength := len\<rparr>) = [blk']" using n(2) by (simp add: index_blocks_def e)
      have zx: "vw s' x = zeros" if "x \<in> set xs" for x
      proof -
        have "x \<noteq> blk'" "x \<notin> set us" using fr ys blk that by (auto simp: fresh_def split: if_splits)
        moreover have "x \<notin> fm_data s1"
          using that h(2) fm_data_used [OF ok] d1(4) by (auto simp: fresh_def)
        ultimately show ?thesis using fs_stepD(5) [OF st] h(6) that by simp
      qed
      have "take (N - 123) (overwrite ?es (?m - 123) us) = take (?m - 123) ?es @ us"
        by (rule take_overwrite_tail) (use l le in simp_all)
      moreover have "bs @ take (?m - 123) ?es = data_sectors (vw s) d @ xs"
      proof (cases "?m \<le> 123")
        case True
        then show ?thesis using h(4,7) \<open>k\<close> i(1) by (simp add: overwrite_def data_sectors_def sectors_of_def)
      next
        case False
        then have "?blk \<noteq> 0" using small by blast
        then show ?thesis using h(4,7) \<open>k\<close> i(1) False same by (simp add: overwrite_def data_sectors_def sectors_of_def)
      qed
      ultimately have "data_sectors (vw s') (?e\<lparr>dlength := len\<rparr>) = data_sectors (vw s) d @ xs @ us"
        unfolding data_sectors_def [of "vw s'"] e using lb n(2) en by (simp add: sectors_of_def)
      moreover have "dec32s INDIRECT_COUNT (vw s' blk') ! j = 0" if "j < INDIRECT_COUNT" "N \<le> 123 + j" for j
      proof -
        have "overwrite ?es (?m - 123) us ! j = ?es ! j"
          by (rule overwrite_after) (use that l le in simp_all)
        then show ?thesis using en es1 that le by simp
      qed
      then have "spare_zero (vw s') (?e\<lparr>dlength := len\<rparr>)" using n(2) by (simp add: spare_zero_def e)
      moreover have "index_blocks d @ ys = [blk']"
        using ys big small by (auto simp: index_blocks_def split: if_splits)
      moreover have "fs_step s s' (set ((xs @ us) @ ys)) (set ((xs @ us) @ ys) \<union> {blk'})"
        using fs_step_mono [OF fs_step_trans [OF h(5) st], of "set ((xs @ us) @ ys) \<union> {blk'}"]
        by (auto simp: Un_ac)
      moreover have "fresh s ((xs @ us) @ ys)" using fr by (auto simp: fresh_def)
      ultimately have "grown s d len s' ?e (xs @ us) ys"
        unfolding grown_def ib using zx zu lb by (auto simp: ball_Un)
      then show ?thesis using ia' rt
        by (intro exI [of _ True] exI [of _ ?e] exI [of _ s'] exI [of _ "xs @ us"] exI [of _ ys]) simp
    qed
  qed
qed

end
