(* ===== verification/Filesys_Write.thy ===== *)
theory Filesys_Write
  imports Filesys_Extend
begin

text \<open>
  What \<open>inode_write_at\<close> and \<open>inode_read_at\<close> (\<open>filesys/inode.c\<close>) do to the contents of files, growing files
  included.  \<open>writable\<close> is the invariant of an open file that the operations keep.
\<close>

section \<open>The contents of a file that has grown\<close>

lemma inode_allocate_rep:
  assumes "fs_ok s" "file_ok s d" "dlength d \<le> len" "len + 512 \<le> OFF_MAX"
    and n: "N = nsecs (d\<lparr>dlength := len\<rparr>)" "N \<le> 251"
  shows "\<exists>ok d' s' xs ys. inode_allocate (inode_write_at (Suc n)) s d len = Some (ok, d', s')
    \<and> (if ok then grown s d len s' d' xs ys
       else fresh s xs \<and> length xs < N - nsecs d + 1 \<and> fs_step s s' (set xs) (set xs) \<and> used_sectors s' = {x. x < nsec s})"
proof (cases "N \<le> DIRECT_COUNT")
  case True
  from inode_allocate_direct [OF assms(1-4) n(1) True, of n]
  obtain k d' s' xs where h: "inode_allocate (inode_write_at (Suc n)) s d len = Some (k, d', s')"
    "if k then grown s d len s' d' xs [] else fresh s xs \<and> length xs < N - nsecs d \<and> fs_step s s' (set xs) (set xs)
       \<and> used_sectors s' = {x. x < nsec s}" by (elim exE conjE) (rule that; assumption)
  show ?thesis
    by (rule exI [of _ k], rule exI [of _ d'], rule exI [of _ s'], rule exI [of _ xs], rule exI [of _ "[]"])
      (use h in \<open>auto split: if_splits\<close>)
next
  case False
  show ?thesis by (rule inode_allocate_indirect [OF assms(1-4) n(1) _ n(2)]) (use False in simp)
qed

text \<open>There is room when as many sectors are free as the file needs, one more for its index block.\<close>

definition free_sectors :: "fs_state \<Rightarrow> block_sector_t set" where
  "free_sectors s = {x. x < nsec s} - used_sectors s"

lemma inode_allocate_room:
  assumes "fs_ok s" "file_ok s d" "dlength d \<le> len" "len + 512 \<le> OFF_MAX"
    and n: "N = nsecs (d\<lparr>dlength := len\<rparr>)" "N \<le> 251" and room: "N - nsecs d + 1 \<le> card (free_sectors s)"
  shows "\<exists>d' s' xs ys. inode_allocate (inode_write_at (Suc n)) s d len = Some (True, d', s') \<and> grown s d len s' d' xs ys"
proof -
  from inode_allocate_rep [OF assms(1-6), of n]
  obtain k d' s' xs ys where h: "inode_allocate (inode_write_at (Suc n)) s d len = Some (k, d', s')"
    "if k then grown s d len s' d' xs ys
       else fresh s xs \<and> length xs < N - nsecs d + 1 \<and> fs_step s s' (set xs) (set xs) \<and> used_sectors s' = {x. x < nsec s}"
    by (elim exE conjE) (rule that; assumption)
  have k
  proof (rule ccontr)
    assume "\<not> k"
    then have l: "length xs < N - nsecs d + 1" and st: "fs_step s s' (set xs) (set xs)" and u: "used_sectors s' = {x. x < nsec s}"
      using h(2) by simp_all
    have "free_sectors s \<subseteq> set xs" using u fs_stepD(3) [OF st] by (auto simp: free_sectors_def)
    then have "card (free_sectors s) \<le> length xs" by (meson List.finite_set card_length card_mono order_trans)
    then show False using l room by simp
  qed
  then show ?thesis using h by auto
qed

text \<open>The unused bytes after the end of a file, up to the end of its last sector, are zero.\<close>

definition slack_zero :: "(block_sector_t \<Rightarrow> u8 list) \<Rightarrow> inode_disk \<Rightarrow> bool" where
  "slack_zero v d \<longleftrightarrow> drop (nat (dlength d)) (raw_bytes v d) = replicate (512 * nsecs d - nat (dlength d)) 0"

lemma grownD:
  assumes "grown s d len s' d' xs ys"
  shows "fresh s (xs @ ys)" "fs_step s s' (set (xs @ ys)) (set (xs @ ys) \<union> set (index_blocks (d'\<lparr>dlength := len\<rparr>)))"
    "\<forall>x \<in> set xs. vw s' x = zeros" "data_sectors (vw s') (d'\<lparr>dlength := len\<rparr>) = data_sectors (vw s) d @ xs"
    "index_blocks (d'\<lparr>dlength := len\<rparr>) = index_blocks d @ ys"
    "length (direct_blocks d') = DIRECT_COUNT" "spare_zero (vw s') (d'\<lparr>dlength := len\<rparr>)"
    "magic d' = magic d" "directory d' = directory d"
  using assms unfolding grown_def by blast+

lemma grown_raw:
  assumes ok: "fs_ok s" and f: "file_ok s d" and g: "grown s d len s' d' xs ys"
  shows "raw_bytes (vw s') (d'\<lparr>dlength := len\<rparr>) = raw_bytes (vw s) d @ replicate (512 * length xs) 0"
proof -
  let ?e = "d'\<lparr>dlength := len\<rparr>"
  note fr = grownD(1) [OF g] and st = grownD(2) [OF g] and zx = grownD(3) [OF g]
    and ds = grownD(4) [OF g] and ib = grownD(5) [OF g]
  have "vw s' x = vw s x" if "x \<in> set (data_sectors (vw s) d)" for x
  proof -
    have "x \<in> used_sectors s" "x \<notin> fm_blocks s" using file_okD(3) [OF f, of x] that by simp_all
    moreover have "x \<notin> set (index_blocks d)" using inode_okD(5) [OF file_okD(1) [OF f]] that by auto
    ultimately have "x \<notin> set (xs @ ys) \<union> set (index_blocks ?e)" "x \<notin> fm_data s"
      using fr fm_data_blocks by (auto simp: ib fresh_def)
    then show ?thesis using fs_stepD(5) [OF st] by blast
  qed
  then have "map (vw s') (data_sectors (vw s) d) = map (vw s) (data_sectors (vw s) d)" by (intro map_cong) auto
  moreover have "concat (map (vw s') xs) = replicate (512 * length xs) 0"
    using zx by (induction xs) (simp_all add: zeros_def replicate_add [symmetric])
  ultimately show ?thesis unfolding raw_bytes_def ds map_append concat_append by (simp only:)
qed

lemma grown_ok:
  assumes ok: "fs_ok s" and f: "file_ok s d" and g: "grown s d len s' d' xs ys"
    and len: "dlength d \<le> len" "len \<le> OFF_MAX" "nsecs (d'\<lparr>dlength := len\<rparr>) \<le> 251"
  shows "file_ok s' (d'\<lparr>dlength := len\<rparr>)"
proof -
  let ?e = "d'\<lparr>dlength := len\<rparr>"
  note i = inode_okD [OF file_okD(1) [OF f]]
  note fr = grownD(1) [OF g] and st = grownD(2) [OF g] and ds = grownD(4) [OF g] and ib = grownD(5) [OF g]
    and dl = grownD(6) [OF g] and sz = grownD(7) [OF g]
  note d = fs_stepD [OF st]
  have new: "x \<in> used_sectors s' \<and> x \<noteq> 0 \<and> x \<notin> fm_blocks s' \<and> x < nsec s'"
    if "x \<in> set (blocks_of (vw s) d) \<union> set (xs @ ys)" for x
  proof (cases "x \<in> set (blocks_of (vw s) d)")
    case True
    then show ?thesis using file_okD(3) [OF f True] i(6) [OF True] d(2,3) fm_blocks_step [OF st] by auto
  next
    case False
    then show ?thesis using that fr d(2,3) fm_blocks_step [OF st] fm_blocks_used [OF ok] fs_okD(4) [OF ok]
      by (auto simp: fresh_def)
  qed
  have "distinct (blocks_of (vw s') ?e)"
    using i(5) fr file_okD(3) [OF f] unfolding ds ib by (auto simp: fresh_def)
  moreover have "blocks_of (vw s') ?e = data_sectors (vw s) d @ xs @ index_blocks d @ ys" by (simp add: ds ib)
  ultimately show ?thesis using new len i(2) dl sz by (auto simp: file_ok_def inode_ok_def inode_fits_def)
qed

lemma grown_bytes:
  assumes ok: "fs_ok s" and f: "file_ok s d" "slack_zero (vw s) d" and g: "grown s d len s' d' xs ys"
    and len: "dlength d \<le> len" "len \<le> OFF_MAX" "nsecs (d'\<lparr>dlength := len\<rparr>) \<le> 251"
  shows "slack_zero (vw s') (d'\<lparr>dlength := len\<rparr>)"
    "file_bytes (vw s') (d'\<lparr>dlength := len\<rparr>) = file_bytes (vw s) d @ replicate (nat (len - dlength d)) 0"
proof -
  let ?e = "d'\<lparr>dlength := len\<rparr>"
  note i = inode_okD [OF file_okD(1) [OF f(1)]]
  have views: "\<forall>x < nsec s. length (vw s x) = 512" using cache_view_length [OF fs_okD(1) [OF ok]] by blast
  have fb: "raw_bytes (vw s) d = file_bytes (vw s) d @ replicate (512 * nsecs d - nat (dlength d)) 0"
    using f(2) append_take_drop_id [of "nat (dlength d)" "raw_bytes (vw s) d"] by (simp add: slack_zero_def file_bytes_def)
  have fl: "length (file_bytes (vw s) d) = nat (dlength d)" by (rule length_file_bytes [OF file_okD(1) [OF f(1)] views])
  have "length (data_sectors (vw s') ?e) = nsecs d + length xs"
    using grownD(4) [OF g] length_data_sectors [OF file_okD(1) [OF f(1)]] by simp
  then have ne: "nsecs ?e = nsecs d + length xs"
    using length_data_sectors [OF file_okD(1) [OF grown_ok [OF ok f(1) g len]]] by simp
  have raw: "raw_bytes (vw s') ?e = file_bytes (vw s) d @ replicate (512 * nsecs ?e - nat (dlength d)) 0"
    unfolding grown_raw [OF ok f(1) g] fb ne
    using sectors_cover [OF i(2)] by (simp add: replicate_add [symmetric])
  have "nat len \<le> 512 * nsecs ?e" using sectors_cover [of ?e] i(2) len(1) by simp
  moreover have "nat (dlength d) \<le> nat len" "nat (len - dlength d) = nat len - nat (dlength d)"
    using len(1) i(2) by simp_all
  ultimately show "slack_zero (vw s') ?e"
    "file_bytes (vw s') ?e = file_bytes (vw s) d @ replicate (nat (len - dlength d)) 0"
    using fl by (simp_all add: slack_zero_def file_bytes_def [of "vw s'"] raw min_absorb1 diff_le_mono)
qed


section \<open>Writing past the end of a file\<close>

text \<open>Updating an open inode other than the free map's keeps the file system's invariant.\<close>

definition not_fm :: "fs_state \<Rightarrow> nat \<Rightarrow> bool" where
  "not_fm s ip \<longleftrightarrow> (\<forall>f. get_file s (free_map_file s) = Some f \<longrightarrow> finode f \<noteq> ip)"

lemma put_inode_keeps:
  assumes ip: "get_inode s ip = Some i" and nf: "not_fm s ip" and t_def: "t = put_obj s ip (Inode j)"
  shows "get_file t = get_file s" "fm_inode t = fm_inode s" "fm_data t = fm_data s" "fm_blocks t = fm_blocks s"
    "used_sectors t = used_sectors s" "fs_ok s \<Longrightarrow> fs_ok t" "get_inode t ip = Some j"
proof -
  have v: "cch t = cch s" "free_map t = free_map s" "free_map_file t = free_map_file s"
    by (simp_all add: t_def put_obj_def)
  show g: "get_file t = get_file s" "get_inode t ip = Some j"
    using ip by (auto simp: t_def put_obj_def get_file_def get_inode_def fun_eq_iff split: option.splits object.splits)
  show fm: "fm_inode t = fm_inode s"
    using nf by (cases "get_file s (free_map_file s)")
      (simp_all add: fm_inode_def g v not_fm_def, simp add: t_def put_obj_def get_inode_def)
  show "fm_data t = fm_data s" "fm_blocks t = fm_blocks s" "used_sectors t = used_sectors s"
    by (simp_all add: fm_data_def fm_blocks_def used_sectors_def fm v split: option.split)
  then have "fs_ok t = fs_ok s" by (simp only: fs_ok_def fm_ok_def fm v)
  then show "fs_ok s \<Longrightarrow> fs_ok t" by simp
qed

lemma spare_zero_cong:
  "spare_zero v d \<Longrightarrow> (nsecs d > DIRECT_COUNT \<Longrightarrow> v' (indirect_block d) = v (indirect_block d)) \<Longrightarrow> spare_zero v' d"
  by (simp add: spare_zero_def split: if_splits)

lemma file_ok_cong:
  assumes f: "file_ok s d" and nsec: "nsec s' = nsec s" and u: "used_sectors s' = used_sectors s" "fm_blocks s' = fm_blocks s"
    and ib: "\<And>x. x \<in> set (index_blocks d) \<Longrightarrow> vw s' x = vw s x"
  shows "file_ok s' d" "data_sectors (vw s') d = data_sectors (vw s) d"
proof -
  note i = inode_okD [OF file_okD(1) [OF f]]
  show ds: "data_sectors (vw s') d = data_sectors (vw s) d"
    by (rule data_sectors_cong [OF _ i(1)]) (use ib in \<open>simp add: index_blocks_def\<close>)
  have "spare_zero (vw s') d"
    by (rule spare_zero_cong [OF file_okD(2) [OF f]]) (use ib in \<open>simp add: index_blocks_def\<close>)
  then show "file_ok s' d"
    using f inode_ok_cong [OF file_okD(1) [OF f] ds] by (simp add: file_ok_def nsec u ds)
qed


text \<open>
  \<open>writable s ip i\<close>: the inode at \<open>ip\<close> is open for a file that may be written: a well-formed one, not the
  free map's, whose own sector is a used one that is none of its blocks.
\<close>

definition writable :: "fs_state \<Rightarrow> nat \<Rightarrow> inode \<Rightarrow> bool" where
  "writable s ip i \<longleftrightarrow> get_inode s ip = Some i \<and> deny_write_cnt i = 0 \<and> not_fm s ip
     \<and> file_ok s (idata i) \<and> slack_zero (vw s) (idata i)
     \<and> isector i \<in> used_sectors s - (fm_blocks s \<union> set (blocks_of (vw s) (idata i)))"

lemma writableD:
  assumes "writable s ip i"
  shows "get_inode s ip = Some i" "deny_write_cnt i = 0" "not_fm s ip" "file_ok s (idata i)"
    "slack_zero (vw s) (idata i)" "isector i \<in> used_sectors s" "isector i \<notin> fm_blocks s"
    "isector i \<notin> set (blocks_of (vw s) (idata i))"
  using assms by (auto simp: writable_def)

lemma dec_view_inode:
  "inode_fits d \<Longrightarrow> length b = 512 \<Longrightarrow> dec_inode (overwrite b 0 (enc_inode d)) = d"
  using dec_enc_inode [of d] length_enc_inode [of d] by simp

lemma extend_file_rep:
  assumes ok: "fs_ok s" and w: "writable s ip i"
    and len: "dlength (idata i) < len" "len + 512 \<le> OFF_MAX"
    and n: "N = nsecs ((idata i)\<lparr>dlength := len\<rparr>)" "N \<le> 251"
    and room: "N - nsecs (idata i) + 1 \<le> card (free_sectors s)"
  shows "\<exists>s' d. extend_file (inode_write_at (Suc n)) s ip i len = Some s'
    \<and> writable s' ip (i\<lparr>idata := d\<rparr>) \<and> fs_ok s' \<and> nsec s' = nsec s
    \<and> dlength d = len \<and> directory d = directory (idata i)
    \<and> file_bytes (vw s') d = file_bytes (vw s) (idata i) @ replicate (nat (len - dlength (idata i))) 0
    \<and> set (data_sectors (vw s') d) \<inter> used_sectors s \<subseteq> set (data_sectors (vw s) (idata i))
    \<and> dec_inode (vw s' (isector i)) = d
    \<and> (\<forall>x \<in> used_sectors s. x \<notin> set (blocks_of (vw s) (idata i)) \<union> fm_data s \<union> {isector i} \<longrightarrow> vw s' x = vw s x)"
proof -
  let ?d = "idata i" and ?wr = "inode_write_at (Suc n)"
  note W = writableD [OF w]
  from inode_allocate_room [OF ok W(4) less_imp_le [OF len(1)] len(2) n room, of n]
  obtain d' s1 xs ys where a: "inode_allocate ?wr s ?d len = Some (True, d', s1)" "grown s ?d len s1 d' xs ys" by blast
  let ?e = "d'\<lparr>dlength := len\<rparr>"
  note st = grownD(2) [OF a(2)]
  note d1 = fs_stepD [OF st]
  have ne: "nsecs ?e \<le> 251" using n by (simp add: nsecs_def)
  have lm: "dlength ?d \<le> len" "len \<le> OFF_MAX" using len by simp_all
  have f1: "file_ok s1 ?e" by (rule grown_ok [OF ok W(4) a(2) lm ne])
  note g1 = grown_bytes [OF ok W(4,5) a(2) lm ne]
  let ?j = "i\<lparr>idata := ?e\<rparr>"
  let ?s2 = "put_obj s1 ip (Inode ?j)"
  have ip1: "get_inode s1 ip = Some i" "not_fm s1 ip" using W(1,3) d1(6,7,10) by (simp_all add: not_fm_def)
  note p = put_inode_keeps [OF ip1 refl, of ?j]
  have v2: "vw ?s2 = vw s1" "nsec ?s2 = nsec s1" by (simp_all add: put_obj_def)
  have si: "set_idata s1 ip ?e = Some ?s2" using ip1(1) by (simp add: set_idata_def)
  have sec: "isector i \<in> used_sectors s1" "isector i \<notin> fm_blocks s1" "isector i \<notin> set (blocks_of (vw s1) ?e)"
    using W(6-8) d1(3) fm_blocks_step [OF st] grownD(1,4,5) [OF a(2)] by (auto simp: fresh_def)
  have secn: "isector i < nsec s1" by (rule used_in_range [OF d1(1) sec(1)])
  have fits: "inode_fits ?e" using file_okD(1) [OF f1] by (simp add: inode_ok_def)
  have "\<exists>s3. cache_wr ?s2 (isector i) (enc_inode ?e) 0 = Some s3 \<and> fs_step ?s2 s3 {} {isector i}
      \<and> vw s3 = (vw ?s2)(isector i := overwrite (vw ?s2 (isector i)) 0 (enc_inode ?e))"
    by (rule cache_wr_step [OF p(6) [OF d1(1)]])
      (use secn v2 length_enc_inode [OF fits] fm_index [of s1 _ "isector i"] sec(2) p(2) in auto)
  then obtain s3 where s3: "cache_wr ?s2 (isector i) (enc_inode ?e) 0 = Some s3" "fs_step ?s2 s3 {} {isector i}"
    "vw s3 = (vw s1)(isector i := overwrite (vw s1 (isector i)) 0 (enc_inode ?e))" unfolding v2 by blast
  note d3 = fs_stepD [OF s3(2)]
  have same: "vw s3 x = vw s1 x" if "x \<in> set (blocks_of (vw s1) ?e)" for x using that sec(3) s3(3) by auto
  have us3: "used_sectors s3 = used_sectors s1" "fm_blocks s3 = fm_blocks s1" "nsec s3 = nsec s1"
    using d3(2,3) p(4,5) v2 fm_blocks_step [OF s3(2)] by simp_all
  have f3: "file_ok s3 ?e" and ds3: "data_sectors (vw s3) ?e = data_sectors (vw s1) ?e"
    by (rule file_ok_cong [OF f1 us3(3,1,2)], use same in simp)+
  have raw3: "raw_bytes (vw s3) ?e = raw_bytes (vw s1) ?e"
    unfolding raw_bytes_def ds3 by (rule arg_cong [of _ _ concat], rule map_cong) (use same in simp_all)
  have "extend_file ?wr s ip i len = Some s3"
    using len(1) a(1) si s3(1) by (simp add: extend_file_def)
  moreover have "writable s3 ip ?j"
    using g1(1) raw3 f3 sec us3 d3(6,7,10) p(1,7) ip1(2) W(2) ds3
    by (simp add: writable_def slack_zero_def not_fm_def put_obj_def)
  moreover have "file_bytes (vw s3) ?e = file_bytes (vw s) ?d @ replicate (nat (len - dlength ?d)) 0"
    using g1(2) raw3 by (simp add: file_bytes_def)
  moreover have "dec_inode (vw s3 (isector i)) = ?e"
    using dec_view_inode [OF fits] cache_view_length [OF fs_okD(1) [OF d1(1)] secn] s3(3) by simp
  moreover have "set (data_sectors (vw s3) ?e) \<inter> used_sectors s \<subseteq> set (data_sectors (vw s) ?d)"
    using grownD(1,4) [OF a(2)] ds3 by (auto simp: fresh_def)
  moreover have "vw s3 x = vw s x"
    if "x \<in> used_sectors s" "x \<notin> set (blocks_of (vw s) ?d) \<union> fm_data s \<union> {isector i}" for x
  proof -
    have "x \<notin> set (xs @ ys) \<union> set (index_blocks ?e)"
      using that grownD(1,5) [OF a(2)] by (auto simp: fresh_def)
    then show ?thesis using that d1(5) s3(3) by auto
  qed
  ultimately show ?thesis
    using d3(1) us3(3) d1(2) grownD(9) [OF a(2)]
    by (intro exI [of _ s3] exI [of _ ?e]) simp
qed


lemma drop_overwrite: "k + length b \<le> n \<Longrightarrow> n \<le> length xs \<Longrightarrow> drop n (overwrite xs k b) = drop n xs"
  by (intro nth_equalityI) (auto simp: nth_overwrite)

lemma writable_write_inside:
  assumes ok: "fs_ok s" and w: "writable s ip i"
    and b: "0 \<le> ofs" "0 \<le> sz" "ofs + sz \<le> dlength (idata i)" "nat sz \<le> length bf"
  shows "\<exists>s'. write_loop s (idata i) bf sz ofs 0 = Some (nat sz, ofs + sz, s') \<and> fs_ok s' \<and> writable s' ip i
    \<and> nsec s' = nsec s \<and> used_sectors s' = used_sectors s \<and> fm_data s' = fm_data s
    \<and> data_sectors (vw s') (idata i) = data_sectors (vw s) (idata i)
    \<and> file_bytes (vw s') (idata i) = overwrite (file_bytes (vw s) (idata i)) (nat ofs) (take (nat sz) bf)
    \<and> (\<forall>x. x \<notin> set (data_sectors (vw s) (idata i)) \<longrightarrow> vw s' x = vw s x)"
proof -
  let ?d = "idata i"
  note W = writableD [OF w]
  note io = file_okD(1) [OF W(4)]
  note i = inode_okD [OF io]
  have views: "\<forall>x < nsec s. length (vw s x) = 512" using cache_view_length [OF fs_okD(1) [OF ok]] by blast
  obtain s' v' where h: "write_loop s ?d bf sz ofs 0 = Some (nat sz, ofs + sz, s')" "cached s s' v'"
    "data_sectors v' ?d = data_sectors (vw s) ?d"
    "raw_bytes v' ?d = overwrite (raw_bytes (vw s) ?d) (nat ofs) (take (nat sz) bf)"
    "\<forall>x. x \<notin> set (data_sectors (vw s) ?d) \<longrightarrow> v' x = vw s x"
    using write_loop_rep [OF fs_okD(1) [OF ok] io b(1-3), of 0 bf] b(4) by (auto simp: subbuf_def)
  note c = cachedD [OF h(2)]
  have st: "fs_step s s' {} (set (data_sectors (vw s) ?d))"
  proof (rule cached_fs_step [OF ok h(2)])
    fix j assume j: "fm_inode s = Some j"
    then have "free_map_file s \<noteq> 0" by (auto simp: fm_inode_def split: if_splits)
    then have "length (direct_blocks (idata j)) = DIRECT_COUNT"
      using fs_okD(5) [OF ok] j inode_okD(1) by (auto simp: fm_ok_def)
    moreover have "x \<notin> set (data_sectors (vw s) ?d)" if "x \<in> set (index_blocks (idata j))" for x
      using that file_okD(3) [OF W(4), of x] j by (auto simp: fm_blocks_def)
    ultimately show "data_sectors v' (idata j) = data_sectors (vw s) (idata j)"
      using h(5) by (intro data_sectors_cong) (auto simp: index_blocks_def)
  qed (use h(5) in auto)
  note d = fs_stepD [OF st]
  have k: "nat ofs + length (take (nat sz) bf) \<le> nat (dlength ?d)" using b by simp
  have fb: "file_bytes v' ?d = overwrite (file_bytes (vw s) ?d) (nat ofs) (take (nat sz) bf)"
    by (rule file_bytes_overwrite [OF io views k h(4)])
  have "file_ok s' ?d"
    by (rule file_ok_cong [OF W(4)]) (use d(2,3) fm_blocks_step [OF st] h(5) i(5) c(2) in auto)
  moreover have "slack_zero v' ?d"
    using W(5) drop_overwrite [OF k, of "raw_bytes (vw s) ?d"] length_raw_bytes [OF io views] sectors_cover [OF i(2)]
    by (simp only: slack_zero_def h(4))
  ultimately have "writable s' ip i"
    using W c(2) d(3,6,7,10) h(3) fm_blocks_step [OF st] by (simp add: writable_def not_fm_def)
  then show ?thesis using h fb c(2) d(1-4) by (intro exI [of _ s']) simp
qed


lemma write_at_grows:
  assumes "fs_ok s" "writable s ip i" "0 \<le> ofs" "0 \<le> sz" "dlength (idata i) < ofs + sz"
    "ofs + sz \<le> 251 * 512" "nat sz \<le> length bf"
    "nsecs ((idata i)\<lparr>dlength := ofs + sz\<rparr>) - nsecs (idata i) + 1 \<le> card (free_sectors s)"
  shows "\<exists>s' d. write_at s ip bf sz ofs = Some (sz, s') \<and> fs_ok s' \<and> writable s' ip (i\<lparr>idata := d\<rparr>)
    \<and> file_bytes (vw s') d = overwrite (file_bytes (vw s) (idata i)
         @ replicate (nat (ofs + sz - dlength (idata i))) 0) (nat ofs) (take (nat sz) bf)
    \<and> dec_inode (vw s' (isector i)) = d
    \<and> (\<forall>x \<in> used_sectors s. x \<notin> set (blocks_of (vw s) (idata i)) \<union> fm_data s \<union> {isector i} \<longrightarrow> vw s' x = vw s x)"
proof -
  let ?len = "ofs + sz" and ?i = "idata i"
  have n: "nsecs (?i\<lparr>dlength := ?len\<rparr>) \<le> 251" using assms(3,4,6) by (simp add: nsecs_def)
  have "?len + 512 \<le> OFF_MAX" using assms(6) by simp
  from extend_file_rep [OF assms(1,2,5) this refl n assms(8), of 0]
  obtain s1 d where e: "extend_file (inode_write_at (Suc 0)) s ip i ?len = Some s1" "writable s1 ip (i\<lparr>idata := d\<rparr>)"
    "fs_ok s1" "dlength d = ?len"
    "file_bytes (vw s1) d = file_bytes (vw s) ?i @ replicate (nat (?len - dlength ?i)) 0"
    "set (data_sectors (vw s1) d) \<inter> used_sectors s \<subseteq> set (data_sectors (vw s) ?i)"
    "dec_inode (vw s1 (isector i)) = d"
    "\<forall>x \<in> used_sectors s. x \<notin> set (blocks_of (vw s) ?i) \<union> fm_data s \<union> {isector i} \<longrightarrow> vw s1 x = vw s x"
    by (elim exE conjE) (rule that; assumption)
  note W = writableD [OF e(2)]
  have bw: "?len \<le> dlength (idata (i\<lparr>idata := d\<rparr>))" using e(4) by simp
  from writable_write_inside [OF e(3,2) assms(3,4) bw assms(7)]
  obtain s2 where w: "write_loop s1 d bf sz ofs 0 = Some (nat sz, ?len, s2)" "fs_ok s2" "writable s2 ip (i\<lparr>idata := d\<rparr>)"
    "file_bytes (vw s2) d = overwrite (file_bytes (vw s1) d) (nat ofs) (take (nat sz) bf)"
    "\<forall>x. x \<notin> set (data_sectors (vw s1) d) \<longrightarrow> vw s2 x = vw s1 x" by auto
  have "write_at s ip bf sz ofs = Some (sz, s2)"
    using writableD(1,2) [OF assms(2)] assms(3,4,6) e(1,4) W(1) w(1)
    by (simp add: write_at_def WRITE_FUEL_def numeral_2_eq_2 inode_write_at.simps inode_write_step_def)
  moreover have "dec_inode (vw s2 (isector i)) = d" using w(5) W(8) e(7) by simp
  moreover have "\<forall>x \<in> used_sectors s. x \<notin> set (blocks_of (vw s) ?i) \<union> fm_data s \<union> {isector i} \<longrightarrow> vw s2 x = vw s x"
    using w(5) e(6,8) by auto
  ultimately show ?thesis using w(2-4) e(5) by (intro exI [of _ s2] exI [of _ d]) simp
qed


text \<open>
  C5: A write to a file that may be written, at any offset up to the largest file size and with enough
  free sectors, writes all its bytes: the file becomes its old contents, filled up with zeros where
  it had to grow, overwritten with the new bytes at the offset.  It stays well-formed, its inode's
  sector holds the inode, and no used sector outside the file, its inode and the free map changes.
  The write of the free map that allocation needs uses one more level of \<open>inode_write_at\<close>.
\<close>

theorem inode_write_at_grows:
  assumes "fs_ok s" "writable s ip i" "0 \<le> ofs" "0 \<le> sz" "dlength (idata i) < ofs + sz"
    "ofs + sz \<le> 251 * 512" "nat sz \<le> length bf"
    "nsecs ((idata i)\<lparr>dlength := ofs + sz\<rparr>) - nsecs (idata i) + 1 \<le> card (free_sectors s)"
  shows "\<exists>s' d. write_at s ip bf sz ofs = Some (sz, s') \<and> fs_ok s' \<and> writable s' ip (i\<lparr>idata := d\<rparr>)
    \<and> file_bytes (vw s') d = overwrite (file_bytes (vw s) (idata i)
         @ replicate (nat (ofs + sz - dlength (idata i))) 0) (nat ofs) (take (nat sz) bf)
    \<and> dec_inode (vw s' (isector i)) = d
    \<and> (\<forall>x \<in> used_sectors s. x \<notin> set (blocks_of (vw s) (idata i)) \<union> fm_data s \<union> {isector i} \<longrightarrow> vw s' x = vw s x)"
  by (rule write_at_grows [OF assms])

text \<open>A file system with one open, empty file, whose inode is in sector 2; it is also open as a directory.\<close>

definition empty_disk_inode :: inode_disk where
  "empty_disk_inode = \<lparr>dlength = 0, magic = INODE_MAGIC, directory = False,
     direct_blocks = replicate DIRECT_COUNT 0, indirect_block = 0, double_indirect_block = 0\<rparr>"

definition sample_inode :: inode where
  "sample_inode = \<lparr>isector = 2, open_cnt = 1, removed = False, deny_write_cnt = 0, idata = empty_disk_inode\<rparr>"

definition fs_with :: "bitmap \<Rightarrow> fs_state" where
  "fs_with bm = \<lparr>cch = sample_cache, free_map = bm, free_map_file = 0,
     open_inodes = [1], objs = [1 \<mapsto> Inode sample_inode, 5 \<mapsto> Dir \<lparr>dinode = 1, dpos = 0\<rparr>], avail = [2, 3, 4]\<rparr>"

definition sample_fs :: fs_state where
  "sample_fs = fs_with \<lparr>bit_cnt = 200, bits = [7, 0, 0, 0, 0, 0, 0]\<rparr>"

definition full_fs :: fs_state where
  "full_fs = fs_with \<lparr>bit_cnt = 200, bits = replicate 7 (- 1)\<rparr>"

lemma sample_bit: "i < 200 \<Longrightarrow> bit_at (free_map sample_fs) i \<longleftrightarrow> i < 3"
proof -
  assume i: "i < 200"
  have m: "(7 :: u32) = mask 3" by (simp add: mask_eq_exp_minus_1)
  have b7: "bit (7 :: u32) i \<longleftrightarrow> i < 3" if "i < 32" for i unfolding m using that by (simp only: bit_mask_iff) simp
  have "i div 32 \<in> {0, 1, 2, 3, 4, 5, 6}" using i by auto
  moreover have "i div 32 = 0 \<longleftrightarrow> i < 32" by auto
  ultimately show ?thesis using b7 [of "i mod 32"] by (auto simp: bit_at_def sample_fs_def fs_with_def)
qed

lemma sample_fs_used: "x \<in> used_sectors sample_fs \<longleftrightarrow> x \<in> {0, 1, 2}"
proof -
  have "x \<in> used_sectors sample_fs \<longleftrightarrow> unat x < 3"
    using sample_bit [of "unat x"] by (auto simp: used_sectors_def sample_fs_def fs_with_def)
  also have "\<dots> \<longleftrightarrow> unat x = 0 \<or> unat x = 1 \<or> unat x = 2" by auto
  also have "\<dots> \<longleftrightarrow> x \<in> {0, 1, 2}" by (auto simp: word_unat_eq_iff)
  finally show ?thesis .
qed

lemma sample_fs_ok: "fs_ok sample_fs"
  by (simp add: fs_ok_def sample_fs_used) (simp add: sample_fs_def fs_with_def bitmap_ok_def elem_cnt_def wrap32_def)

lemma fs_with_writable:
  assumes "2 \<in> used_sectors (fs_with bm)"
  shows "writable (fs_with bm) 1 sample_inode"
proof -
  have "nsecs empty_disk_inode = 0" by (simp add: nsecs_def empty_disk_inode_def)
  then have d: "data_sectors v empty_disk_inode = []" "index_blocks empty_disk_inode = []" "raw_bytes v empty_disk_inode = []"
    "nsecs empty_disk_inode = 0" for v
    by (simp_all add: data_sectors_def index_blocks_def raw_bytes_def)
  have fm: "fm_blocks (fs_with bm) = {}" by (simp add: fm_blocks_def fm_inode_def fs_with_def)
  have "file_ok (fs_with bm) empty_disk_inode"
    by (simp add: file_ok_def inode_ok_def spare_zero_def d) (simp add: empty_disk_inode_def inode_fits_def)
  then show ?thesis using assms
    by (simp add: writable_def not_fm_def slack_zero_def d sample_inode_def fm)
      (simp add: fs_with_def get_inode_def get_file_def sample_inode_def)
qed

lemma sample_fs_writable: "writable sample_fs 1 sample_inode"
  unfolding sample_fs_def by (rule fs_with_writable) (use sample_fs_used in \<open>simp add: sample_fs_def\<close>)

lemma sample_fs_free: "3 \<le> card (free_sectors sample_fs)"
proof -
  have "nsec sample_fs = 200" by (simp add: sample_fs_def fs_with_def)
  then have "{3, 4, 5} \<subseteq> free_sectors sample_fs" by (simp add: free_sectors_def sample_fs_used)
  then show ?thesis using card_mono [of "free_sectors sample_fs" "{3, 4, 5}"] by simp
qed

theorem inode_write_at_grows_witness:
  "\<exists>s' d. write_at sample_fs 1 [1, 2, 3] 3 600 = Some (3, s') \<and> fs_ok s'
    \<and> file_bytes (vw s') d = overwrite (file_bytes (vw sample_fs) empty_disk_inode @ replicate 603 0) 600 [1, 2, 3]
    \<and> dec_inode (vw s' 2) = d"
proof -
  have d: "idata sample_inode = empty_disk_inode" "isector sample_inode = 2" "dlength empty_disk_inode = 0"
    by (simp_all add: sample_inode_def empty_disk_inode_def)
  have "nsecs (empty_disk_inode\<lparr>dlength := 603\<rparr>) = 2" "nsecs empty_disk_inode = 0"
    by (simp_all add: nsecs_def empty_disk_inode_def)
  then show ?thesis
    using inode_write_at_grows [OF sample_fs_ok sample_fs_writable, of 600 3 "[1, 2, 3]"] sample_fs_free
    by (auto simp: d)
qed

text \<open>The sample file with some bytes in it.\<close>

lemma sample_written:
  assumes "bs \<noteq> []" and "length bs \<le> 512"
  obtains s i where "write_at sample_fs 1 bs (int (length bs)) 0 = Some (int (length bs), s)" "fs_ok s" "writable s 1 i"
    "file_bytes (vw s) (idata i) = bs" "dlength (idata i) = int (length bs)"
proof -
  let ?n = "int (length bs)"
  have d: "idata sample_inode = empty_disk_inode" "dlength empty_disk_inode = 0" "nsecs empty_disk_inode = 0"
    by (simp_all add: sample_inode_def empty_disk_inode_def nsecs_def)
  have "?n + 511 \<le> 1023" using assms(2) by simp
  then have "(?n + 511) div 512 \<le> 1" by linarith
  then have n: "nsecs (empty_disk_inode\<lparr>dlength := ?n\<rparr>) \<le> 1" by (simp add: nsecs_def)
  obtain s e where w: "write_at sample_fs 1 bs ?n 0 = Some (?n, s)" "fs_ok s" "writable s 1 (sample_inode\<lparr>idata := e\<rparr>)"
    "file_bytes (vw s) e = overwrite (file_bytes (vw sample_fs) empty_disk_inode @ replicate (length bs) 0) 0 bs"
    using write_at_grows [OF sample_fs_ok sample_fs_writable, of 0 ?n bs] assms n sample_fs_free by (auto simp: d)
  have f: "file_bytes (vw s) e = bs"
    using w(4) by (simp add: file_bytes_def empty_disk_inode_def overwrite_def)
  have io: "inode_ok (vw s) (nsec s) e" using file_okD(1) [OF writableD(4) [OF w(3)]] by simp
  have "length (file_bytes (vw s) e) = nat (dlength e)" "0 \<le> dlength e"
    using length_file_bytes [OF io] cache_view_length [OF fs_okD(1) [OF w(2)]] inode_okD(2) [OF io] by blast+
  then show thesis using that [OF w(1-3)] f by simp
qed

section \<open>Reading and the other outcomes of a write\<close>

text \<open>
  C31: \<open>inode_read_at\<close> returns the bytes of the file from the offset on, as many as were asked for or as
  there are up to its end, and changes nothing.
\<close>

theorem inode_read_at_correct:
  assumes "fs_ok s" "get_inode s ip = Some i" "inode_ok (vw s) (nsec s) (idata i)" "0 \<le> ofs"
  shows "\<exists>s'. inode_read_at s ip sz ofs =
      Some (subbuf (file_bytes (vw s) (idata i)) (nat ofs) (nat (min sz (dlength (idata i) - ofs))), s')
    \<and> fs_ok s' \<and> vw s' = vw s \<and> objs s' = objs s"
proof -
  obtain s' where s': "inode_read_at s ip sz ofs =
      Some (subbuf (file_bytes (vw s) (idata i)) (nat ofs) (nat (min sz (dlength (idata i) - ofs))), s')" "cached s s' (vw s)"
    using inode_read_at_rep [OF fs_okD(1) [OF assms(1)] assms(2-4)] by blast
  have "fs_step s s' {} {}" by (rule cached_fs_step [OF assms(1) s'(2)]) auto
  then show ?thesis using s'(1) cachedD(2) [OF s'(2)] fs_stepD(1,9) by blast
qed

theorem inode_read_at_correct_witness:
  "\<exists>s s'. write_at sample_fs 1 [1, 2, 3] 3 0 = Some (3, s) \<and> inode_read_at s 1 10 1 = Some ([2, 3], s')"
proof (rule sample_written [of "[1, 2, 3]"])
  fix s i
  assume w: "write_at sample_fs 1 [1, 2, 3] (int (length [1, 2, 3 :: u8])) 0 = Some (int (length [1, 2, 3 :: u8]), s)"
    "fs_ok s" "writable s 1 i" "file_bytes (vw s) (idata i) = [1, 2, 3]" "dlength (idata i) = int (length [1, 2, 3 :: u8])"
  note W = writableD [OF w(3)]
  show ?thesis using inode_read_at_correct [OF w(2) W(1) file_okD(1) [OF W(4)], of 1 10] w(1,4,5)
    by (auto simp: subbuf_def)
qed simp_all

text \<open>
  C14: What a write that makes a file longer has written is read back: reading the same number of bytes at the
  same offset returns them, and the file ends there.
\<close>

theorem inode_write_read:
  assumes "fs_ok s" "writable s ip i" "0 \<le> ofs" "0 \<le> sz" "dlength (idata i) < ofs + sz"
    "ofs + sz \<le> 251 * 512" "nat sz \<le> length bf"
    "nsecs ((idata i)\<lparr>dlength := ofs + sz\<rparr>) - nsecs (idata i) + 1 \<le> card (free_sectors s)"
  shows "\<exists>s' s'' s3. write_at s ip bf sz ofs = Some (sz, s') \<and> inode_read_at s' ip sz ofs = Some (take (nat sz) bf, s'')
    \<and> inode_read_at s'' ip 1 (ofs + sz) = Some ([], s3)"
proof -
  let ?old = "file_bytes (vw s) (idata i) @ replicate (nat (ofs + sz - dlength (idata i))) 0"
  from write_at_grows [OF assms]
  obtain s' d where w: "write_at s ip bf sz ofs = Some (sz, s')" "fs_ok s'" "writable s' ip (i\<lparr>idata := d\<rparr>)"
    "file_bytes (vw s') d = overwrite ?old (nat ofs) (take (nat sz) bf)"
    by (elim exE conjE) (rule that; assumption)
  note W = writableD [OF w(3)] and O = writableD [OF assms(2)]
  note len = length_file_bytes [OF file_okD(1) [OF O(4)] allI [OF impI [OF cache_view_length [OF fs_okD(1) [OF assms(1)]]]]]
    and len' = length_file_bytes [OF file_okD(1) [OF W(4)] allI [OF impI [OF cache_view_length [OF fs_okD(1) [OF w(2)]]]]]
  have lo: "length ?old = nat (ofs + sz)" using len inode_okD(2) [OF file_okD(1) [OF O(4)]] assms(3-5) by simp
  then have fits: "nat ofs + nat sz \<le> length ?old" using assms(3,4) by simp
  have ok': "inode_ok (vw s') (nsec s') d" using file_okD(1) [OF W(4)] by simp
  then have dl: "dlength d = ofs + sz"
    using len' lo fits w(4) assms(3,4,7) inode_okD(2) [OF ok'] by simp
  obtain s'' where r: "inode_read_at s' ip sz ofs = Some (subbuf (file_bytes (vw s') d) (nat ofs) (nat sz), s'')"
    "cached s' s'' (vw s')"
    using inode_read_at_rep [OF fs_okD(1) [OF w(2)] W(1) file_okD(1) [OF W(4)] assms(3), of sz] dl by auto
  have b: "subbuf (file_bytes (vw s') d) (nat ofs) (nat sz) = take (nat sz) bf"
    unfolding w(4) using fits assms(7) subbuf_overwrite [of "nat ofs" "take (nat sz) bf" ?old] by simp
  note c = cachedD [OF r(2)]
  obtain s3 where "inode_read_at s'' ip 1 (ofs + sz) = Some ([], s3)"
    using inode_read_at_rep [of s'' ip "i\<lparr>idata := d\<rparr>" "ofs + sz" 1] c W(1) ok' assms(3,4) dl by (auto simp: subbuf_def)
  then show ?thesis using w(1) r(1) b by auto
qed

theorem inode_write_read_witness:
  "\<exists>s' s'' s3. write_at sample_fs 1 [1, 2, 3] 3 600 = Some (3, s') \<and> inode_read_at s' 1 3 600 = Some ([1, 2, 3], s'')
    \<and> inode_read_at s'' 1 1 603 = Some ([], s3)"
proof -
  have d: "idata sample_inode = empty_disk_inode" "dlength empty_disk_inode = 0"
    "nsecs (empty_disk_inode\<lparr>dlength := 603\<rparr>) = 2" "nsecs empty_disk_inode = 0"
    by (simp_all add: sample_inode_def empty_disk_inode_def nsecs_def)
  then show ?thesis
    using inode_write_read [OF sample_fs_ok sample_fs_writable, of 600 3 "[1, 2, 3]"] sample_fs_free by simp
qed

text \<open>
  C32: While writes to an inode are denied, \<open>inode_write_at\<close> returns 0 and changes nothing.
\<close>

theorem inode_write_at_denied:
  assumes "get_inode s ip = Some i" "deny_write_cnt i \<noteq> 0"
  shows "write_at s ip bf sz ofs = Some (0, s)"
  using assms by (simp add: write_at_def WRITE_FUEL_def numeral_2_eq_2 inode_write_at.simps inode_write_step_def)

theorem inode_write_at_denied_witness:
  "write_at (put_obj sample_fs 1 (Inode (sample_inode\<lparr>deny_write_cnt := 1\<rparr>))) 1 [1] 1 0 =
     Some (0, put_obj sample_fs 1 (Inode (sample_inode\<lparr>deny_write_cnt := 1\<rparr>)))"
  by (rule inode_write_at_denied [of _ _ "sample_inode\<lparr>deny_write_cnt := 1\<rparr>"])
    (simp_all add: put_obj_def get_inode_def)

lemma inode_allocate_too_large:
  assumes "251 * 512 < len" "len + 512 \<le> OFF_MAX"
  shows "inode_allocate wr s d len = Some (False, d, s)"
proof -
  have "bytes_to_sectors len = Some (nat ((len + 511) div 512))"
    using assms by (simp add: bytes_to_sectors_def sdiv_pos)
  moreover have "123 < nat ((len + 511) div 512)" "128 < nat ((len + 511) div 512) - 123" using assms(1) by linarith+
  ultimately show ?thesis by (simp add: inode_allocate_def Let_def)
qed

text \<open>
  C33: No file of more than 251 sectors, 128512 bytes, can be created: \<open>inode_allocate\<close> refuses it before it
  allocates anything, although the structure has a doubly indirect block.
\<close>

theorem inode_create_too_large:
  assumes "avail s \<noteq> []" "251 * 512 < len" "len + 512 \<le> OFF_MAX"
  shows "inode_create s sec len is_dir = Some (False, s)"
  using assms inode_allocate_too_large by (simp add: inode_create_def)

theorem inode_create_too_large_witness:
  "inode_create sample_fs 3 128513 False = Some (False, sample_fs)"
  by (rule inode_create_too_large) (simp_all add: sample_fs_def fs_with_def)


lemma write_at_inside:
  assumes "fs_ok s" "writable s ip i" "0 \<le> ofs" "0 \<le> sz" "ofs + sz \<le> dlength (idata i)" "nat sz \<le> length bf"
  shows "\<exists>s'. write_at s ip bf sz ofs = Some (sz, s') \<and> fs_ok s' \<and> writable s' ip i
    \<and> file_bytes (vw s') (idata i) = overwrite (file_bytes (vw s) (idata i)) (nat ofs) (take (nat sz) bf)
    \<and> (\<forall>x. x \<notin> set (data_sectors (vw s) (idata i)) \<longrightarrow> vw s' x = vw s x)"
proof -
  note W = writableD [OF assms(2)]
  from writable_write_inside [OF assms]
  obtain s' where w: "write_loop s (idata i) bf sz ofs 0 = Some (nat sz, ofs + sz, s')" "fs_ok s'" "writable s' ip i"
    "file_bytes (vw s') (idata i) = overwrite (file_bytes (vw s) (idata i)) (nat ofs) (take (nat sz) bf)"
    "\<forall>x. x \<notin> set (data_sectors (vw s) (idata i)) \<longrightarrow> vw s' x = vw s x"
    by (elim exE conjE) (rule that; assumption)
  have "dlength (idata i) \<le> OFF_MAX" by (rule inode_okD(3) [OF file_okD(1) [OF W(4)]])
  then have "write_at s ip bf sz ofs = Some (sz, s')"
    using W(1,2) w(1) assms(3-5)
    by (simp add: write_at_def WRITE_FUEL_def numeral_2_eq_2 inode_write_at.simps inode_write_step_def extend_file_def)
  then show ?thesis using w(2-5) by blast
qed

text \<open>
  C30: A write that stays inside the file overwrites exactly its bytes, needs no free sector and changes
  no sector but the file's own.
\<close>

theorem inode_write_at_overwrites:
  assumes "fs_ok s" "writable s ip i" "0 \<le> ofs" "0 \<le> sz" "ofs + sz \<le> dlength (idata i)" "nat sz \<le> length bf"
  shows "\<exists>s'. write_at s ip bf sz ofs = Some (sz, s') \<and> fs_ok s' \<and> writable s' ip i
    \<and> file_bytes (vw s') (idata i) = overwrite (file_bytes (vw s) (idata i)) (nat ofs) (take (nat sz) bf)
    \<and> (\<forall>x. x \<notin> set (data_sectors (vw s) (idata i)) \<longrightarrow> vw s' x = vw s x)"
  by (rule write_at_inside [OF assms])

theorem inode_write_at_overwrites_witness:
  "\<exists>s s' d. write_at sample_fs 1 [1, 2, 3] 3 0 = Some (3, s) \<and> file_bytes (vw s) d = [1, 2, 3]
     \<and> write_at s 1 [9] 1 1 = Some (1, s') \<and> file_bytes (vw s') d = [1, 9, 3]"
proof (rule sample_written [of "[1, 2, 3]"])
  fix s i
  assume w: "write_at sample_fs 1 [1, 2, 3] (int (length [1, 2, 3 :: u8])) 0 = Some (int (length [1, 2, 3 :: u8]), s)"
    "fs_ok s" "writable s 1 i" "file_bytes (vw s) (idata i) = [1, 2, 3]" "dlength (idata i) = int (length [1, 2, 3 :: u8])"
  show ?thesis using inode_write_at_overwrites [OF w(2,3), of 1 1 "[9]"] w(1,4,5)
    by (auto simp: overwrite_def)
qed simp_all

text \<open>
  C34: When no sector is left, \<open>inode_write_at\<close> does not notice that \<open>inode_allocate\<close> fails: a write of one byte to an
  empty file reports success, records a length of 1 and overwrites the first byte of sector 0, which
  holds the inode of the free map.
\<close>

theorem inode_write_at_full_disk:
  assumes "fs_ok s" "writable s ip i" "dlength (idata i) = 0" "used_sectors s = {x. x < nsec s}"
    "isector i \<noteq> 0"
  shows "\<exists>s'. write_at s ip [b] 1 0 = Some (1, s') \<and> vw s' 0 = overwrite (vw s 0) 0 [b]
    \<and> dlength (dec_inode (vw s' (isector i))) = 1"
proof -
  let ?d = "idata i" and ?wr = "inode_write_at (Suc 0)"
  note W = writableD [OF assms(2)] and ok = fs_okD [OF assms(1)]
  note io = inode_okD [OF file_okD(1) [OF W(4)]]
  have n0: "nsecs ?d = 0" using assms(3) by (simp add: nsecs_def)
  have z: "direct_blocks ?d ! 0 = 0" using file_okD(2) [OF W(4)] n0 by (simp add: spare_zero_def)
  have al: "free_map_allocate ?wr 1 s = Some (None, s)"
    using free_map_allocate_rep [OF assms(1), of 0] assms(4) by (auto split: option.splits)
  have "bytes_to_sectors 1 = Some 1" by (simp add: bytes_to_sectors_def sdiv_pos)
  then have ia: "inode_allocate ?wr s ?d 1 = Some (False, ?d, s)"
    using al z by (simp add: inode_allocate_def Let_def)
  let ?e = "?d\<lparr>dlength := 1\<rparr>" and ?j = "i\<lparr>idata := ?d\<lparr>dlength := 1\<rparr>\<rparr>"
  let ?s1 = "put_obj s ip (Inode ?j)"
  have v1: "vw ?s1 = vw s" "nsec ?s1 = nsec s" "cch ?s1 = cch s" "get_inode ?s1 ip = Some ?j"
    by (simp_all add: put_obj_def get_inode_def)
  have fits: "inode_fits ?e" using io(1) by (simp add: inode_fits_def)
  have sec: "isector i < nsec s" by (rule used_in_range [OF assms(1) W(6)])
  obtain s2 where s2: "cache_wr ?s1 (isector i) (enc_inode ?e) 0 = Some s2"
    "cached ?s1 s2 ((vw s)(isector i := overwrite (vw s (isector i)) 0 (enc_inode ?e)))"
    using cache_wr_rep [of ?s1 "isector i" 0 "enc_inode ?e"] ok(1) sec length_enc_inode [OF fits] v1 by auto
  note c2 = cachedD [OF s2(2)]
  have g2: "get_inode s2 ip = Some ?j" using v1(4) c2 by simp
  have zr: "0 < nsec s2" using used_in_range [OF assms(1) ok(4)] c2(3) v1(2) by simp
  obtain s3 where s3: "cache_wr s2 0 [b] 0 = Some s3" "cached s2 s3 ((vw s2)(0 := overwrite (vw s2 0) 0 [b]))"
    using cache_wr_rep [OF c2(1) zr, of 0 "[b]"] by auto
  have "byte_to_sector s2 ?e 0 = Some (0, s2)"
    using z by (simp add: byte_to_sector_def get_index_sector_def sdiv_pos)
  moreover have "chunk_at ?e 1 0 = 1" by (simp add: chunk_at_def smod_pos)
  ultimately have wl: "write_loop s2 ?e [b] 1 0 0 = Some (1, 1, s3)"
    using s3(1) by (simp add: write_loop.simps subbuf_def smod_pos)
  have "write_at s ip [b] 1 0 = Some (1, s3)"
    using W(1,2) assms(3) ia s2(1) wl g2
    by (simp add: write_at_def WRITE_FUEL_def numeral_2_eq_2 inode_write_at.simps inode_write_step_def
      extend_file_def set_idata_def)
  moreover have "vw s3 0 = overwrite (vw s 0) 0 [b]" using cachedD(2) [OF s3(2)] c2(2) assms(5) by simp
  moreover have "dec_inode (vw s3 (isector i)) = ?e"
    using cachedD(2) [OF s3(2)] c2(2) assms(5) dec_view_inode [OF fits] cache_view_length [OF ok(1) sec] by simp
  ultimately show ?thesis by (intro exI [of _ s3]) simp
qed


lemma full_fs_used: "used_sectors full_fs = {x. x < nsec full_fs}"
proof -
  have "i div 32 < 7" if "i < 200" for i :: nat using that by simp
  then show ?thesis
    by (auto simp: used_sectors_def full_fs_def fs_with_def bit_at_def word_less_nat_alt)
qed

lemma full_fs_ok: "fs_ok full_fs"
  by (simp add: fs_ok_def full_fs_used) (simp add: full_fs_def fs_with_def bitmap_ok_def elem_cnt_def wrap32_def)

theorem inode_write_at_full_disk_witness:
  "\<exists>s'. write_at full_fs 1 [9] 1 0 = Some (1, s') \<and> vw s' 0 = overwrite (vw full_fs 0) 0 [9]"
proof -
  have "2 \<in> used_sectors full_fs" unfolding full_fs_used by (simp add: full_fs_def fs_with_def)
  then have "writable full_fs 1 sample_inode" unfolding full_fs_def by (rule fs_with_writable)
  then show ?thesis
    using inode_write_at_full_disk [OF full_fs_ok _ _ full_fs_used, of 1 sample_inode 9]
    by (auto simp: sample_inode_def empty_disk_inode_def)
qed

end
