(* ===== verification/Filesys_Names.thy ===== *)
theory Filesys_Names
  imports Filesys_Directory Filesys_Write
begin

text \<open>
  A directory as a finite map from names to inode sectors.  The entries of a directory are the
  20-byte pieces of its file; looking up a name finds the first entry in use with that name, and
  adding a name changes the map at that name only.
\<close>

section \<open>Entries\<close>

definition entries :: "u8 list \<Rightarrow> dir_entry list" where
  "entries bs = map (\<lambda>k. dec_entry (subbuf bs (DIR_ENTRY_SIZE * k) DIR_ENTRY_SIZE)) [0..<length bs div DIR_ENTRY_SIZE]"

definition named :: "cstr \<Rightarrow> dir_entry \<Rightarrow> bool" where
  "named n e \<longleftrightarrow> in_use e \<and> cstring (ename e) = Some n"

definition dir_map :: "dir_entry list \<Rightarrow> cstr \<Rightarrow> block_sector_t option" where
  "dir_map es n = (case filter (named n) es of [] \<Rightarrow> None | e # _ \<Rightarrow> Some (inode_sector e))"

definition names_ok :: "dir_entry list \<Rightarrow> bool" where
  "names_ok es \<longleftrightarrow> (\<forall>e \<in> set es. in_use e \<longrightarrow> cstring (ename e) \<noteq> None)"

lemma nat_20 [simp]: "nat (20 * int k) = 20 * k"
  by linarith

lemma length_entries [simp]: "length (entries bs) = length bs div 20"
  by (simp add: entries_def)

lemma nth_entries: "k < length bs div 20 \<Longrightarrow> entries bs ! k = dec_entry (subbuf bs (20 * k) 20)"
  by (simp add: entries_def)

lemma length_enc_entry: "length (ename e) = 15 \<Longrightarrow> length (enc_entry e) = 20"
  by (simp add: enc_entry_def)

lemma dec_enc_entry: "length (ename e) = 15 \<Longrightarrow> dec_entry (enc_entry e) = e"
  by (simp add: dec_entry_def enc_entry_def subbuf_def nth_append)

lemma length_ename: "length bs = 20 \<Longrightarrow> length (ename (dec_entry bs)) = 15"
  by (simp add: dec_entry_def)

lemma length_strlcpy: "length dst = 15 \<Longrightarrow> length src \<le> 14 \<Longrightarrow> length (strlcpy_array dst src) = 15"
  by (simp add: strlcpy_array_def)

lemma cstring_strlcpy:
  assumes "length dst = 15" "length src \<le> 14" "0 \<notin> set src"
  shows "cstring (strlcpy_array dst src) = Some src"
proof -
  have "strlcpy_array dst src = src @ 0 # drop (length src + 1) dst"
    using assms by (simp add: strlcpy_array_def overwrite_def)
  then show ?thesis using assms(3) by (auto simp: cstring_def takeWhile_append)
qed

lemma subbuf_overwrite_other:
  "ofs + length src \<le> length xs \<Longrightarrow> a + n \<le> ofs \<or> ofs + length src \<le> a \<Longrightarrow> a + n \<le> length xs \<Longrightarrow>
   subbuf (overwrite xs ofs src) a n = subbuf xs a n"
  by (rule nth_equalityI) (auto simp: nth_overwrite)

text \<open>Writing one entry, over an old one or at the end.\<close>

lemma entries_overwrite:
  assumes "k < length bs div 20" "length b = 20"
  shows "entries (overwrite bs (20 * k) b) = (entries bs)[k := dec_entry b]"
proof (rule nth_equalityI)
  have len: "20 * k + 20 \<le> length bs" using assms(1) by linarith
  then show "length (entries (overwrite bs (20 * k) b)) = length ((entries bs)[k := dec_entry b])" using assms(2) by simp
  fix j assume "j < length (entries (overwrite bs (20 * k) b))"
  then have j: "j < length bs div 20" using len assms(2) by simp
  show "entries (overwrite bs (20 * k) b) ! j = (entries bs)[k := dec_entry b] ! j"
  proof (cases "j = k")
    case False
    then have "20 * j + 20 \<le> 20 * k \<or> 20 * k + 20 \<le> 20 * j" by linarith
    then show ?thesis using False j len assms(2) by (simp add: nth_entries subbuf_overwrite_other)
  qed (use j len assms(2) in \<open>simp add: nth_entries\<close>)
qed

lemma entries_append:
  assumes "length bs mod 20 = 0" "length b = 20"
  shows "entries (bs @ b) = entries bs @ [dec_entry b]"
proof -
  obtain n where n: "length bs = 20 * n" using assms(1) by (metis mod_0_imp_dvd dvd_def)
  show ?thesis
  proof (rule nth_equalityI)
    show l: "length (entries (bs @ b)) = length (entries bs @ [dec_entry b])" using n assms(2) by simp
    fix j assume "j < length (entries (bs @ b))"
    then have j: "j < n + 1" using n assms(2) by simp
    show "entries (bs @ b) ! j = (entries bs @ [dec_entry b]) ! j"
      using j n assms(2) by (cases "j = n") (simp_all add: nth_entries nth_append subbuf_def)
  qed
qed

lemma dir_map_update:
  assumes "k < length es" "\<not> in_use (es ! k)" "dir_map es n = None" "named n e" "\<And>m. named m e \<Longrightarrow> m = n"
  shows "dir_map (es[k := e]) = (dir_map es)(n \<mapsto> inode_sector e)"
proof
  fix m
  have es: "es = take k es @ es ! k # drop (Suc k) es" by (rule id_take_nth_drop [OF assms(1)])
  have up: "es[k := e] = take k es @ e # drop (Suc k) es" by (rule upd_conv_take_nth_drop [OF assms(1)])
  have f: "filter (named m) es = filter (named m) (take k es) @ filter (named m) (drop (Suc k) es)"
    by (subst es) (simp add: assms(2) named_def)
  show "dir_map (es[k := e]) m = ((dir_map es)(n \<mapsto> inode_sector e)) m"
  proof (cases "m = n")
    case True
    then have "filter (named n) (take k es) = []" using f assms(3) by (auto simp: dir_map_def split: list.splits)
    then show ?thesis using True assms(4) by (simp add: dir_map_def up)
  next
    case False
    then have "filter (named m) (es[k := e]) = filter (named m) es" using f assms(5) by (auto simp: up)
    then show ?thesis using False by (simp add: dir_map_def)
  qed
qed

lemma dir_map_snoc:
  assumes "dir_map es n = None" "named n e" "\<And>m. named m e \<Longrightarrow> m = n"
  shows "dir_map (es @ [e]) = (dir_map es)(n \<mapsto> inode_sector e)"
proof
  fix m
  show "dir_map (es @ [e]) m = ((dir_map es)(n \<mapsto> inode_sector e)) m"
  proof (cases "m = n")
    case True
    have "filter (named n) es = []" using assms(1) by (simp add: dir_map_def split: list.splits)
    then show ?thesis using True assms(2) by (simp add: dir_map_def)
  next
    case False
    then have "\<not> named m e" using assms(3) by blast
    then show ?thesis using False by (simp add: dir_map_def)
  qed
qed

section \<open>The loops\<close>

fun find_named :: "cstr \<Rightarrow> dir_entry list \<Rightarrow> nat \<Rightarrow> (dir_entry \<times> off_t) option" where
  "find_named n [] k = None"
| "find_named n (e # es) k = (if named n e then Some (e, int (20 * k)) else find_named n es (k + 1))"

lemma find_named_map: "map_option (inode_sector \<circ> fst) (find_named n es k) = dir_map es n"
  by (induction es arbitrary: k) (simp_all add: dir_map_def)

lemma find_named_None: "find_named n es k = None \<longleftrightarrow> dir_map es n = None"
  by (induction es arbitrary: k) (simp_all add: dir_map_def)

abbreviation contents :: "fs_state \<Rightarrow> inode \<Rightarrow> u8 list" where
  "contents s i \<equiv> file_bytes (vw s) (idata i)"

definition readable :: "fs_state \<Rightarrow> nat \<Rightarrow> inode \<Rightarrow> bool" where
  "readable s ip i \<longleftrightarrow> cache_ok (cch s) \<and> get_inode s ip = Some i \<and> inode_ok (vw s) (nsec s) (idata i)"

lemma readable_length: "readable s ip i \<Longrightarrow> int (length (contents s i)) = dlength (idata i)"
  using length_file_bytes [of "vw s" "nsec s" "idata i"] cache_view_length inode_okD(2)
  by (fastforce simp: readable_def)

lemma readable_cached: "readable s ip i \<Longrightarrow> cached s s' (vw s) \<Longrightarrow> readable s' ip i"
  using cachedD [of s s' "vw s"] by (simp add: readable_def)

lemma read_entry:
  assumes r: "readable s ip i"
  shows "\<exists>s'. inode_read_at s ip 20 (int (20 * k)) = Some (subbuf (contents s i) (20 * k) 20, s') \<and> cached s s' (vw s)"
proof -
  have len: "int (length (contents s i)) = dlength (idata i)" by (rule readable_length [OF r])
  have "subbuf (contents s i) (20 * k) (nat (min 20 (dlength (idata i) - int (20 * k)))) = subbuf (contents s i) (20 * k) 20"
    using len by (simp add: subbuf_def min_def)
  then show ?thesis using inode_read_at_rep [of s ip i "int (20 * k)" 20] r
    by (simp add: readable_def nat_int [of "20 * k"] del: of_nat_mult)
qed

lemma entry_at:
  assumes r: "readable s ip i"
  shows "length (subbuf (contents s i) (20 * k) 20) = 20 \<longleftrightarrow> k < length (entries (contents s i))"
    "k < length (entries (contents s i)) \<Longrightarrow> dec_entry (subbuf (contents s i) (20 * k) 20) = entries (contents s i) ! k"
  by (auto simp: subbuf_def nth_entries)

lemma lookup_loop_rep:
  assumes "readable s ip i" "names_ok (entries (contents s i))"
  shows "\<exists>s'. lookup_loop s ip n (int (20 * k)) = Some (find_named n (drop k (entries (contents s i))) k, s') \<and> cached s s' (vw s)"
  using assms
proof (induction "length (entries (contents s i)) - k" arbitrary: s k)
  case 0
  obtain s1 where s1: "inode_read_at s ip 20 (int (20 * k)) = Some (subbuf (contents s i) (20 * k) 20, s1)" "cached s s1 (vw s)"
    using read_entry [OF 0(2)] by blast
  have "length (subbuf (contents s i) (20 * k) 20) \<noteq> 20" using entry_at(1) [OF 0(2)] 0(1) by simp
  then show ?case using s1 0(1) by (subst lookup_loop.simps) simp
next
  case (Suc d)
  let ?es = "entries (contents s i)"
  obtain s1 where s1: "inode_read_at s ip 20 (int (20 * k)) = Some (subbuf (contents s i) (20 * k) 20, s1)" "cached s s1 (vw s)"
    using read_entry [OF Suc.prems(1)] by blast
  have k: "k < length ?es" using Suc(2) by simp
  note e = entry_at [OF Suc.prems(1), of k]
  have dr: "drop k ?es = ?es ! k # drop (Suc k) ?es" using k by (simp add: Cons_nth_drop_Suc)
  have "in_use (?es ! k) \<Longrightarrow> cstring (ename (?es ! k)) \<noteq> None" using Suc.prems(2) k by (simp add: names_ok_def)
  then have f: "(if in_use (?es ! k) then do { m \<leftarrow> cstring (ename (?es ! k)); Some (n = m) } else Some False) = Some (named n (?es ! k))"
    by (auto simp: named_def)
  have v: "vw s1 = vw s" by (rule cachedD(2) [OF s1(2)])
  have dk: "d = length ?es - (k + 1)" using Suc(2) by linarith
  note r1 = readable_cached [OF Suc.prems(1) s1(2)]
  show ?case
  proof (cases "named n (?es ! k)")
    case True
    then show ?thesis using s1 e k f dr by (subst lookup_loop.simps) simp
  next
    case False
    obtain s2 where "lookup_loop s1 ip n (int (20 * (k + 1))) = Some (find_named n (drop (k + 1) ?es) (k + 1), s2)" "cached s1 s2 (vw s)"
      using Suc(1) [of s1 "k + 1"] dk r1 Suc.prems(2) by (auto simp: v)
    then show ?thesis using False s1 e k f dr cached_trans [OF s1(2)] by (subst lookup_loop.simps) (auto simp: ac_simps)
  qed
qed

text \<open>The first entry that is not in use.\<close>

definition free_index :: "dir_entry list \<Rightarrow> nat" where
  "free_index es = length (takeWhile in_use es)"

lemma free_slot_rep:
  assumes "readable s ip i" "length e = 20" "k \<le> free_index (entries (contents s i))"
    "\<forall>j < k. in_use (entries (contents s i) ! j)"
  shows "\<exists>s' e'. free_slot s ip e (int (20 * k)) = Some (e', int (20 * free_index (entries (contents s i))), s')
    \<and> length e' = 20 \<and> cached s s' (vw s)"
  using assms
proof (induction "length (entries (contents s i)) - k" arbitrary: s e k)
  case 0
  let ?es = "entries (contents s i)" and ?b = "subbuf (contents s i) (20 * k) 20"
  obtain s1 where s1: "inode_read_at s ip 20 (int (20 * k)) = Some (?b, s1)" "cached s s1 (vw s)"
    using read_entry [OF 0(2)] by blast
  have "free_index ?es \<le> length ?es" unfolding free_index_def by (rule length_takeWhile_le)
  then have k: "k = free_index ?es" using 0(1,4) by simp
  have l: "length ?b \<noteq> 20" using entry_at(1) [OF 0(2), of k] 0(1) by simp
  have "length (overwrite e 0 ?b) = 20" using 0(3) by (subst length_overwrite) (simp_all add: subbuf_def)
  then show ?case using s1 l k by (subst free_slot.simps) simp
next
  case (Suc d)
  let ?es = "entries (contents s i)" and ?b = "subbuf (contents s i) (20 * k) 20"
  obtain s1 where s1: "inode_read_at s ip 20 (int (20 * k)) = Some (?b, s1)" "cached s s1 (vw s)"
    using read_entry [OF Suc.prems(1)] by blast
  have k: "k < length ?es" using Suc(2) by simp
  note e = entry_at [OF Suc.prems(1), of k]
  have b: "length ?b = 20" using e k by simp
  then have ov: "overwrite e 0 ?b = ?b" using Suc.prems(2) by simp
  have v: "vw s1 = vw s" by (rule cachedD(2) [OF s1(2)])
  have dk: "d = length ?es - (k + 1)" using Suc(2) by linarith
  show ?case
  proof (cases "in_use (?es ! k)")
    case True
    have "k \<noteq> free_index ?es" using True k nth_length_takeWhile [of in_use ?es] by (auto simp: free_index_def)
    then obtain s2 e' where "free_slot s1 ip ?b (int (20 * (k + 1))) = Some (e', int (20 * free_index ?es), s2)" "length e' = 20" "cached s1 s2 (vw s)"
      using Suc(1) [of s1 "k + 1" ?b] dk readable_cached [OF Suc.prems(1) s1(2)] b Suc.prems(3,4) True
      by (auto simp: v less_Suc_eq)
    then show ?thesis using s1 ov b e k True cached_trans [OF s1(2)] by (subst free_slot.simps) (auto simp: ac_simps)
  next
    case False
    have "free_index ?es \<le> k"
    proof (rule ccontr)
      assume "\<not> free_index ?es \<le> k"
      then have "k < length (takeWhile in_use ?es)" by (simp add: free_index_def)
      then have "?es ! k \<in> set (takeWhile in_use ?es)" using takeWhile_nth [of k in_use ?es] nth_mem by metis
      then show False using False set_takeWhileD by metis
    qed
    then have "k = free_index ?es" using Suc.prems(3) by simp
    then show ?thesis using s1 ov b e k False by (subst free_slot.simps) auto
  qed
qed

lemma writable_readable: "fs_ok s \<Longrightarrow> writable s ip i \<Longrightarrow> readable s ip i"
  using fs_okD(1) writableD(1,4) file_okD(1) by (auto simp: readable_def)

lemma cached_keeps:
  assumes ok: "fs_ok s" and c: "cached s s' (vw s)" and w: "writable s ip i"
  shows "fs_ok s'" "writable s' ip i" "free_sectors s' = free_sectors s" "get_dir s' = get_dir s"
proof -
  have "fs_step s s' {} {}" by (rule cached_fs_step [OF ok c]) auto
  note d = fs_stepD [OF this] and b = fm_blocks_step [OF this]
  note v = cachedD(2) [OF c]
  show "fs_ok s'" "get_dir s' = get_dir s" using d by simp_all
  show "free_sectors s' = free_sectors s" using d(2,3) by (simp add: free_sectors_def)
  have "file_ok s' (idata i)" by (rule file_ok_cong [OF writableD(4) [OF w]]) (use d b v in simp_all)
  then show "writable s' ip i" using w d(3,6,7,10) b v by (simp add: writable_def not_fm_def)
qed

text \<open>Writing an entry into a directory file, inside it or at its end.\<close>

lemma write_entry_rep:
  assumes ok: "fs_ok s" and w: "writable s ip i" and k: "k \<le> length (entries (contents s i))"
    and al: "length (contents s i) mod 20 = 0" and room: "dlength (idata i) + 20 \<le> 251 * 512" "2 \<le> card (free_sectors s)"
    and old: "length old = 20" and name: "length name \<le> 14" "0 \<notin> set name"
  shows "\<exists>s' i' e. write_entry s ip old name sec (int (20 * k)) = Some (True, s') \<and> fs_ok s' \<and> writable s' ip i'
    \<and> named name e \<and> inode_sector e = sec \<and> length (contents s' i') mod 20 = 0
    \<and> entries (contents s' i') = (if k < length (entries (contents s i)) then (entries (contents s i))[k := e] else entries (contents s i) @ [e])"
proof -
  define e where "e = \<lparr>inode_sector = sec, ename = strlcpy_array (ename (dec_entry old)) name, in_use = True\<rparr>"
  have l15: "length (ename e) = 15" using length_strlcpy [OF length_ename [OF old] name(1)] by (simp add: e_def)
  have n: "named name e" using cstring_strlcpy [OF length_ename [OF old] name] by (simp add: named_def e_def)
  have sec: "inode_sector e = sec" by (simp add: e_def)
  note len = length_enc_entry [OF l15] and dec = dec_enc_entry [OF l15]
  have rl: "int (length (contents s i)) = dlength (idata i)" by (rule readable_length [OF writable_readable [OF ok w]])
  obtain m where m: "length (contents s i) = 20 * m" using al by (metis mod_0_imp_dvd dvd_def)
  show ?thesis
  proof (cases "k < length (entries (contents s i))")
    case True
    have in1: "int (20 * k) + 20 \<le> dlength (idata i)" using True m rl by simp
    from write_at_inside [OF ok w _ _ in1, of "enc_entry e"] len
    obtain s' where s': "write_at s ip (enc_entry e) 20 (int (20 * k)) = Some (20, s')" "fs_ok s'" "writable s' ip i"
      "contents s' i = overwrite (contents s i) (20 * k) (enc_entry e)" by auto
    have "entries (contents s' i) = (entries (contents s i))[k := e]"
      unfolding s'(4) using entries_overwrite [of k "contents s i" "enc_entry e"] True len dec by simp
    moreover have "length (contents s' i) mod 20 = 0" using s'(4) True m len by simp
    moreover have "write_entry s ip old name sec (int (20 * k)) = Some (True, s')" using s'(1) by (simp add: write_entry_def e_def)
    ultimately show ?thesis using s'(2,3) True n sec by (intro exI [of _ s'] exI [of _ i] exI [of _ e]) simp
  next
    case False
    then have k': "k = m" using k m by simp
    have gr: "dlength (idata i) < int (20 * k) + 20" "int (20 * k) + 20 \<le> 251 * 512" using k' m rl room(1) by simp_all
    have ns: "nsecs ((idata i)\<lparr>dlength := int (20 * k) + 20\<rparr>) - nsecs (idata i) + 1 \<le> card (free_sectors s)"
      using room(2) rl k' m by (simp add: nsecs_def)
    from write_at_grows [OF ok w _ _ gr _ ns, of "enc_entry e"] len
    obtain s' d where s': "write_at s ip (enc_entry e) 20 (int (20 * k)) = Some (20, s')" "fs_ok s'" "writable s' ip (i\<lparr>idata := d\<rparr>)"
      "file_bytes (vw s') d = overwrite (contents s i @ replicate (nat (int (20 * k) + 20 - dlength (idata i))) 0) (20 * k) (enc_entry e)"
      by auto
    have c: "contents s' (i\<lparr>idata := d\<rparr>) = contents s i @ enc_entry e"
      using s'(4) k' m rl len by (simp add: overwrite_def)
    have "entries (contents s' (i\<lparr>idata := d\<rparr>)) = entries (contents s i) @ [e]"
      unfolding c using entries_append [OF al len] dec by simp
    moreover have "length (contents s' (i\<lparr>idata := d\<rparr>)) mod 20 = 0" unfolding c using m len by simp
    moreover have "write_entry s ip old name sec (int (20 * k)) = Some (True, s')" using s'(1) by (simp add: write_entry_def e_def)
    ultimately show ?thesis using s'(2,3) False n sec by (intro exI [of _ s'] exI [of _ "i\<lparr>idata := d\<rparr>"] exI [of _ e]) simp
  qed
qed

section \<open>Properties\<close>

text \<open>
  C11: Looking up a name in a directory always ends and finds what the directory maps the name to, the first entry in
  use with that name; it changes nothing on the disk.
\<close>

theorem lookup_refines_map:
  assumes "readable s (dinode d) i" "get_dir s dp = Some d" "dp \<noteq> 0" "names_ok (entries (contents s i))"
  shows "\<exists>r s'. lookup s dp n = Some (r, s') \<and> map_option (inode_sector \<circ> fst) r = dir_map (entries (contents s i)) n
    \<and> cached s s' (vw s)"
  using lookup_loop_rep [OF assms(1,4), of n 0] assms(2,3) find_named_map [of n "entries (contents s i)" 0]
  by (auto simp: lookup_def)

lemma names_ok_update: "names_ok es \<Longrightarrow> named n e \<Longrightarrow> names_ok (es[k := e])" "names_ok es \<Longrightarrow> named n e \<Longrightarrow> names_ok (es @ [e])"
  by (auto simp: names_ok_def named_def dest!: set_update_subset_insert [THEN subsetD])

lemma free_index_spec:
  "free_index es \<le> length es" "free_index es < length es \<Longrightarrow> \<not> in_use (es ! free_index es)"
  unfolding free_index_def by (rule length_takeWhile_le) (rule nth_length_takeWhile)

text \<open>
  C10: Adding a file to a directory updates the map from names to inode sectors at the new name.  A name that is already
  there is refused and the map stays as it is.  The directory file stays well-formed, whether the entry reuses a
  free slot or the file grows.
\<close>

theorem dir_add_refines_map:
  assumes "fs_ok s" "writable s (dinode d) i" "get_dir s dp = Some d" "dp \<noteq> 0" "names_ok (entries (contents s i))"
    "length (contents s i) mod DIR_ENTRY_SIZE = 0" "dlength (idata i) + 20 \<le> 251 * 512" "2 \<le> card (free_sectors s)"
    "name \<noteq> []" "length name \<le> NAME_MAX" "0 \<notin> set name" "length (junk 0) = DIR_ENTRY_SIZE"
  shows "\<exists>s' i'. dir_add s dp name sec False junk = Some (dir_map (entries (contents s i)) name = None, s')
    \<and> fs_ok s' \<and> writable s' (dinode d) i' \<and> names_ok (entries (contents s' i'))
    \<and> dir_map (entries (contents s' i')) = (if dir_map (entries (contents s i)) name = None
        then (dir_map (entries (contents s i)))(name \<mapsto> sec) else dir_map (entries (contents s i)))"
proof -
  let ?es = "entries (contents s i)"
  note r = writable_readable [OF assms(1,2)]
  obtain s1 where s1: "lookup_loop s (dinode d) name 0 = Some (find_named name ?es 0, s1)" "cached s s1 (vw s)"
    using lookup_loop_rep [OF r assms(5), of name 0] by auto
  have lk: "lookup s dp name = Some (find_named name ?es 0, s1)" using s1(1) assms(3,4) by (simp add: lookup_def)
  note k1 = cached_keeps [OF assms(1) s1(2) assms(2)] and v1 = cachedD(2) [OF s1(2)]
  have ne: "\<not> (name = [] \<or> length name > NAME_MAX)" using assms(9,10) by simp
  show ?thesis
  proof (cases "dir_map ?es name = None")
    case False
    then have "find_named name ?es 0 \<noteq> None" by (simp only: find_named_None not_False_eq_True)
    then have "dir_add s dp name sec False junk = Some (False, s1)" using lk ne assms(4) by (simp add: dir_add_def)
    then show ?thesis using False k1 assms(5) v1 by (intro exI [of _ s1] exI [of _ i]) auto
  next
    case True
    then have fn: "find_named name ?es 0 = None" by (simp only: find_named_None)
    obtain s2 e where s2: "free_slot s1 (dinode d) (junk 0) 0 = Some (e, int (20 * free_index ?es), s2)" "length e = 20" "cached s1 s2 (vw s1)"
      using free_slot_rep [OF writable_readable [OF k1(1,2)], of "junk 0" 0] assms(12) by (auto simp: v1)
    note k2 = cached_keeps [OF k1(1) s2(3) k1(2)] and v2 = cachedD(2) [OF s2(3)]
    have c2: "contents s2 i = contents s i" using v1 v2 by simp
    from write_entry_rep [OF k2(1,2), of "free_index ?es" e name sec]
    obtain s3 i' en where s3: "write_entry s2 (dinode d) e name sec (int (20 * free_index ?es)) = Some (True, s3)" "fs_ok s3"
      "writable s3 (dinode d) i'" "named name en" "inode_sector en = sec"
      "entries (contents s3 i') = (if free_index ?es < length ?es then ?es[free_index ?es := en] else ?es @ [en])"
      unfolding c2 using free_index_spec(1) [of ?es] assms(6-8,10,11) s2(2) k1(3) k2(3) by auto
    have u: "m = name" if "named m en" for m using that s3(4) by (simp add: named_def)
    have m: "dir_map (entries (contents s3 i')) = (dir_map ?es)(name \<mapsto> sec)"
      using s3(5,6) dir_map_update [OF _ free_index_spec(2) True s3(4) u] dir_map_snoc [OF True s3(4) u] by simp
    have "names_ok (entries (contents s3 i'))" using s3(6) names_ok_update [OF assms(5) s3(4)] by simp
    moreover have "dir_add s dp name sec False junk = Some (True, s3)"
      using lk fn ne assms(3,4) k1(4) s2(1) s3(1) by (simp add: dir_add_def)
    ultimately show ?thesis using True s3(2,3) m by (intro exI [of _ s3] exI [of _ i']) simp
  qed
qed

lemma sample_contents: "contents sample_fs sample_inode = []"
  by (simp add: file_bytes_def sample_inode_def empty_disk_inode_def)

lemma sample_dir: "get_dir sample_fs 5 = Some \<lparr>dinode = 1, dpos = 0\<rparr>"
  by (simp add: sample_fs_def fs_with_def get_dir_def)

text \<open>A directory with one entry, for the name \<open>a\<close>, made of the sample file.\<close>

definition sample_entry :: dir_entry where
  "sample_entry = \<lparr>inode_sector = 7, ename = 97 # replicate 14 0, in_use = True\<rparr>"

lemma sample_entry_facts: "length (enc_entry sample_entry) = 20" "entries (enc_entry sample_entry) = [sample_entry]"
  "cstring (ename sample_entry) = Some [97]"
proof -
  have l: "length (ename sample_entry) = 15" by (simp add: sample_entry_def)
  show len: "length (enc_entry sample_entry) = 20" by (rule length_enc_entry [OF l])
  then show "entries (enc_entry sample_entry) = [sample_entry]" by (simp add: entries_def dec_enc_entry [OF l])
  show "cstring (ename sample_entry) = Some [97]" by (simp add: sample_entry_def cstring_def)
qed

theorem lookup_refines_map_witness:
  "\<exists>s r s'. write_at sample_fs 1 (enc_entry sample_entry) 20 0 = Some (20, s) \<and>
     lookup (put_obj s 5 (Dir \<lparr>dinode = 1, dpos = 0\<rparr>)) 5 [97] = Some (r, s') \<and> map_option (inode_sector \<circ> fst) r = Some 7"
proof (rule sample_written [of "enc_entry sample_entry"])
  fix s i
  assume w: "write_at sample_fs 1 (enc_entry sample_entry) (int (length (enc_entry sample_entry))) 0 =
      Some (int (length (enc_entry sample_entry)), s)" "fs_ok s" "writable s 1 i"
    "file_bytes (vw s) (idata i) = enc_entry sample_entry"
  let ?s = "put_obj s 5 (Dir \<lparr>dinode = 1, dpos = 0\<rparr>)"
  have r: "readable ?s 1 i" "get_dir ?s 5 = Some \<lparr>dinode = 1, dpos = 0\<rparr>" "contents ?s i = enc_entry sample_entry"
    using writable_readable [OF w(2,3)] w(4) by (simp_all add: readable_def get_inode_def get_dir_def put_obj_def)
  have "names_ok [sample_entry]" "dir_map [sample_entry] [97] = Some 7"
    using sample_entry_facts(3) by (simp_all add: names_ok_def dir_map_def named_def sample_entry_def)
  then show ?thesis
    using lookup_refines_map [of ?s "\<lparr>dinode = 1, dpos = 0\<rparr>" i 5 "[97]"] r w(1) sample_entry_facts(1,2) by auto
qed (use sample_entry_facts(1) in auto)

theorem dir_add_refines_map_witness:
  "\<exists>s' i'. dir_add sample_fs 5 [97] 7 False (\<lambda>_. replicate 20 0) = Some (True, s')
     \<and> dir_map (entries (contents s' i')) = [[97] \<mapsto> 7]"
proof -
  have e: "entries (contents sample_fs sample_inode) = []" using sample_contents by (simp add: entries_def)
  have m: "dir_map [] = Map.empty" by (simp add: dir_map_def fun_eq_iff)
  from dir_add_refines_map [of sample_fs "\<lparr>dinode = 1, dpos = 0\<rparr>" sample_inode 5 "[97]" "\<lambda>_. replicate 20 0" 7, OF sample_fs_ok _ sample_dir]
  show ?thesis using sample_fs_writable sample_fs_free sample_contents e m
    by (auto simp: names_ok_def sample_inode_def empty_disk_inode_def)
qed

end
