(* ===== verification/Filesys_Paths.thy ===== *)
theory Filesys_Paths
  imports Filesys_Names
begin

text \<open>
  Removing directories, resolving paths and shutting down: where the code does not do what its
  comments say.
\<close>

section \<open>Removing a directory\<close>

lemma is_empty_loop_rep:
  assumes "readable s ip i" "names_ok (entries (contents s i))"
  shows "\<exists>b s'. is_empty_loop s ip (int (20 * k)) = Some (b, s') \<and> cached s s' (vw s)"
  using assms
proof (induction "length (entries (contents s i)) - k" arbitrary: s k)
  case 0
  obtain s1 where s1: "inode_read_at s ip 20 (int (20 * k)) = Some (subbuf (contents s i) (20 * k) 20, s1)" "cached s s1 (vw s)"
    using read_entry [OF 0(2)] by blast
  have "length (subbuf (contents s i) (20 * k) 20) \<noteq> 20" using entry_at(1) [OF 0(2)] 0(1) by simp
  then show ?case using s1 by (subst is_empty_loop.simps) auto
next
  case (Suc d)
  let ?es = "entries (contents s i)"
  obtain s1 where s1: "inode_read_at s ip 20 (int (20 * k)) = Some (subbuf (contents s i) (20 * k) 20, s1)" "cached s s1 (vw s)"
    using read_entry [OF Suc.prems(1)] by blast
  have k: "k < length ?es" using Suc(2) by simp
  note e = entry_at [OF Suc.prems(1), of k]
  have "in_use (?es ! k) \<Longrightarrow> cstring (ename (?es ! k)) \<noteq> None" using Suc.prems(2) k by (simp add: names_ok_def)
  then obtain b where b: "special_entry (?es ! k) = Some b" by (cases "in_use (?es ! k)") (auto simp: special_entry_def)
  have v: "vw s1 = vw s" by (rule cachedD(2) [OF s1(2)])
  have dk: "d = length ?es - (k + 1)" using Suc(2) by linarith
  obtain b' s2 where "is_empty_loop s1 ip (int (20 * (k + 1))) = Some (b', s2)" "cached s1 s2 (vw s)"
    using Suc(1) [of s1 "k + 1"] dk readable_cached [OF Suc.prems(1) s1(2)] Suc.prems(2) by (auto simp: v)
  then show ?case using s1 e k b cached_trans [OF s1(2)] by (subst is_empty_loop.simps) (auto simp: ac_simps)
qed

lemma inode_close_frees:
  assumes "get_inode s ip = Some i" "open_cnt i = 1" "\<not> removed i" "ip \<noteq> 0" "ip \<in> set (open_inodes s)"
  obtains s' where "inode_close s ip = Some s'" "objs s' = (objs s)(ip := None)" "cch s' = cch s"
proof -
  have "\<exists>s'. inode_close s ip = Some s' \<and> objs s' = (objs s)(ip := None) \<and> cch s' = cch s"
    using assms by (simp add: inode_close_def put_obj_def free_obj_def Let_def)
  then show thesis using that by blast
qed

text \<open>A write inside a file needs nothing but the file and the cache, and frees and allocates nothing.\<close>

lemma write_at_readable:
  assumes r: "readable s ip i" and "deny_write_cnt i = 0" "0 \<le> ofs" "ofs + int (length b) \<le> dlength (idata i)"
  obtains s' where "write_at s ip b (int (length b)) ofs = Some (int (length b), s')" "objs s' = objs s"
proof -
  have R: "cache_ok (cch s)" "get_inode s ip = Some i" "inode_ok (vw s) (nsec s) (idata i)" using r by (simp_all add: readable_def)
  obtain s' v where w: "write_loop s (idata i) b (int (length b)) ofs 0 = Some (length b, ofs + int (length b), s')" "cached s s' v"
    using write_loop_rep [OF R(1,3) assms(3), of "int (length b)" 0 b] assms(4) by auto
  have "write_at s ip b (int (length b)) ofs = Some (int (length b), s')"
    using R(2) w(1) assms(2-4) inode_okD(3) [OF R(3)]
    by (simp add: write_at_def WRITE_FUEL_def numeral_2_eq_2 inode_write_at.simps inode_write_step_def extend_file_def)
  then show thesis using that cachedD(4) [OF w(2)] by blast
qed

text \<open>
  C35: Removing a directory that nobody else has open uses its inode after freeing it.  All that \<open>dir_remove\<close> does
  first returns: the directory is opened, examined and closed, and closing it frees the inode.  If the directory is
  not empty the next call is \<open>inode_close\<close> on the freed inode; if it is empty the entry is erased in the parent
  directory, which succeeds, and the next call is \<open>inode_remove\<close> on the freed inode.
\<close>

theorem dir_remove_use_after_free:
  assumes "readable s ip i" "names_ok (entries (contents s i))" "directory (idata i)" "ip \<noteq> 0"
    "open_cnt i = 1" "\<not> removed i" "ip \<in> set (open_inodes s)" "avail s = a # as" "a \<noteq> 0" "objs s a = None"
    and "get_dir s dp = Some d" "dinode d \<noteq> ip" "readable s (dinode d) j" "deny_write_cnt j = 0"
    "0 \<le> ofs" "ofs + 20 \<le> dlength (idata j)" "length (ename e) = 15"
  shows "\<exists>s1 empty s2 s3 s4. dir_open s ip = Some (a, s1) \<and> dir_is_empty s1 a = Some (empty, s2) \<and>
    dir_close s2 a = Some s3 \<and> objs s3 ip = None \<and>
    write_at s3 (dinode d) (enc_entry (e\<lparr>in_use := False\<rparr>)) 20 ofs = Some (20, s4) \<and> objs s4 ip = None \<and>
    remove_inode s dp ip e ofs =
      (if empty then do {
         t \<leftarrow> inode_remove s4 ip;
         t \<leftarrow> inode_close t ip;
         c \<leftarrow> buffer_cache_close (cch t);
         Some (True, t\<lparr>cch := c\<rparr>)
       } else do { t \<leftarrow> inode_close s3 ip; Some (False, t) }) \<and>
    remove_inode s dp ip e ofs = None"
proof -
  note R = assms(1) [unfolded readable_def] and P = assms(13) [unfolded readable_def]
  define s1 where "s1 = s\<lparr>avail := as, objs := (objs s)(a \<mapsto> Dir \<lparr>dinode = ip, dpos = 0\<rparr>)\<rparr>"
  have ne: "a \<noteq> ip" "a \<noteq> dinode d" "a \<noteq> dp" using R P assms(10,11) by (auto simp: get_inode_def get_dir_def)
  have o1: "dir_open s ip = Some (a, s1)" using assms(4,8,9) by (simp add: dir_open_def alloc_obj_def s1_def)
  have r1: "readable s1 ip i" "contents s1 i = contents s i" "get_dir s1 a = Some \<lparr>dinode = ip, dpos = 0\<rparr>"
    using assms(1) ne by (simp_all add: readable_def get_inode_def get_dir_def s1_def)
  obtain em s2 where s2: "is_empty_loop s1 ip 0 = Some (em, s2)" "cached s1 s2 (vw s1)"
    using is_empty_loop_rep [OF r1(1), of 0] assms(2) r1(2) by auto
  note c = cachedD [OF s2(2)]
  have e1: "dir_is_empty s1 a = Some (em, s2)" using s2(1) r1(3) assms(9) by (simp add: dir_is_empty_def)
  obtain s3' where s3': "inode_close s2 ip = Some s3'" "objs s3' = (objs s2)(ip := None)" "cch s3' = cch s2"
    by (rule inode_close_frees [of s2 ip i]) (use c r1(1) assms(4-7) in \<open>simp_all add: readable_def s1_def\<close>)
  define s3 where "s3 = free_obj s3' a"
  have o3: "objs s3 = (objs s)(ip := None)" "cch s3 = cch s2"
    using s3'(2,3) c(4) assms(9,10) ne by (auto simp: s3_def free_obj_def s1_def)
  have c1: "dir_close s2 a = Some s3" using s3'(1) c(11) r1(3) assms(9) by (simp add: dir_close_def s3_def)
  have v: "vw s1 = vw s" "nsec s1 = nsec s" by (simp_all add: s1_def)
  have r3: "readable s3 (dinode d) j" "get_dir s3 dp = Some d"
    using P c(1-3) v o3 assms(11,12) R by (auto simp: readable_def get_inode_def get_dir_def split: option.splits object.splits)
  have len: "length (enc_entry (e\<lparr>in_use := False\<rparr>)) = 20" using assms(17) by (simp add: length_enc_entry)
  obtain s4 where s4: "write_at s3 (dinode d) (enc_entry (e\<lparr>in_use := False\<rparr>)) 20 ofs = Some (20, s4)" "objs s4 = objs s3"
    using write_at_readable [OF r3(1) assms(14,15), of "enc_entry (e\<lparr>in_use := False\<rparr>)"] assms(16) len by auto
  have "remove_inode s dp ip e ofs =
      (if em then remove_entry s3 dp ip e ofs else do { t \<leftarrow> inode_close s3 ip; Some (False, t) })"
    using R assms(3,4) o1 e1 c1 by (simp add: remove_inode_def inode_is_dir_def)
  moreover have "remove_entry s3 dp ip e ofs = do {
      t \<leftarrow> inode_remove s4 ip; t \<leftarrow> inode_close t ip; c \<leftarrow> buffer_cache_close (cch t); Some (True, t\<lparr>cch := c\<rparr>) }"
    using r3(2) s4(1) by (simp add: remove_entry_def)
  moreover have "inode_remove s4 ip = None" "inode_close s3 ip = None"
    using s4(2) o3(1) assms(4) by (simp_all add: inode_close_def inode_remove_def get_inode_def)
  ultimately show ?thesis using o1 e1 c1 s4 o3(1) by auto
qed

text \<open>An open, empty directory at 6, whose entry is the only one of the directory at 5.\<close>

definition sample_tree :: "fs_state \<Rightarrow> inode \<Rightarrow> fs_state" where
  "sample_tree s i = s\<lparr>open_inodes := [6, 1], avail := [2],
     objs := [1 \<mapsto> Inode i, 5 \<mapsto> Dir \<lparr>dinode = 1, dpos = 0\<rparr>,
              6 \<mapsto> Inode (sample_inode\<lparr>isector := 7, idata := empty_disk_inode\<lparr>directory := True\<rparr>\<rparr>)]\<rparr>"

theorem dir_remove_use_after_free_witness:
  "\<exists>s i s1 empty s2 s3 s4. write_at sample_fs 1 (enc_entry sample_entry) 20 0 = Some (20, s) \<and>
    dir_open (sample_tree s i) 6 = Some (2, s1) \<and> dir_is_empty s1 2 = Some (empty, s2) \<and> dir_close s2 2 = Some s3 \<and>
    objs s3 6 = None \<and> write_at s3 1 (enc_entry (sample_entry\<lparr>in_use := False\<rparr>)) 20 0 = Some (20, s4) \<and> objs s4 6 = None \<and>
    remove_inode (sample_tree s i) 5 6 sample_entry 0 = None"
proof (rule sample_written [of "enc_entry sample_entry"])
  fix s i
  let ?t = "sample_tree s i" and ?j = "sample_inode\<lparr>isector := 7, idata := empty_disk_inode\<lparr>directory := True\<rparr>\<rparr>"
  assume w: "write_at sample_fs 1 (enc_entry sample_entry) (int (length (enc_entry sample_entry))) 0 =
      Some (int (length (enc_entry sample_entry)), s)" "fs_ok s" "writable s 1 i"
    "dlength (idata i) = int (length (enc_entry sample_entry))"
  have r: "readable ?t 1 i" "get_dir ?t 5 = Some \<lparr>dinode = 1, dpos = 0\<rparr>"
    using writable_readable [OF w(2,3)] by (simp_all add: readable_def get_inode_def get_dir_def sample_tree_def)
  have "inode_ok (vw s) (nsec s) (empty_disk_inode\<lparr>directory := True\<rparr>)"
    by (simp add: inode_ok_def inode_fits_def empty_disk_inode_def nsecs_def data_sectors_def index_blocks_def)
  then have j: "readable ?t 6 ?j" "contents ?t ?j = []"
    using r(1) by (simp_all add: readable_def get_inode_def sample_tree_def file_bytes_def empty_disk_inode_def)
  have d: "deny_write_cnt i = 0" "dlength (idata i) = 20" "length (ename sample_entry) = 15"
    using writableD(2) [OF w(3)] w(4) sample_entry_facts(1) by (simp_all add: sample_entry_def)
  have h: "names_ok (entries (contents ?t ?j))" "directory (idata ?j)" "(6 :: nat) \<noteq> 0" "open_cnt ?j = 1" "\<not> removed ?j"
    "6 \<in> set (open_inodes ?t)" "avail ?t = [2]" "(2 :: nat) \<noteq> 0" "objs ?t 2 = None"
    using j(2) by (simp_all add: names_ok_def entries_def sample_inode_def sample_tree_def)
  have p: "dinode \<lparr>dinode = 1, dpos = 0\<rparr> \<noteq> 6" "readable ?t (dinode \<lparr>dinode = 1, dpos = 0\<rparr>) i" "0 \<le> (0 :: int)"
    "0 + 20 \<le> dlength (idata i)"
    using r(1) d(2) by simp_all
  obtain s1 em s2 s3 s4 where "dir_open ?t 6 = Some (2, s1)" "dir_is_empty s1 2 = Some (em, s2)" "dir_close s2 2 = Some s3"
    "objs s3 6 = None" "write_at s3 1 (enc_entry (sample_entry\<lparr>in_use := False\<rparr>)) 20 0 = Some (20, s4)" "objs s4 6 = None"
    "remove_inode ?t 5 6 sample_entry 0 = None"
    using dir_remove_use_after_free [OF j(1) h r(2) p(1,2) d(1) p(3,4) d(3)] by auto
  moreover have "write_at sample_fs 1 (enc_entry sample_entry) 20 0 = Some (20, s)" using w(1) sample_entry_facts(1) by simp
  ultimately show ?thesis by blast
qed (use sample_entry_facts(1) in auto)

section \<open>Paths and shutting down\<close>

text \<open>
  C36: An absolute path to a name in the root directory is resolved like the bare name, in the working
  directory of the process: the part before the slash is empty, and an empty path is not absolute.
\<close>

theorem root_path_is_relative:
  assumes "SLASH \<notin> set name" "name \<noteq> []"
  shows "filesys_open cwd s (SLASH # name) = filesys_open cwd s name
    \<and> filesys_create cwd s (SLASH # name) sz is_dir junk = filesys_create cwd s name sz is_dir junk
    \<and> filesys_remove cwd s (SLASH # name) = filesys_remove cwd s name"
proof -
  have "takeWhile (\<lambda>c. c \<noteq> SLASH) (rev name @ [SLASH]) = rev name"
    using assms(1) by (subst takeWhile_append2) auto
  then have "split_path (SLASH # name) = split_path name" using assms by (simp add: split_path_def Let_def)
  then show ?thesis by (simp add: filesys_open_def filesys_create_def filesys_remove_def)
qed

theorem root_path_is_relative_witness:
  "filesys_open 5 sample_fs [SLASH, 97] = filesys_open 5 sample_fs [97]"
  using root_path_is_relative [of "[97]" 5 sample_fs] by (simp add: SLASH_def)

text \<open>
  C37: Shutting down the file system does not write the buffer cache back: \<open>filesys_done\<close> leaves the cache and
  the device as they are, with all the entries that are only in memory.
\<close>

theorem filesys_done_keeps_cache:
  assumes "free_map_file s \<noteq> 0" "get_file s (free_map_file s) = Some f" "\<not> fdeny_write f"
    "get_inode s (finode f) = Some i" "finode f \<noteq> 0" "\<not> removed i" "finode f \<in> set (open_inodes s)"
  shows "\<exists>s'. filesys_done s = Some s' \<and> cch s' = cch s"
proof -
  have "finode f \<noteq> free_map_file s" using assms(2,4) by (auto simp: get_file_def get_inode_def split: option.splits object.splits)
  then have "\<exists>s'. inode_close s (finode f) = Some s' \<and> cch s' = cch s"
    using assms(4-7) by (simp add: inode_close_def put_obj_def free_obj_def Let_def)
  then show ?thesis using assms(1-3)
    by (auto simp: filesys_done_def free_map_close_def file_close_def file_allow_write_def free_obj_def)
qed

definition shutdown_fs :: fs_state where
  "shutdown_fs = (put_obj sample_fs 6 (File \<lparr>finode = 1, fpos = 0, fdeny_write = False\<rparr>))
     \<lparr>free_map_file := 6, cch := full_cache\<rparr>"

theorem filesys_done_keeps_cache_witness:
  "\<exists>s'. filesys_done shutdown_fs = Some s' \<and> cch s' = full_cache \<and> dirty (cache_list full_cache ! 0)"
  using filesys_done_keeps_cache [of shutdown_fs "\<lparr>finode = 1, fpos = 0, fdeny_write = False\<rparr>" sample_inode]
  by (simp add: shutdown_fs_def get_file_def get_inode_def put_obj_def sample_fs_def fs_with_def sample_inode_def
    full_cache_def)

end
