(* ===== verification/Threads_Thread.thy ===== *)
theory Threads_Thread
  imports Pintos_Prelude
begin

text \<open>
  Threads (\<open>threads/thread.c\<close>), semaphores, locks and condition variables (\<open>threads/synch.c\<close>), sleeping
  (\<open>devices/timer.c\<close>) and the interrupt level (\<open>threads/interrupt.c\<close>) of the one processor.

  The operations are functions on the kernel's state.  A thread that calls one of them may lose the
  processor in the middle of it.  What it still has to do when it runs again is kept on its
  kernel stack, a list of \<open>frame\<close>s, the innermost first; \<open>switch_threads\<close> changes \<open>running\<close> and with it the
  stack that is continued.  One step of the machine is what runs between two points where the
  timer interrupt can come in: a frame is continued, or a thread whose stack is empty calls an
  operation, or, with interrupts on, the timer interrupt is handled.

  The linked lists are lists of thread addresses here; \<open>Kernel_List\<close> shows that the list functions
  implement these operations on lists.  A page of memory for a thread comes from \<open>pages\<close>, the pages \<open>palloc_get_page\<close>
  can hand out; \<open>heap_left\<close> is the number of \<open>struct child\<close> that \<open>malloc\<close> can still provide.
  Page directories are not part of this state: \<open>process_activate\<close>, which loads the page directory and the stack
  of the thread that starts to run, is left out, and \<open>process_exit\<close> forgets the page directory only.
\<close>

section \<open>Data\<close>

datatype thread_status = THREAD_RUNNING | THREAD_READY | THREAD_BLOCKED | THREAD_DYING

text \<open>The semaphores of the kernel, named by where they are stored.\<close>

datatype sema_id =
    Plain nat
  | Lock_sema nat
  | Cond_waiter nat
  | Child_load nat
  | Child_wait nat

text \<open>The function a thread executes; the idle thread's gets a plain semaphore as argument.\<close>

datatype thread_func = Func nat | Idle nat

text \<open>The places where a function is left and later continued.\<close>

datatype frame =
    F_intr_set bool
  | F_sema_down sema_id bool
  | F_call_sema_down sema_id
  | F_sema_up sema_id
  | F_set_holder nat
  | F_lock_acquire nat
  | F_lock_release nat
  | F_broadcast nat nat
  | F_allocate_tid nat thread_func
  | F_create_tail nat thread_func int
  | F_kernel_thread thread_func
  | F_idle_loop
  | F_idle_hlt
  | F_sleep

text \<open>\<open>child_ret\<close> is \<open>None\<close> until the child has set it.\<close>

record child =
  c_tid :: int
  child_done :: int
  child_ret :: "int option"

record thread =
  tid :: int
  status :: thread_status
  tname :: string
  tstack :: nat
  priority :: int
  ticks_to_sleep :: int
  pagedir :: nat
  exit_status :: int
  fd_ct :: int
  parent :: nat
  child_list :: "child list"
  child_loaded :: int
  child_waiting :: int
  cwd :: nat
  tmagic :: u32
  eax :: int
  frames :: "frame list"

record semaphore =
  sval :: u32
  waiters :: "nat list"

record kernel =
  thr :: "nat \<rightharpoonup> thread"
  running :: nat
  ready_list :: "nat list"
  all_list :: "nat list"
  idle_thread :: nat
  initial_thread :: nat
  intr_on :: bool
  in_external_intr :: bool
  yield_on_return :: bool
  thread_ticks :: u32
  idle_ticks :: int
  kernel_ticks :: int
  user_ticks :: int
  next_tid :: int
  sem :: "sema_id \<Rightarrow> semaphore"
  holder :: "nat \<Rightarrow> nat"
  cond_waiters :: "nat \<Rightarrow> nat list"
  next_waiter :: nat
  pages :: "nat list"
  heap_left :: nat
  ticks :: int
  list_threads :: "nat list"

definition THREAD_MAGIC :: u32 where
  "THREAD_MAGIC = 0xcd6abf4b"

definition TIME_SLICE :: u32 where
  "TIME_SLICE = 4"

definition TID_ERROR :: int where
  "TID_ERROR = - 1"

definition PRI_MIN :: int where
  "PRI_MIN = 0"

definition PRI_DEFAULT :: int where
  "PRI_DEFAULT = 31"

definition PRI_MAX :: int where
  "PRI_MAX = 63"

definition TID_LOCK :: nat where
  "TID_LOCK = 0"

text \<open>The range of \<open>int64_t\<close> and of \<open>int\<close>.\<close>

abbreviation int64_range :: "int \<Rightarrow> bool" where
  "int64_range k \<equiv> - (2 ^ 63) \<le> k \<and> k < 2 ^ 63"

abbreviation TID_MAX :: int where
  "TID_MAX \<equiv> 2147483647"

text \<open>Change the thread structure at \<open>t\<close>, and the kernel stack of the running thread.\<close>

definition modify_thread :: "kernel \<Rightarrow> nat \<Rightarrow> (thread \<Rightarrow> thread) \<Rightarrow> kernel option" where
  "modify_thread s t f = do { x \<leftarrow> thr s t; Some (s\<lparr>thr := (thr s)(t \<mapsto> f x)\<rparr>) }"

definition set_status :: "kernel \<Rightarrow> nat \<Rightarrow> thread_status \<Rightarrow> kernel option" where
  "set_status s t v = modify_thread s t (\<lambda>x. x\<lparr>status := v\<rparr>)"

definition push_frames :: "kernel \<Rightarrow> frame list \<Rightarrow> kernel option" where
  "push_frames s fs = modify_thread s (running s) (\<lambda>x. x\<lparr>frames := fs @ frames x\<rparr>)"

definition set_sem :: "kernel \<Rightarrow> sema_id \<Rightarrow> semaphore \<Rightarrow> kernel" where
  "set_sem s x y = s\<lparr>sem := (sem s)(x := y)\<rparr>"

section \<open>The running thread and the scheduler\<close>

definition is_thread :: "kernel \<Rightarrow> nat \<Rightarrow> bool" where
  "is_thread s t = (case thr s t of Some x \<Rightarrow> t \<noteq> 0 \<and> tmagic x = THREAD_MAGIC | None \<Rightarrow> False)"

definition thread_current :: "kernel \<Rightarrow> nat option" where
  "thread_current s = do {
     let t = running s;
     ASSERT (is_thread s t);
     x \<leftarrow> thr s t;
     ASSERT (status x = THREAD_RUNNING);
     Some t
   }"

definition thread_tid :: "kernel \<Rightarrow> int option" where
  "thread_tid s = do { t \<leftarrow> thread_current s; x \<leftarrow> thr s t; Some (tid x) }"

definition thread_name :: "kernel \<Rightarrow> string option" where
  "thread_name s = do { t \<leftarrow> thread_current s; x \<leftarrow> thr s t; Some (tname x) }"

definition next_thread_to_run :: "kernel \<Rightarrow> nat \<times> kernel" where
  "next_thread_to_run s =
     (if ready_list s = [] then (idle_thread s, s)
      else (hd (ready_list s), s\<lparr>ready_list := tl (ready_list s)\<rparr>))"

definition thread_schedule_tail :: "kernel \<Rightarrow> nat \<Rightarrow> kernel option" where
  "thread_schedule_tail s prev = do {
     let cur = running s;
     ASSERT (\<not> intr_on s);
     s \<leftarrow> set_status s cur THREAD_RUNNING;
     let s = s\<lparr>thread_ticks := 0\<rparr>;
     if prev \<noteq> 0 then do {
       x \<leftarrow> thr s prev;
       if status x = THREAD_DYING \<and> prev \<noteq> initial_thread s then do {
         ASSERT (prev \<noteq> cur);
         Some (s\<lparr>thr := (thr s)(prev := None), pages := prev # pages s\<rparr>)
       } else Some s
     } else Some s
   }"

definition schedule :: "kernel \<Rightarrow> kernel option" where
  "schedule s = do {
     let cur = running s;
     let (next_t, s) = next_thread_to_run s;
     ASSERT (\<not> intr_on s);
     x \<leftarrow> thr s cur;
     ASSERT (status x \<noteq> THREAD_RUNNING);
     ASSERT (is_thread s next_t);
     if cur \<noteq> next_t then thread_schedule_tail (s\<lparr>running := next_t\<rparr>) cur
     else thread_schedule_tail s 0
   }"

definition thread_block :: "kernel \<Rightarrow> kernel option" where
  "thread_block s = do {
     ASSERT (\<not> in_external_intr s);
     ASSERT (\<not> intr_on s);
     t \<leftarrow> thread_current s;
     s \<leftarrow> set_status s t THREAD_BLOCKED;
     schedule s
   }"

definition thread_unblock :: "kernel \<Rightarrow> nat \<Rightarrow> kernel option" where
  "thread_unblock s t = do {
     ASSERT (is_thread s t);
     x \<leftarrow> thr s t;
     ASSERT (status x = THREAD_BLOCKED);
     set_status (s\<lparr>ready_list := ready_list s @ [t]\<rparr>) t THREAD_READY
   }"

definition thread_yield :: "kernel \<Rightarrow> kernel option" where
  "thread_yield s = do {
     cur \<leftarrow> thread_current s;
     ASSERT (\<not> in_external_intr s);
     s \<leftarrow> push_frames s [F_intr_set (intr_on s)];
     let s = s\<lparr>intr_on := False\<rparr>;
     let s = (if cur \<noteq> idle_thread s then s\<lparr>ready_list := ready_list s @ [cur]\<rparr> else s);
     s \<leftarrow> set_status s cur THREAD_READY;
     schedule s
   }"

definition process_exit :: "kernel \<Rightarrow> kernel option" where
  "process_exit s = do {
     cur \<leftarrow> thread_current s;
     x \<leftarrow> thr s cur;
     modify_thread (s\<lparr>heap_left := heap_left s + length (child_list x)\<rparr>) cur (\<lambda>x. x\<lparr>child_list := [], pagedir := 0\<rparr>)
   }"

definition thread_exit :: "kernel \<Rightarrow> kernel option" where
  "thread_exit s = do {
     ASSERT (\<not> in_external_intr s);
     s \<leftarrow> process_exit s;
     cur \<leftarrow> thread_current s;
     let s = s\<lparr>intr_on := False, all_list := remove1 cur (all_list s)\<rparr>;
     s \<leftarrow> set_status s cur THREAD_DYING;
     schedule s
   }"

text \<open>\<open>thread_foreach\<close> with an action that may change the state.\<close>

fun foreach_loop :: "(kernel \<Rightarrow> nat \<Rightarrow> kernel option) \<Rightarrow> nat list \<Rightarrow> kernel \<Rightarrow> kernel option" where
  "foreach_loop func [] s = Some s"
| "foreach_loop func (t # ts) s = do { s \<leftarrow> func s t; foreach_loop func ts s }"

definition thread_foreach :: "kernel \<Rightarrow> (kernel \<Rightarrow> nat \<Rightarrow> kernel option) \<Rightarrow> kernel option" where
  "thread_foreach s func = do { ASSERT (\<not> intr_on s); foreach_loop func (all_list s) s }"

definition thread_set_priority :: "kernel \<Rightarrow> int \<Rightarrow> kernel option" where
  "thread_set_priority s p = do { t \<leftarrow> thread_current s; modify_thread s t (\<lambda>x. x\<lparr>priority := p\<rparr>) }"

definition thread_get_priority :: "kernel \<Rightarrow> int option" where
  "thread_get_priority s = do { t \<leftarrow> thread_current s; x \<leftarrow> thr s t; Some (priority x) }"

text \<open>The child entry of a thread for a thread identifier.\<close>

fun find_child_loop :: "int \<Rightarrow> child list \<Rightarrow> child option" where
  "find_child_loop i [] = None"
| "find_child_loop i (c # cs) = (if c_tid c = i then Some c else find_child_loop i cs)"

definition find_child :: "kernel \<Rightarrow> int \<Rightarrow> nat \<Rightarrow> child option option" where
  "find_child s i cur = do { x \<leftarrow> thr s cur; Some (find_child_loop i (child_list x)) }"

section \<open>Semaphores\<close>

definition sema_init :: "kernel \<Rightarrow> sema_id \<Rightarrow> u32 \<Rightarrow> kernel" where
  "sema_init s x v = set_sem s x \<lparr>sval = v, waiters = []\<rparr>"

text \<open>
  The loop of \<open>sema_down\<close>, with interrupts off and the former level \<open>old_level\<close>.  A thread that waits
  is continued at the loop's condition.
\<close>

definition sema_down_loop :: "kernel \<Rightarrow> sema_id \<Rightarrow> bool \<Rightarrow> kernel option" where
  "sema_down_loop s x old_level =
     (if sval (sem s x) = 0 then do {
        t \<leftarrow> thread_current s;
        let s = set_sem s x (sem s x\<lparr>waiters := waiters (sem s x) @ [t]\<rparr>);
        s \<leftarrow> push_frames s [F_sema_down x old_level];
        thread_block s
      }
      else Some ((set_sem s x (sem s x\<lparr>sval := sval (sem s x) - 1\<rparr>))\<lparr>intr_on := old_level\<rparr>))"

definition sema_down :: "kernel \<Rightarrow> sema_id \<Rightarrow> kernel option" where
  "sema_down s x = do {
     ASSERT (\<not> in_external_intr s);
     sema_down_loop (s\<lparr>intr_on := False\<rparr>) x (intr_on s)
   }"

definition sema_try_down :: "kernel \<Rightarrow> sema_id \<Rightarrow> bool \<times> kernel" where
  "sema_try_down s x =
     (if sval (sem s x) > 0 then (True, set_sem s x (sem s x\<lparr>sval := sval (sem s x) - 1\<rparr>))
      else (False, s))"

definition sema_up :: "kernel \<Rightarrow> sema_id \<Rightarrow> kernel option" where
  "sema_up s x = do {
     s \<leftarrow> (case waiters (sem s x) of
         [] \<Rightarrow> Some s
       | t # ts \<Rightarrow> thread_unblock (set_sem s x (sem s x\<lparr>waiters := ts\<rparr>)) t);
     Some (set_sem s x (sem s x\<lparr>sval := sval (sem s x) + 1\<rparr>))
   }"

section \<open>Locks\<close>

definition lock_init :: "kernel \<Rightarrow> nat \<Rightarrow> kernel" where
  "lock_init s l = sema_init (s\<lparr>holder := (holder s)(l := 0)\<rparr>) (Lock_sema l) 1"

definition lock_held_by_current_thread :: "kernel \<Rightarrow> nat \<Rightarrow> bool option" where
  "lock_held_by_current_thread s l = do { t \<leftarrow> thread_current s; Some (holder s l = t) }"

definition lock_acquire :: "kernel \<Rightarrow> nat \<Rightarrow> kernel option" where
  "lock_acquire s l = do {
     ASSERT (\<not> in_external_intr s);
     h \<leftarrow> lock_held_by_current_thread s l;
     ASSERT (\<not> h);
     s \<leftarrow> push_frames s [F_set_holder l];
     sema_down s (Lock_sema l)
   }"

definition set_holder :: "kernel \<Rightarrow> nat \<Rightarrow> kernel option" where
  "set_holder s l = do { t \<leftarrow> thread_current s; Some (s\<lparr>holder := (holder s)(l := t)\<rparr>) }"

definition lock_try_acquire :: "kernel \<Rightarrow> nat \<Rightarrow> (bool \<times> kernel) option" where
  "lock_try_acquire s l = do {
     h \<leftarrow> lock_held_by_current_thread s l;
     ASSERT (\<not> h);
     let (success, s) = sema_try_down s (Lock_sema l);
     s \<leftarrow> (if success then push_frames s [F_set_holder l] else Some s);
     Some (success, s)
   }"

definition lock_release :: "kernel \<Rightarrow> nat \<Rightarrow> kernel option" where
  "lock_release s l = do {
     h \<leftarrow> lock_held_by_current_thread s l;
     ASSERT h;
     push_frames (s\<lparr>holder := (holder s)(l := 0)\<rparr>) [F_sema_up (Lock_sema l)]
   }"

section \<open>Condition variables\<close>

definition cond_init :: "kernel \<Rightarrow> nat \<Rightarrow> kernel" where
  "cond_init s c = s\<lparr>cond_waiters := (cond_waiters s)(c := [])\<rparr>"

text \<open>The waiter's semaphore lives on its stack; it gets a name that was not used before.\<close>

definition cond_wait :: "kernel \<Rightarrow> nat \<Rightarrow> nat \<Rightarrow> kernel option" where
  "cond_wait s c l = do {
     ASSERT (\<not> in_external_intr s);
     h \<leftarrow> lock_held_by_current_thread s l;
     ASSERT h;
     let w = next_waiter s;
     let s = sema_init (s\<lparr>next_waiter := w + 1\<rparr>) (Cond_waiter w) 0;
     let s = s\<lparr>cond_waiters := (cond_waiters s)(c := cond_waiters s c @ [w])\<rparr>;
     push_frames s [F_lock_release l, F_call_sema_down (Cond_waiter w), F_lock_acquire l]
   }"

definition cond_signal :: "kernel \<Rightarrow> nat \<Rightarrow> nat \<Rightarrow> kernel option" where
  "cond_signal s c l = do {
     ASSERT (\<not> in_external_intr s);
     h \<leftarrow> lock_held_by_current_thread s l;
     ASSERT h;
     case cond_waiters s c of
       [] \<Rightarrow> Some s
     | w # ws \<Rightarrow> push_frames (s\<lparr>cond_waiters := (cond_waiters s)(c := ws)\<rparr>) [F_sema_up (Cond_waiter w)]
   }"

definition cond_broadcast :: "kernel \<Rightarrow> nat \<Rightarrow> nat \<Rightarrow> kernel option" where
  "cond_broadcast s c l =
     (if cond_waiters s c \<noteq> [] then do { s \<leftarrow> push_frames s [F_broadcast c l]; cond_signal s c l }
      else Some s)"

section \<open>Creating threads\<close>

text \<open>\<open>memset\<close> makes every field 0 before some are set.\<close>

definition new_thread :: "string \<Rightarrow> int \<Rightarrow> thread" where
  "new_thread name prio = \<lparr>tid = 0, status = THREAD_BLOCKED, tname = take 15 name, tstack = 4096, priority = prio,
     ticks_to_sleep = 0, pagedir = 0, exit_status = 0, fd_ct = 0, parent = 0, child_list = [], child_loaded = 0,
     child_waiting = 0, cwd = 0, tmagic = THREAD_MAGIC, eax = 0, frames = []\<rparr>"

definition init_thread :: "kernel \<Rightarrow> nat \<Rightarrow> string \<Rightarrow> int \<Rightarrow> kernel option" where
  "init_thread s t name prio = do {
     ASSERT (t \<noteq> 0);
     ASSERT (PRI_MIN \<le> prio \<and> prio \<le> PRI_MAX);
     let s = s\<lparr>thr := (thr s)(t \<mapsto> new_thread name prio)\<rparr>;
     let s = sema_init (sema_init s (Child_load t) 0) (Child_wait t) 0;
     Some (s\<lparr>all_list := all_list s @ [t]\<rparr>)
   }"

definition alloc_frame :: "kernel \<Rightarrow> nat \<Rightarrow> nat \<Rightarrow> kernel option" where
  "alloc_frame s t sz = do {
     ASSERT (is_thread s t);
     ASSERT (sz mod 4 = 0);
     modify_thread s t (\<lambda>x. x\<lparr>tstack := tstack x - sz\<rparr>)
   }"

definition set_eax :: "kernel \<Rightarrow> int \<Rightarrow> kernel option" where
  "set_eax s v = modify_thread s (running s) (\<lambda>x. x\<lparr>eax := v\<rparr>)"

definition thread_create :: "kernel \<Rightarrow> string \<Rightarrow> int \<Rightarrow> thread_func \<Rightarrow> kernel option" where
  "thread_create s name prio function =
     (case pages s of
        [] \<Rightarrow> set_eax s TID_ERROR
      | t # ps \<Rightarrow> do {
          s \<leftarrow> init_thread (s\<lparr>pages := ps\<rparr>) t name prio;
          s \<leftarrow> push_frames s [F_allocate_tid t function];
          lock_acquire s TID_LOCK
        })"

text \<open>\<open>allocate_tid\<close> after it has the lock.\<close>

definition allocate_tid :: "kernel \<Rightarrow> nat \<Rightarrow> thread_func \<Rightarrow> kernel option" where
  "allocate_tid s t function = do {
     ASSERT (next_tid s < TID_MAX);
     let i = next_tid s;
     s \<leftarrow> push_frames (s\<lparr>next_tid := i + 1\<rparr>) [F_create_tail t function i];
     lock_release s TID_LOCK
   }"

text \<open>
  The rest of \<open>thread_create\<close>: the three stack frames, whose sizes are 12, 4 and 28, the entry in the
  parent's list of children, and \<open>thread_unblock\<close>.  A failure of \<open>malloc\<close> would be a null pointer
  dereference.
\<close>

definition create_tail :: "kernel \<Rightarrow> nat \<Rightarrow> thread_func \<Rightarrow> int \<Rightarrow> kernel option" where
  "create_tail s t function i = do {
     s \<leftarrow> modify_thread s t (\<lambda>x. x\<lparr>tid := i\<rparr>);
     s \<leftarrow> alloc_frame s t 12;
     s \<leftarrow> alloc_frame s t 4;
     s \<leftarrow> alloc_frame s t 28;
     s \<leftarrow> modify_thread s t (\<lambda>x. x\<lparr>frames := [F_kernel_thread function]\<rparr>);
     cur \<leftarrow> thread_current s;
     s \<leftarrow> modify_thread s t (\<lambda>x. x\<lparr>exit_status := - 1, parent := cur\<rparr>);
     s \<leftarrow> modify_thread s cur (\<lambda>x. x\<lparr>child_loaded := 0\<rparr>);
     ASSERT (heap_left s > 0);
     let s = s\<lparr>heap_left := heap_left s - 1\<rparr>;
     s \<leftarrow> modify_thread s cur (\<lambda>x. x\<lparr>child_list := child_list x @ [\<lparr>c_tid = i, child_done = 0, child_ret = None\<rparr>]\<rparr>);
     s \<leftarrow> modify_thread s t (\<lambda>x. x\<lparr>fd_ct := 1\<rparr>);
     s \<leftarrow> thread_unblock s t;
     set_eax s i
   }"

text \<open>
  A new thread first enables interrupts.  The idle thread announces itself, wakes the thread that
  started it and then alternates between blocking and waiting for an interrupt.
\<close>

definition idle_begin :: "kernel \<Rightarrow> nat \<Rightarrow> kernel option" where
  "idle_begin s idle_started = do {
     t \<leftarrow> thread_current s;
     s \<leftarrow> push_frames (s\<lparr>idle_thread := t\<rparr>) [F_idle_loop];
     sema_up s (Plain idle_started)
   }"

definition idle_loop :: "kernel \<Rightarrow> kernel option" where
  "idle_loop s = do {
     s \<leftarrow> push_frames (s\<lparr>intr_on := False\<rparr>) [F_idle_hlt];
     thread_block s
   }"

definition idle_hlt :: "kernel \<Rightarrow> kernel option" where
  "idle_hlt s = push_frames (s\<lparr>intr_on := True\<rparr>) [F_idle_loop]"

definition kernel_thread :: "kernel \<Rightarrow> thread_func \<Rightarrow> kernel option" where
  "kernel_thread s function = do {
     ASSERT (\<not> in_external_intr s);
     let s = s\<lparr>intr_on := True\<rparr>;
     case function of Func f \<Rightarrow> Some s | Idle x \<Rightarrow> idle_begin s x
   }"

definition thread_start :: "kernel \<Rightarrow> nat \<Rightarrow> kernel option" where
  "thread_start s idle_started = do {
     s \<leftarrow> push_frames (sema_init s (Plain idle_started) 0) [F_intr_set True, F_call_sema_down (Plain idle_started)];
     thread_create s ''idle'' PRI_MIN (Idle idle_started)
   }"

text \<open>
  The state before \<open>thread_init\<close>: the code that runs is on the page \<open>t\<close>.  Locks and semaphores are
  initialised before they are used, so they all start as \<open>lock_init\<close> and \<open>sema_init\<close> leave them.
\<close>

definition boot_sem :: "(nat \<Rightarrow> u32) \<Rightarrow> sema_id \<Rightarrow> semaphore" where
  "boot_sem v x = \<lparr>sval = (case x of Lock_sema l \<Rightarrow> 1 | Plain n \<Rightarrow> v n | _ \<Rightarrow> 0), waiters = []\<rparr>"

definition boot_state :: "nat \<Rightarrow> nat list \<Rightarrow> nat \<Rightarrow> (nat \<Rightarrow> u32) \<Rightarrow> kernel" where
  "boot_state t ps heap v = \<lparr>thr = Map.empty, running = t, ready_list = [], all_list = [], idle_thread = 0,
     initial_thread = t, intr_on = False, in_external_intr = False, yield_on_return = False, thread_ticks = 0,
     idle_ticks = 0, kernel_ticks = 0, user_ticks = 0, next_tid = 1, sem = boot_sem v,
     holder = (\<lambda>_. 0), cond_waiters = (\<lambda>_. []), next_waiter = 0, pages = ps, heap_left = heap, ticks = 0,
     list_threads = []\<rparr>"

text \<open>The lock that \<open>allocate_tid\<close> takes is free here.\<close>

definition thread_init :: "kernel \<Rightarrow> kernel option" where
  "thread_init s = do {
     ASSERT (\<not> intr_on s);
     let s = lock_init s TID_LOCK;
     let s = s\<lparr>ready_list := [], all_list := []\<rparr>;
     let s = s\<lparr>initial_thread := running s\<rparr>;
     s \<leftarrow> init_thread s (running s) ''main'' PRI_DEFAULT;
     s \<leftarrow> set_status s (running s) THREAD_RUNNING;
     let i = next_tid s;
     modify_thread (s\<lparr>next_tid := i + 1\<rparr>) (running s) (\<lambda>x. x\<lparr>tid := i\<rparr>)
   }"

section \<open>The timer\<close>

definition count_tick :: "kernel \<Rightarrow> nat \<Rightarrow> thread \<Rightarrow> kernel" where
  "count_tick s t x =
     (if t = idle_thread s then s\<lparr>idle_ticks := idle_ticks s + 1\<rparr>
      else if pagedir x \<noteq> 0 then s\<lparr>user_ticks := user_ticks s + 1\<rparr>
      else s\<lparr>kernel_ticks := kernel_ticks s + 1\<rparr>)"

definition thread_tick :: "kernel \<Rightarrow> kernel option" where
  "thread_tick s = do {
     t \<leftarrow> thread_current s;
     x \<leftarrow> thr s t;
     let s = count_tick s t x;
     let s = s\<lparr>thread_ticks := thread_ticks s + 1\<rparr>;
     Some (if thread_ticks s \<ge> TIME_SLICE then s\<lparr>yield_on_return := True\<rparr> else s)
   }"

definition is_less_than :: "kernel \<Rightarrow> nat \<Rightarrow> nat \<Rightarrow> bool" where
  "is_less_than s x y = (case (thr s x, thr s y) of
     (Some a, Some b) \<Rightarrow> ticks_to_sleep a < ticks_to_sleep b | _ \<Rightarrow> False)"

definition timer_sleep :: "kernel \<Rightarrow> int \<Rightarrow> kernel option" where
  "timer_sleep s n = do {
     ASSERT (intr_on s);
     t \<leftarrow> thread_current s;
     ASSERT (int64_range (ticks s + n));
     s \<leftarrow> modify_thread s t (\<lambda>x. x\<lparr>ticks_to_sleep := ticks s + n\<rparr>);
     push_frames s [F_sleep]
   }"

definition timer_sleep_tail :: "kernel \<Rightarrow> kernel option" where
  "timer_sleep_tail s = do {
     t \<leftarrow> thread_current s;
     s \<leftarrow> push_frames s [F_intr_set (intr_on s)];
     let s = s\<lparr>intr_on := False\<rparr>;
     let q = list_threads s;
     let s = s\<lparr>list_threads := takeWhile (\<lambda>y. \<not> is_less_than s t y) q @ t # dropWhile (\<lambda>y. \<not> is_less_than s t y) q\<rparr>;
     thread_block s
   }"

fun wake_loop :: "kernel \<Rightarrow> nat list \<Rightarrow> kernel option" where
  "wake_loop s [] = Some (s\<lparr>list_threads := []\<rparr>)"
| "wake_loop s (t # ts) = do {
     x \<leftarrow> thr s t;
     if ticks s < ticks_to_sleep x then Some (s\<lparr>list_threads := t # ts\<rparr>)
     else do { s \<leftarrow> thread_unblock s t; wake_loop s ts }
   }"

definition timer_interrupt :: "kernel \<Rightarrow> kernel option" where
  "timer_interrupt s = do {
     let s = s\<lparr>ticks := ticks s + 1\<rparr>;
     s \<leftarrow> thread_tick s;
     wake_loop s (list_threads s)
   }"

text \<open>
  The timer interrupt (vector 0x20, external): the processor saves its flags and turns interrupts
  off; the return from the interrupt turns them on again.
\<close>

definition intr_handler :: "kernel \<Rightarrow> kernel option" where
  "intr_handler s = do {
     s \<leftarrow> push_frames (s\<lparr>intr_on := False\<rparr>) [F_intr_set True];
     ASSERT (\<not> in_external_intr s);
     s \<leftarrow> timer_interrupt (s\<lparr>in_external_intr := True, yield_on_return := False\<rparr>);
     let s = s\<lparr>in_external_intr := False\<rparr>;
     if yield_on_return s then thread_yield s else Some s
   }"

section \<open>The machine\<close>

text \<open>Continue a function the running thread had left.\<close>

definition run_frame :: "kernel \<Rightarrow> frame \<Rightarrow> kernel option" where
  "run_frame s f = (case f of
     F_intr_set b \<Rightarrow> Some (s\<lparr>intr_on := b\<rparr>)
   | F_sema_down x old \<Rightarrow> sema_down_loop s x old
   | F_call_sema_down x \<Rightarrow> sema_down s x
   | F_sema_up x \<Rightarrow> sema_up s x
   | F_set_holder l \<Rightarrow> set_holder s l
   | F_lock_acquire l \<Rightarrow> lock_acquire s l
   | F_lock_release l \<Rightarrow> lock_release s l
   | F_broadcast c l \<Rightarrow> cond_broadcast s c l
   | F_allocate_tid t g \<Rightarrow> allocate_tid s t g
   | F_create_tail t g i \<Rightarrow> create_tail s t g i
   | F_kernel_thread g \<Rightarrow> kernel_thread s g
   | F_idle_loop \<Rightarrow> idle_loop s
   | F_idle_hlt \<Rightarrow> idle_hlt s
   | F_sleep \<Rightarrow> timer_sleep_tail s)"

text \<open>
  What kernel code may call.  The semaphores inside locks and condition variables belong to those, so
  a plain \<open>sema_down\<close> or \<open>sema_up\<close> is for other ones.
\<close>

datatype call =
    C_sema_down sema_id
  | C_sema_try_down sema_id
  | C_sema_up sema_id
  | C_lock_acquire nat
  | C_lock_try_acquire nat
  | C_lock_release nat
  | C_cond_wait nat nat
  | C_cond_signal nat nat
  | C_cond_broadcast nat nat
  | C_thread_create string int nat
  | C_thread_start nat
  | C_thread_yield
  | C_thread_exit
  | C_timer_sleep int
  | C_set_priority int
  | C_intr_set_level bool

fun own_sema :: "sema_id \<Rightarrow> bool" where
  "own_sema (Lock_sema l) = False"
| "own_sema (Cond_waiter w) = False"
| "own_sema x = True"

definition do_call :: "kernel \<Rightarrow> call \<Rightarrow> kernel option" where
  "do_call s c = (case c of
     C_sema_down x \<Rightarrow> do { ASSERT (own_sema x); sema_down s x }
   | C_sema_try_down x \<Rightarrow> do { ASSERT (own_sema x); Some (snd (sema_try_down s x)) }
   | C_sema_up x \<Rightarrow> do { ASSERT (own_sema x); sema_up s x }
   | C_lock_acquire l \<Rightarrow> lock_acquire s l
   | C_lock_try_acquire l \<Rightarrow> map_option snd (lock_try_acquire s l)
   | C_lock_release l \<Rightarrow> lock_release s l
   | C_cond_wait c l \<Rightarrow> cond_wait s c l
   | C_cond_signal c l \<Rightarrow> cond_signal s c l
   | C_cond_broadcast c l \<Rightarrow> cond_broadcast s c l
   | C_thread_create n p f \<Rightarrow> thread_create s n p (Func f)
   | C_thread_start n \<Rightarrow> thread_start s n
   | C_thread_yield \<Rightarrow> thread_yield s
   | C_thread_exit \<Rightarrow> thread_exit s
   | C_timer_sleep n \<Rightarrow> timer_sleep s n
   | C_set_priority p \<Rightarrow> thread_set_priority s p
   | C_intr_set_level b \<Rightarrow> Some (s\<lparr>intr_on := b\<rparr>))"

text \<open>The running thread's next frame is taken off its stack and continued.\<close>

definition resume :: "kernel \<Rightarrow> kernel option" where
  "resume s = do {
     x \<leftarrow> thr s (running s);
     case frames x of
       [] \<Rightarrow> None
     | f # fs \<Rightarrow> do {
         s \<leftarrow> modify_thread s (running s) (\<lambda>x. x\<lparr>frames := fs\<rparr>);
         run_frame s f
       }
   }"

inductive step :: "kernel \<Rightarrow> kernel \<Rightarrow> bool" where
  resume: "resume s = Some s' \<Longrightarrow> step s s'"
| call: "thr s (running s) = Some x \<Longrightarrow> frames x = [] \<Longrightarrow> do_call s c = Some s' \<Longrightarrow> step s s'"
| interrupt: "intr_on s \<Longrightarrow> intr_handler s = Some s' \<Longrightarrow> step s s'"

inductive reachable :: "kernel \<Rightarrow> bool" where
  init: "t \<noteq> 0 \<Longrightarrow> distinct (t # ps) \<Longrightarrow> 0 \<notin> set ps \<Longrightarrow> thread_init (boot_state t ps heap v) = Some s \<Longrightarrow> reachable s"
| step: "reachable s \<Longrightarrow> step s s' \<Longrightarrow> reachable s'"

inductive_cases stepE: "step s s'"

end
