(* ===== verification/Threads_Invariant.thy ===== *)
theory Threads_Invariant
  imports Threads_Thread
begin

text \<open>
  The invariant of the kernel's threads and its preservation.

  The invariant is a conjunction of predicates on the states (\<open>ST\<close>) and the stacks (\<open>FR\<close>) of the threads
  and the queues.  The step that continues a frame first takes it off the stack; until it is done the
  frame is ``in hand'': \<open>stk h s\<close> are the stacks with the frames \<open>h\<close> put back on the running thread's.
\<close>

section \<open>Stacks\<close>

fun is_intr :: "frame \<Rightarrow> bool" where
  "is_intr (F_intr_set b) = True"
| "is_intr _ = False"

abbreviation strip :: "frame list \<Rightarrow> frame list" where
  "strip fs \<equiv> dropWhile is_intr fs"

text \<open>The semaphore a thread is in \<open>sema_down\<close> for, and the lock it has the token of.\<close>

definition down_top :: "frame list \<Rightarrow> sema_id option" where
  "down_top fs = (case strip fs of F_sema_down x b # r \<Rightarrow> Some x | _ \<Rightarrow> None)"

definition own_top :: "frame list \<Rightarrow> nat option" where
  "own_top fs = (case strip fs of F_set_holder l # r \<Rightarrow> Some l | F_sema_up (Lock_sema l) # r \<Rightarrow> Some l | _ \<Rightarrow> None)"

fun plain :: "frame \<Rightarrow> bool" where
  "plain (F_sema_down x b) = False"
| "plain (F_set_holder l) = False"
| "plain (F_sema_up (Lock_sema l)) = False"
| "plain (F_call_sema_down (Lock_sema l)) = False"
| "plain _ = True"

definition wf_top :: "frame list \<Rightarrow> bool" where
  "wf_top fs = (case strip fs of
     [] \<Rightarrow> True
   | F_sema_down (Lock_sema l) b # r \<Rightarrow> (case r of F_set_holder k # r' \<Rightarrow> k = l \<and> list_all plain r' | _ \<Rightarrow> False)
   | F_call_sema_down (Lock_sema l) # r \<Rightarrow> False
   | f # r \<Rightarrow> list_all plain r)"

definition idle_stack :: "frame list \<Rightarrow> bool" where
  "idle_stack fs \<longleftrightarrow> fs \<noteq> [] \<and> last fs \<in> {F_idle_loop, F_idle_hlt} \<and> list_all is_intr (butlast fs)"

text \<open>\<open>kernel_thread\<close> and the idle loop are at the bottom of a stack; nothing but interrupts is above the latter.\<close>

fun is_kt :: "frame \<Rightarrow> bool" where
  "is_kt (F_kernel_thread g) = True"
| "is_kt _ = False"

definition bottom_ok :: "frame list \<Rightarrow> bool" where
  "bottom_ok fs \<longleftrightarrow> list_all (\<lambda>f. \<not> is_kt f) (butlast fs)
     \<and> (F_idle_loop \<in> set fs \<or> F_idle_hlt \<in> set fs \<longrightarrow> idle_stack fs)"

definition wf_stack :: "frame list \<Rightarrow> bool" where
  "wf_stack fs \<longleftrightarrow> wf_top fs \<and> bottom_ok fs"

fun creates :: "frame \<Rightarrow> nat list" where
  "creates (F_allocate_tid t g) = [t]"
| "creates (F_create_tail t g i) = [t]"
| "creates _ = []"

definition embryo :: "frame list \<Rightarrow> nat list" where
  "embryo fs = concat (map creates fs)"

lemma embryo_simps [simp]: "embryo [] = []" "embryo (f # fs) = creates f @ embryo fs" "embryo (fs @ gs) = embryo fs @ embryo gs"
  by (simp_all add: embryo_def)

lemma top_intr [simp]:
  "down_top (F_intr_set b # fs) = down_top fs" "own_top (F_intr_set b # fs) = own_top fs"
  "wf_top (F_intr_set b # fs) = wf_top fs"
  by (simp_all add: down_top_def own_top_def wf_top_def)

lemma idle_stack_intr [simp]: "idle_stack (F_intr_set b # fs) = idle_stack fs"
  by (cases fs rule: rev_cases) (auto simp: idle_stack_def)

lemma idle_stack_Cons: "\<not> is_intr f \<Longrightarrow> idle_stack (f # fs) \<longleftrightarrow> fs = [] \<and> f \<in> {F_idle_loop, F_idle_hlt}"
  by (cases fs rule: rev_cases) (auto simp: idle_stack_def)

lemma idle_stack_nil [simp]: "\<not> idle_stack []"
  by (simp add: idle_stack_def)

lemma bottom_ok_intr [simp]: "bottom_ok (F_intr_set b # fs) = bottom_ok fs"
  by (auto simp: bottom_ok_def)

lemma top_nil [simp]: "down_top [] = None" "own_top [] = None" "wf_top []" "bottom_ok []" "wf_stack []"
  by (simp_all add: down_top_def own_top_def wf_top_def bottom_ok_def wf_stack_def)

lemma wf_stack_intr [simp]: "wf_stack (F_intr_set b # fs) = wf_stack fs"
  by (simp add: wf_stack_def)

lemma bottom_ok_push:
  "bottom_ok fs \<Longrightarrow> \<not> idle_stack fs \<Longrightarrow> \<not> is_kt f \<Longrightarrow> f \<noteq> F_idle_loop \<Longrightarrow> f \<noteq> F_idle_hlt \<Longrightarrow> bottom_ok (f # fs)"
  by (auto simp: bottom_ok_def)

lemma bottom_ok_pop: "bottom_ok (f # fs) \<Longrightarrow> bottom_ok fs"
  by (cases "is_intr f") (auto simp: bottom_ok_def idle_stack_Cons elim: is_intr.elims split: if_splits)

lemma strip_plain: "list_all plain fs \<Longrightarrow> list_all plain (strip fs)"
  by (induction fs) auto

lemma plain_tops:
  assumes "list_all plain fs"
  shows "down_top fs = None" "own_top fs = None" "wf_top fs"
proof -
  have "list_all plain (strip fs)" by (rule strip_plain [OF assms])
  then show "down_top fs = None" "own_top fs = None" "wf_top fs"
    by (auto simp: down_top_def own_top_def wf_top_def split: list.splits frame.splits sema_id.splits)
qed

lemma plain_idle: "idle_stack fs \<Longrightarrow> list_all plain fs"
proof -
  assume i: "idle_stack fs"
  then obtain gs g where fs: "fs = gs @ [g]" by (cases fs rule: rev_cases) auto
  have "plain f" if "is_intr f" for f using that by (cases f) auto
  then show ?thesis using i by (auto simp: fs idle_stack_def list_all_iff)
qed

text \<open>Below any frame but an interrupt's, or \<open>sema_down\<close> for a lock, there are plain frames only.\<close>

lemma wf_below:
  assumes "wf_stack (f # fs)" "\<not> is_intr f"
  shows "(\<And>l b. f \<noteq> F_sema_down (Lock_sema l) b) \<Longrightarrow> list_all plain fs"
    "f = F_sema_down (Lock_sema l) b \<Longrightarrow> \<exists>r. fs = F_set_holder l # r \<and> list_all plain r"
proof -
  have w: "wf_top (f # fs)" using assms(1) by (simp add: wf_stack_def)
  show "list_all plain fs" if "\<And>l b. f \<noteq> F_sema_down (Lock_sema l) b"
    using w assms(2) that by (auto simp: wf_top_def split: frame.splits sema_id.splits)
  show "\<exists>r. fs = F_set_holder l # r \<and> list_all plain r" if "f = F_sema_down (Lock_sema l) b"
  proof (cases fs)
    case (Cons g gs)
    then show ?thesis using w that by (cases g) (simp_all add: wf_top_def)
  qed (use w that in \<open>simp add: wf_top_def\<close>)
qed

lemma idle_stack_mem: "idle_stack fs \<Longrightarrow> F_idle_loop \<in> set fs \<or> F_idle_hlt \<in> set fs"
  unfolding idle_stack_def by (metis insertE last_in_set singletonD)

lemma idle_below: "wf_stack (f # fs) \<Longrightarrow> \<not> is_intr f \<Longrightarrow> \<not> idle_stack fs"
  using idle_stack_mem [of fs] by (auto simp: wf_stack_def bottom_ok_def idle_stack_Cons)

lemma is_intrE: "is_intr f \<Longrightarrow> \<exists>b. f = F_intr_set b"
  by (cases f) simp_all

lemma wf_pop:
  assumes "wf_stack (f # fs)" "plain f"
  shows "wf_stack fs"
proof (cases "is_intr f")
  case True
  then show ?thesis using assms(1) is_intrE by fastforce
next
  case False
  have "list_all plain fs" by (rule wf_below(1) [OF assms(1) False]) (use assms(2) in auto)
  then show ?thesis using plain_tops(3) bottom_ok_pop assms(1) by (auto simp: wf_stack_def)
qed

section \<open>The invariant\<close>

definition st :: "kernel \<Rightarrow> nat \<Rightarrow> thread_status option" where
  "st s t = map_option status (thr s t)"

definition fr :: "kernel \<Rightarrow> nat \<Rightarrow> frame list" where
  "fr s t = (case thr s t of Some x \<Rightarrow> frames x | None \<Rightarrow> [])"

definition tts :: "kernel \<Rightarrow> nat \<Rightarrow> int" where
  "tts s t = (case thr s t of Some x \<Rightarrow> ticks_to_sleep x | None \<Rightarrow> 0)"

definition stk :: "frame list \<Rightarrow> kernel \<Rightarrow> nat \<Rightarrow> frame list" where
  "stk h s = (fr s)(running s := h @ fr s (running s))"

type_synonym states = "nat \<Rightarrow> thread_status option"
type_synonym stacks = "nat \<Rightarrow> frame list"

definition mem_ok :: "kernel \<Rightarrow> bool" where
  "mem_ok s \<longleftrightarrow> finite (dom (thr s)) \<and> (\<forall>t x. thr s t = Some x \<longrightarrow> t \<noteq> 0 \<and> tmagic x = THREAD_MAGIC)
     \<and> distinct (pages s) \<and> 0 \<notin> set (pages s) \<and> set (pages s) \<inter> dom (thr s) = {} \<and> \<not> in_external_intr s"

definition ready_ok :: "states \<Rightarrow> stacks \<Rightarrow> nat list \<Rightarrow> nat \<Rightarrow> bool" where
  "ready_ok ST FR ready idle \<longleftrightarrow> distinct ready \<and> (\<forall>t \<in> set ready. ST t = Some THREAD_READY) \<and> idle \<notin> set ready
     \<and> (\<forall>t. ST t = Some THREAD_READY \<longrightarrow> t \<in> set ready \<or> idle_stack (FR t))"

definition wait_ok :: "states \<Rightarrow> stacks \<Rightarrow> (sema_id \<Rightarrow> semaphore) \<Rightarrow> bool" where
  "wait_ok ST FR S \<longleftrightarrow> (\<forall>x. distinct (waiters (S x))
     \<and> (\<forall>t \<in> set (waiters (S x)). ST t = Some THREAD_BLOCKED \<and> down_top (FR t) = Some x))"

definition sleep_ok :: "states \<Rightarrow> stacks \<Rightarrow> nat list \<Rightarrow> (nat \<Rightarrow> int) \<Rightarrow> bool" where
  "sleep_ok ST FR Z T \<longleftrightarrow> distinct Z \<and> sorted_wrt (\<lambda>a b. T a \<le> T b) Z
     \<and> (\<forall>t \<in> set Z. ST t = Some THREAD_BLOCKED \<and> (\<exists>b r. FR t = F_intr_set b # r \<and> list_all plain r \<and> \<not> idle_stack r))"

definition idle_ok :: "states \<Rightarrow> stacks \<Rightarrow> nat \<Rightarrow> bool" where
  "idle_ok ST FR idle \<longleftrightarrow> (idle \<noteq> 0 \<longrightarrow> idle_stack (FR idle))
     \<and> (\<forall>t. idle_stack (FR t) \<and> ST t = Some THREAD_BLOCKED \<longrightarrow> FR t = [F_idle_hlt])"

definition stack_ok :: "states \<Rightarrow> stacks \<Rightarrow> bool" where
  "stack_ok ST FR \<longleftrightarrow> (\<forall>t. wf_stack (FR t) \<and> (ST t \<in> {None, Some THREAD_DYING} \<longrightarrow> FR t = []))
     \<and> finite {t. FR t \<noteq> []}"

definition embryo_ok :: "states \<Rightarrow> stacks \<Rightarrow> bool" where
  "embryo_ok ST FR \<longleftrightarrow> (\<forall>u. length (embryo (FR u)) \<le> 1)
     \<and> (\<forall>u t. t \<in> set (embryo (FR u)) \<longrightarrow> ST t = Some THREAD_BLOCKED \<and> FR t = [])
     \<and> (\<forall>u v t. t \<in> set (embryo (FR u)) \<and> t \<in> set (embryo (FR v)) \<longrightarrow> u = v)"

text \<open>The threads that have been woken for a semaphore and have not yet looked at it again.\<close>

definition woken :: "states \<Rightarrow> stacks \<Rightarrow> sema_id \<Rightarrow> nat set" where
  "woken ST FR x = {t. down_top (FR t) = Some x \<and> ST t \<noteq> Some THREAD_BLOCKED}"

definition wake_ok :: "states \<Rightarrow> stacks \<Rightarrow> (sema_id \<Rightarrow> semaphore) \<Rightarrow> bool" where
  "wake_ok ST FR S \<longleftrightarrow> (\<forall>x. waiters (S x) \<noteq> [] \<longrightarrow> unat (sval (S x)) \<le> card (woken ST FR x))"

definition owners :: "stacks \<Rightarrow> nat \<Rightarrow> nat set" where
  "owners FR l = {t. own_top (FR t) = Some l}"

definition lock_ok :: "stacks \<Rightarrow> (sema_id \<Rightarrow> semaphore) \<Rightarrow> (nat \<Rightarrow> nat) \<Rightarrow> bool" where
  "lock_ok FR S H \<longleftrightarrow> (\<forall>l. card (owners FR l) + (if H l \<noteq> 0 then 1 else 0)
     + unat (sval (S (Lock_sema l))) = 1)"

definition kinv_at :: "states \<Rightarrow> stacks \<Rightarrow> kernel \<Rightarrow> bool" where
  "kinv_at ST FR s \<longleftrightarrow> mem_ok s \<and> (\<forall>t. ST t = Some THREAD_RUNNING \<longrightarrow> t = running s)
     \<and> ready_ok ST FR (ready_list s) (idle_thread s) \<and> wait_ok ST FR (sem s)
     \<and> sleep_ok ST FR (list_threads s) (tts s) \<and> idle_ok ST FR (idle_thread s) \<and> stack_ok ST FR
     \<and> embryo_ok ST FR \<and> wake_ok ST FR (sem s) \<and> lock_ok FR (sem s) (holder s)"

definition kinv0 :: "frame list \<Rightarrow> kernel \<Rightarrow> bool" where
  "kinv0 h s \<longleftrightarrow> kinv_at (st s) (stk h s) s"

definition kinv :: "frame list \<Rightarrow> kernel \<Rightarrow> bool" where
  "kinv h s \<longleftrightarrow> kinv0 h s \<and> st s (running s) = Some THREAD_RUNNING"

lemmas inv_defs = mem_ok_def ready_ok_def wait_ok_def sleep_ok_def idle_ok_def stack_ok_def embryo_ok_def
  wake_ok_def lock_ok_def

lemma embryo_okD:
  assumes "embryo_ok ST FR"
  shows "length (embryo (FR u)) \<le> 1" "t \<in> set (embryo (FR u)) \<Longrightarrow> ST t = Some THREAD_BLOCKED"
    "t \<in> set (embryo (FR u)) \<Longrightarrow> FR t = []"
    "t \<in> set (embryo (FR u)) \<Longrightarrow> t \<in> set (embryo (FR v)) \<Longrightarrow> u = v"
  using assms unfolding embryo_ok_def by blast+

section \<open>The scheduler\<close>

lemma st_upd: "st (s\<lparr>thr := (thr s)(t \<mapsto> x)\<rparr>) = (st s)(t := Some (status x))"
  "fr (s\<lparr>thr := (thr s)(t \<mapsto> x)\<rparr>) = (fr s)(t := frames x)"
  "tts (s\<lparr>thr := (thr s)(t \<mapsto> x)\<rparr>) = (tts s)(t := ticks_to_sleep x)"
  by (simp_all add: st_def fr_def tts_def fun_eq_iff)

lemma view_cong: "thr s = thr s' \<Longrightarrow> st s = st s' \<and> fr s = fr s' \<and> tts s = tts s'"
  by (simp add: st_def fr_def tts_def fun_eq_iff)

text \<open>What \<open>schedule\<close> does, seen from the invariant.\<close>

definition switched :: "kernel \<Rightarrow> kernel \<Rightarrow> nat \<Rightarrow> nat list \<Rightarrow> bool" where
  "switched s s' n rest \<longleftrightarrow>
     (if ready_list s = [] then n = idle_thread s \<and> rest = [] else ready_list s = n # rest)
     \<and> running s' = n \<and> ready_list s' = rest \<and> n \<noteq> 0 \<and> st s n \<noteq> None
     \<and> (if st s (running s) = Some THREAD_DYING \<and> running s \<noteq> initial_thread s \<and> running s \<noteq> n
        then thr s' = (thr s)(n := map_option (\<lambda>x. x\<lparr>status := THREAD_RUNNING\<rparr>) (thr s n), running s := None)
          \<and> pages s' = running s # pages s
        else thr s' = (thr s)(n := map_option (\<lambda>x. x\<lparr>status := THREAD_RUNNING\<rparr>) (thr s n)) \<and> pages s' = pages s)
     \<and> idle_thread s' = idle_thread s \<and> sem s' = sem s \<and> holder s' = holder s \<and> list_threads s' = list_threads s
     \<and> intr_on s' = intr_on s \<and> in_external_intr s' = in_external_intr s \<and> ticks s' = ticks s"

lemma schedule_switched:
  assumes "schedule s = Some s'" "running s \<noteq> 0"
  shows "\<exists>n rest. switched s s' n rest \<and> \<not> intr_on s"
proof -
  obtain n r where n: "next_thread_to_run s = (n, s\<lparr>ready_list := r\<rparr>)"
    and r: "if ready_list s = [] then n = idle_thread s \<and> r = [] else ready_list s = n # r"
    by (cases "ready_list s") (auto simp: next_thread_to_run_def intro!: that [of "idle_thread s" "[]"])
  obtain x where x: "thr s (running s) = Some x" "status x \<noteq> THREAD_RUNNING" "\<not> intr_on s" "is_thread s n"
    and tail: "(if running s \<noteq> n then thread_schedule_tail (s\<lparr>ready_list := r, running := n\<rparr>) (running s)
      else thread_schedule_tail (s\<lparr>ready_list := r\<rparr>) 0) = Some s'"
    using assms n by (auto simp: schedule_def Let_def kernel_simps bind_Some_iff is_thread_def split: if_splits)
  obtain y where y: "thr s n = Some y" "n \<noteq> 0" using x(4) by (auto simp: is_thread_def split: option.splits)
  have "switched s s' n r"
  proof (cases "running s = n")
    case True
    then have "s' = s\<lparr>ready_list := r, thr := (thr s)(n \<mapsto> y\<lparr>status := THREAD_RUNNING\<rparr>), thread_ticks := 0\<rparr>"
      using tail x(3) y(1) by (simp add: thread_schedule_tail_def set_status_def modify_thread_def Let_def)
    then show ?thesis using True r y by (simp add: switched_def st_def)
  next
    case False
    let ?t = "s\<lparr>ready_list := r, running := n, thr := (thr s)(n \<mapsto> y\<lparr>status := THREAD_RUNNING\<rparr>), thread_ticks := 0\<rparr>"
    have "s' = (if running s \<noteq> 0 \<and> status x = THREAD_DYING \<and> running s \<noteq> initial_thread s
      then ?t\<lparr>thr := (thr s)(n \<mapsto> y\<lparr>status := THREAD_RUNNING\<rparr>, running s := None), pages := running s # pages s\<rparr> else ?t)"
      using tail False x(1,3) y(1)
      by (auto simp: thread_schedule_tail_def set_status_def modify_thread_def Let_def split: if_splits)
    then show ?thesis using False r y x(1) assms(2) by (auto simp: switched_def st_def split: if_splits)
  qed
  then show ?thesis using x(3) by blast
qed


lemma stk_nil [simp]: "stk [] s = fr s"
  by (simp add: stk_def)

text \<open>A thread that is ready, or the idle thread, starts to run; a dying one may disappear.\<close>

lemma run_keeps:
  assumes ST': "ST' = ST(n := Some THREAD_RUNNING) \<or>
      (\<exists>d. d \<noteq> n \<and> ST d = Some THREAD_DYING \<and> ST' = ST(n := Some THREAD_RUNNING, d := None))"
    and n: "if ready = [] then n = idle \<and> rest = [] else ready = n # rest" "n \<noteq> 0" "ST n \<noteq> None"
    and ok: "ready_ok ST FR ready idle" "wait_ok ST FR S" "sleep_ok ST FR Z T" "idle_ok ST FR idle" "stack_ok ST FR"
      "embryo_ok ST FR" "wake_ok ST FR S"
  shows "ready_ok ST' FR rest idle" "wait_ok ST' FR S" "sleep_ok ST' FR Z T" "idle_ok ST' FR idle" "stack_ok ST' FR"
    "embryo_ok ST' FR" "wake_ok ST' FR S"
proof -
  have stn: "ST n = Some THREAD_READY \<or> (n = idle \<and> idle_stack (FR n))"
    using n ok(1,4) by (auto simp: ready_ok_def idle_ok_def split: if_splits)
  have bl: "ST n = Some THREAD_BLOCKED \<Longrightarrow> FR n = [F_idle_hlt]" using stn ok(4) by (auto simp: idle_ok_def)
  have same: "ST' t = ST t \<or> t = n \<or> (ST t = Some THREAD_DYING \<and> ST' t = None)" for t using ST' by (auto split: if_splits)
  have n': "ST' n = Some THREAD_RUNNING" using ST' by auto
  show "ready_ok ST' FR rest idle"
    unfolding ready_ok_def
  proof (intro conjI allI ballI impI)
    show "distinct rest" "idle \<notin> set rest" using n(1) ok(1) by (auto simp: ready_ok_def split: if_splits)
    show "ST' t = Some THREAD_READY" if "t \<in> set rest" for t
    proof -
      have "t \<noteq> n" "ST t = Some THREAD_READY" using that n(1) ok(1) by (auto simp: ready_ok_def split: if_splits)
      then show ?thesis using same [of t] by auto
    qed
    show "t \<in> set rest \<or> idle_stack (FR t)" if "ST' t = Some THREAD_READY" for t
    proof -
      have tn: "t \<noteq> n" using that n' by auto
      then have "ST t = Some THREAD_READY" using that same [of t] by auto
      then show ?thesis using tn n(1) ok(1) by (auto simp: ready_ok_def split: if_splits)
    qed
  qed
  have blocked: "ST' t = Some THREAD_BLOCKED" if "ST t = Some THREAD_BLOCKED" "FR t \<noteq> [F_idle_hlt]" for t
    using that same [of t] bl by auto
  have dt: "down_top [F_idle_hlt] = None" by (simp add: down_top_def)
  show "wait_ok ST' FR S"
    unfolding wait_ok_def
  proof (intro allI conjI ballI)
    fix x t assume "t \<in> set (waiters (S x))"
    then have w: "ST t = Some THREAD_BLOCKED" "down_top (FR t) = Some x" using ok(2) by (auto simp: wait_ok_def)
    then show "down_top (FR t) = Some x" by simp
    show "ST' t = Some THREAD_BLOCKED" using w dt blocked by (metis option.distinct(1))
  qed (use ok(2) in \<open>simp add: wait_ok_def\<close>)
  show "sleep_ok ST' FR Z T"
    using ok(3) blocked unfolding sleep_ok_def by (metis frame.distinct(23) list.inject)
  show "idle_ok ST' FR idle"
    using ok(4) same n' unfolding idle_ok_def by (metis option.distinct(1) option.inject thread_status.distinct(3))
  show "stack_ok ST' FR"
    using ok(5) same n' unfolding stack_ok_def by (metis insertCI insertE option.distinct(1) option.inject singletonD thread_status.distinct(5))
  show "embryo_ok ST' FR"
  proof -
    have "ST' t = Some THREAD_BLOCKED" if "t \<in> set (embryo (FR u))" for u t
    proof -
      have "ST t = Some THREAD_BLOCKED" "FR t = []" using embryo_okD(2,3) [OF ok(6) that] .
      then show ?thesis using blocked by simp
    qed
    then show ?thesis using ok(6) unfolding embryo_ok_def by blast
  qed
  have "woken ST' FR x = woken ST FR x" for x
  proof -
    have "ST' t = Some THREAD_BLOCKED \<longleftrightarrow> ST t = Some THREAD_BLOCKED" if "down_top (FR t) = Some x" for t
      using that same [of t] n' bl dt blocked by (cases "t = n") (auto simp: stn)
    then show ?thesis by (auto simp: woken_def)
  qed
  then show "wake_ok ST' FR S" using ok(7) by (simp add: wake_ok_def)
qed


lemma kinv_atD:
  assumes "kinv_at ST FR s"
  shows "mem_ok s" "\<And>t. ST t = Some THREAD_RUNNING \<Longrightarrow> t = running s" "ready_ok ST FR (ready_list s) (idle_thread s)"
    "wait_ok ST FR (sem s)" "sleep_ok ST FR (list_threads s) (tts s)" "idle_ok ST FR (idle_thread s)" "stack_ok ST FR"
    "embryo_ok ST FR" "wake_ok ST FR (sem s)" "lock_ok FR (sem s) (holder s)"
  using assms by (simp_all add: kinv_at_def)

lemma schedule_inv:
  assumes i: "kinv0 [] s" and r: "st s (running s) \<notin> {None, Some THREAD_RUNNING}" and s: "schedule s = Some s'"
  shows "kinv [] s'"
proof -
  note I = kinv_atD [OF i [unfolded kinv0_def stk_nil]]
  obtain y where y: "thr s (running s) = Some y" using r by (auto simp: st_def)
  then have r0: "running s \<noteq> 0" using I(1) unfolding mem_ok_def by blast
  obtain n rest where sw: "switched s s' n rest" using schedule_switched [OF s r0] by blast
  have q: "if ready_list s = [] then n = idle_thread s \<and> rest = [] else ready_list s = n # rest" "n \<noteq> 0" "st s n \<noteq> None"
    "running s' = n" "ready_list s' = rest" "idle_thread s' = idle_thread s" "sem s' = sem s" "holder s' = holder s"
    "list_threads s' = list_threads s" "in_external_intr s' = in_external_intr s"
    using sw by (simp_all add: switched_def)
  obtain z where z: "thr s n = Some z" using q(3) by (auto simp: st_def)
  let ?dead = "st s (running s) = Some THREAD_DYING \<and> running s \<noteq> initial_thread s \<and> running s \<noteq> n"
  let ?z = "z\<lparr>status := THREAD_RUNNING\<rparr>"
  have thr: "thr s' = (if ?dead then (thr s)(n \<mapsto> ?z, running s := None) else (thr s)(n \<mapsto> ?z))"
    "pages s' = (if ?dead then running s # pages s else pages s)"
    using sw z by (auto simp: switched_def split: if_splits)
  have dead: "fr s (running s) = []" if "st s (running s) = Some THREAD_DYING"
    using I(7) that by (simp add: stack_ok_def)
  have FR: "fr s' = fr s" using dead z by (auto simp: fr_def thr(1) fun_eq_iff split: option.split)
  have ST: "st s' = (if ?dead then (st s)(n := Some THREAD_RUNNING, running s := None) else (st s)(n := Some THREAD_RUNNING))"
    by (auto simp: st_def thr(1) fun_eq_iff)
  then have ST': "st s' = (st s)(n := Some THREAD_RUNNING) \<or>
      (\<exists>d. d \<noteq> n \<and> st s d = Some THREAD_DYING \<and> st s' = (st s)(n := Some THREAD_RUNNING, d := None))" by auto
  have T: "sleep_ok (st s') (fr s) (list_threads s) (tts s')" if "sleep_ok (st s') (fr s) (list_threads s) (tts s)"
  proof -
    have "tts s' t = tts s t" if "t \<in> set (list_threads s)" for t
    proof -
      have "st s t = Some THREAD_BLOCKED" using I(5) that by (simp add: sleep_ok_def)
      then show ?thesis using z by (auto simp: tts_def thr(1))
    qed
    then show ?thesis using that by (auto simp: sleep_ok_def elim!: sorted_wrt_mono_rel [rotated])
  qed
  have M: "mem_ok s'" using I(1) y z by (auto simp: mem_ok_def thr q(10) split: if_splits)
  have R: "t = running s'" if "st s' t = Some THREAD_RUNNING" for t
    using that I(2) [of t] r q(4) by (auto simp: ST split: if_splits)
  note k = run_keeps [OF ST' q(1-3) I(3-9)]
  have "kinv_at (st s') (fr s') s'"
    unfolding kinv_at_def FR q(5-9) using M R k T I(10) by auto
  moreover have "st s' (running s') = Some THREAD_RUNNING" by (auto simp: ST q(4))
  ultimately show ?thesis by (simp add: kinv_def kinv0_def)
qed

section \<open>Changes of the running thread\<close>

lemma kinvD:
  assumes "kinv h s"
  shows "kinv_at (st s) (stk h s) s" "st s (running s) = Some THREAD_RUNNING"
  using assms by (simp_all add: kinv_def kinv0_def)

lemma stk_running [simp]: "stk h s (running s) = h @ fr s (running s)"
  by (simp add: stk_def)

lemma change_stack:
  assumes r: "ST r = Some THREAD_RUNNING" and B: "wf_stack B" "idle_stack (FR r) \<Longrightarrow> idle_stack B"
      "set (embryo B) \<subseteq> set (embryo (FR r))" "length (embryo B) \<le> 1"
    and ok: "ready_ok ST FR ready idle" "wait_ok ST FR S" "sleep_ok ST FR Z T" "idle_ok ST FR idle" "stack_ok ST FR"
      "embryo_ok ST FR" and w: "\<forall>x. waiters (S' x) = waiters (S x)" and T: "\<forall>t. t \<noteq> r \<longrightarrow> T' t = T t"
  shows "ready_ok ST (FR(r := B)) ready idle" "wait_ok ST (FR(r := B)) S'" "sleep_ok ST (FR(r := B)) Z T'"
    "idle_ok ST (FR(r := B)) idle" "stack_ok ST (FR(r := B))" "embryo_ok ST (FR(r := B))"
proof -
  show "ready_ok ST (FR(r := B)) ready idle" using ok(1) r by (auto simp: ready_ok_def)
  show "wait_ok ST (FR(r := B)) S'" using ok(2) r w unfolding wait_ok_def by auto
  have "r \<notin> set Z" using ok(3) r by (auto simp: sleep_ok_def)
  moreover from this have "T' t = T t" if "t \<in> set Z" for t using T that by metis
  then have "sorted_wrt (\<lambda>a b. T' a \<le> T' b) Z"
    using ok(3) by (auto simp: sleep_ok_def elim!: sorted_wrt_mono_rel [rotated])
  ultimately show "sleep_ok ST (FR(r := B)) Z T'" using ok(3) unfolding sleep_ok_def by (auto split: if_splits)
  show "idle_ok ST (FR(r := B)) idle" using ok(4) B(2) r by (auto simp: idle_ok_def)
  have "{t. (FR(r := B)) t \<noteq> []} \<subseteq> insert r {t. FR t \<noteq> []}" by auto
  then have "finite {t. (FR(r := B)) t \<noteq> []}"
    by (rule finite_subset) (use ok(5) in \<open>simp add: stack_ok_def\<close>)
  then show "stack_ok ST (FR(r := B))" using ok(5) B(1) r by (auto simp: stack_ok_def)
  note e = embryo_okD [OF ok(6)]
  have sub: "set (embryo ((FR(r := B)) u)) \<subseteq> set (embryo (FR u))" for u using B(3) by simp
  show "embryo_ok ST (FR(r := B))"
    unfolding embryo_ok_def
  proof (intro conjI allI impI)
    show "length (embryo ((FR(r := B)) u)) \<le> 1" for u using e(1) B(4) by simp
    fix u t assume "t \<in> set (embryo ((FR(r := B)) u))"
    then have "t \<in> set (embryo (FR u))" using sub by blast
    then have "ST t = Some THREAD_BLOCKED" "FR t = []" using e(2,3) by blast+
    then show "ST t = Some THREAD_BLOCKED" "(FR(r := B)) t = []" using r by auto
  next
    fix u v t assume "t \<in> set (embryo ((FR(r := B)) u)) \<and> t \<in> set (embryo ((FR(r := B)) v))"
    then have "t \<in> set (embryo (FR u)) \<and> t \<in> set (embryo (FR v))" using sub by blast
    then show "u = v" using e(4) by blast
  qed
qed

lemma upd_running:
  assumes i: "kinv h s" and eq: "running s' = running s" "thr s' = (thr s)(running s \<mapsto> y)" "ready_list s' = ready_list s"
      "idle_thread s' = idle_thread s" "list_threads s' = list_threads s" "pages s' = pages s"
      "in_external_intr s' = in_external_intr s"
    and y: "status y = THREAD_RUNNING" "tmagic y = THREAD_MAGIC"
    and B: "wf_stack (h' @ frames y)" "idle_stack (h @ fr s (running s)) \<Longrightarrow> idle_stack (h' @ frames y)"
      "set (embryo (h' @ frames y)) \<subseteq> set (embryo (h @ fr s (running s)))" "length (embryo (h' @ frames y)) \<le> 1"
    and w: "\<forall>x. waiters (sem s' x) = waiters (sem s x)"
    and wake: "wake_ok (st s) ((stk h s)(running s := h' @ frames y)) (sem s')"
    and lock: "lock_ok ((stk h s)(running s := h' @ frames y)) (sem s') (holder s')"
  shows "kinv h' s'"
proof -
  note I = kinv_atD [OF kinvD(1) [OF i]] and r = kinvD(2) [OF i]
  have ST: "st s' = st s" using r y(1) by (auto simp: st_def eq(2) fun_eq_iff)
  have FR: "stk h' s' = (stk h s)(running s := h' @ frames y)"
    by (auto simp: stk_def fr_def eq(1,2) fun_eq_iff)
  have T: "\<forall>t. t \<noteq> running s \<longrightarrow> tts s' t = tts s t" by (simp add: tts_def eq(2))
  have B2: "idle_stack (stk h s (running s)) \<Longrightarrow> idle_stack (h' @ frames y)"
    "set (embryo (h' @ frames y)) \<subseteq> set (embryo (stk h s (running s)))" using B(2,3) by simp_all
  note k = change_stack [OF r B(1) B2 B(4) I(3-8) w T]
  obtain x where "thr s (running s) = Some x" using r by (auto simp: st_def)
  then have "mem_ok s'" using I(1) y(2) by (auto simp: mem_ok_def eq split: if_splits)
  then have "kinv_at (st s') (stk h' s') s'"
    unfolding kinv_at_def ST FR eq(1,3-5) using I(2) k wake lock by blast
  then show ?thesis using r ST eq(1) by (simp add: kinv_def kinv0_def)
qed


lemma tops_neutral:
  assumes "down_top B = down_top (FR r)" "own_top B = own_top (FR r)"
  shows "wake_ok ST (FR(r := B)) S = wake_ok ST FR S" "lock_ok (FR(r := B)) S H = lock_ok FR S H"
proof -
  have "woken ST (FR(r := B)) x = woken ST FR x" for x using assms(1) by (auto simp: woken_def)
  moreover have "owners (FR(r := B)) l = owners FR l" for l using assms(2) by (auto simp: owners_def)
  ultimately show "wake_ok ST (FR(r := B)) S = wake_ok ST FR S" "lock_ok (FR(r := B)) S H = lock_ok FR S H"
    unfolding wake_ok_def lock_ok_def by simp_all
qed

lemma upd_neutral:
  assumes i: "kinv h s" and eq: "running s' = running s" "thr s' = (thr s)(running s \<mapsto> y)" "ready_list s' = ready_list s"
      "idle_thread s' = idle_thread s" "list_threads s' = list_threads s" "pages s' = pages s"
      "in_external_intr s' = in_external_intr s" "sem s' = sem s" "holder s' = holder s"
    and y: "status y = THREAD_RUNNING" "tmagic y = THREAD_MAGIC"
    and B: "wf_stack (h' @ frames y)" "idle_stack (h @ fr s (running s)) \<Longrightarrow> idle_stack (h' @ frames y)"
      "set (embryo (h' @ frames y)) \<subseteq> set (embryo (h @ fr s (running s)))" "length (embryo (h' @ frames y)) \<le> 1"
      "down_top (h' @ frames y) = down_top (h @ fr s (running s))" "own_top (h' @ frames y) = own_top (h @ fr s (running s))"
  shows "kinv h' s'"
proof -
  note I = kinv_atD [OF kinvD(1) [OF i]]
  note k = tops_neutral [of "h' @ frames y" "stk h s" "running s"]
  show ?thesis
    by (rule upd_running [OF i eq(1-7) y B(1-4)]) (use k B(5,6) I(9,10) eq(8,9) in simp_all)
qed


text \<open>How the counts of the last two parts of the invariant change with one stack.\<close>

lemma card_upd:
  assumes "finite {t. Q t (FR t)}"
  shows "card {t. Q t ((FR(r := B)) t)} + (if Q r (FR r) then 1 else 0) = card {t. Q t (FR t)} + (if Q r B then 1 else 0)"
proof -
  let ?A = "{t. Q t (FR t)}"
  have "{t. Q t ((FR(r := B)) t)} = (if Q r B then insert r (?A - {r}) else ?A - {r})" by auto
  moreover have "card (?A - {r}) + (if Q r (FR r) then 1 else 0) = card ?A"
  proof (cases "Q r (FR r)")
    case True
    then show ?thesis using card_Suc_Diff1 [OF assms, of r] by (simp del: card_Diff_insert)
  qed simp
  moreover have "card (insert r (?A - {r})) = card (?A - {r}) + 1"
    using card_insert_disjoint [of "?A - {r}" r] assms by (simp del: card_Diff_insert insert_Diff_single)
  ultimately show ?thesis by (auto simp del: card_Diff_insert insert_Diff_single)
qed

lemma finite_stacks: "stack_ok ST FR \<Longrightarrow> finite (woken ST FR x)" "stack_ok ST FR \<Longrightarrow> finite (owners FR l)"
proof -
  assume "stack_ok ST FR"
  then have f: "finite {t. FR t \<noteq> []}" by (simp add: stack_ok_def)
  then show "finite (woken ST FR x)" by (rule rev_finite_subset) (auto simp: woken_def)
  from f show "finite (owners FR l)" by (rule rev_finite_subset) (auto simp: owners_def)
qed

lemma card_woken_upd:
  assumes "stack_ok ST FR" "ST r \<noteq> Some THREAD_BLOCKED"
  shows "card (woken ST (FR(r := B)) x) + (if down_top (FR r) = Some x then 1 else 0)
    = card (woken ST FR x) + (if down_top B = Some x then 1 else 0)"
  using card_upd [of "\<lambda>t fs. down_top fs = Some x \<and> ST t \<noteq> Some THREAD_BLOCKED" FR r B] finite_stacks(1) [OF assms(1)] assms(2)
  by (simp add: woken_def)

lemma card_owners_upd:
  assumes "stack_ok ST FR"
  shows "card (owners (FR(r := B)) l) + (if own_top (FR r) = Some l then 1 else 0)
    = card (owners FR l) + (if own_top B = Some l then 1 else 0)"
  using card_upd [of "\<lambda>t fs. own_top fs = Some l" FR r B] finite_stacks(2) [OF assms]
  by (simp add: owners_def)

lemma lock_ok_cong: "(\<And>x. sval (S' x) = sval (S x)) \<Longrightarrow> lock_ok FR S' H = lock_ok FR S H"
  by (simp add: lock_ok_def)

end
