(* ===== verification/Threads_Steps.thy ===== *)
theory Threads_Steps
  imports Threads_Invariant
begin

text \<open>
  Every step of the machine keeps the invariant of the threads.
\<close>

section \<open>Frames pushed and dropped\<close>

lemma running_thread:
  assumes "kinv h s"
  shows "\<exists>x. thr s (running s) = Some x \<and> status x = THREAD_RUNNING \<and> tmagic x = THREAD_MAGIC \<and> fr s (running s) = frames x"
    "thread_current s = Some (running s)" "running s \<noteq> 0" "\<not> in_external_intr s"
proof -
  have m: "mem_ok s" by (rule kinv_atD(1) [OF kinvD(1) [OF assms]])
  obtain x where x: "thr s (running s) = Some x" "status x = THREAD_RUNNING"
    using kinvD(2) [OF assms] by (auto simp: st_def)
  then have y: "running s \<noteq> 0" "tmagic x = THREAD_MAGIC" using m unfolding mem_ok_def by blast+
  then show "\<exists>x. thr s (running s) = Some x \<and> status x = THREAD_RUNNING \<and> tmagic x = THREAD_MAGIC
      \<and> fr s (running s) = frames x" using x by (simp add: fr_def)
  show "thread_current s = Some (running s)" using x y by (simp add: thread_current_def is_thread_def Let_def)
  show "running s \<noteq> 0" by (rule y(1))
  show "\<not> in_external_intr s" using m by (simp add: mem_ok_def)
qed

lemma kinv_wf: "kinv h s \<Longrightarrow> wf_stack (h @ fr s (running s))"
  using kinv_atD(7) [OF kinvD(1)] unfolding stack_ok_def by (metis stk_running)

lemma kinv_embryo: "kinv h s \<Longrightarrow> length (embryo (h @ fr s (running s))) \<le> 1"
  using embryo_okD(1) [OF kinv_atD(8) [OF kinvD(1)], of h s "running s"] by (simp del: embryo_simps)

text \<open>Fields the invariant does not mention.\<close>

lemma kinv_cong:
  assumes "kinv h s" "thr s' = thr s" "running s' = running s" "ready_list s' = ready_list s" "idle_thread s' = idle_thread s"
    "list_threads s' = list_threads s" "pages s' = pages s" "in_external_intr s' = in_external_intr s" "sem s' = sem s"
    "holder s' = holder s"
  shows "kinv h s'"
  using assms view_cong [OF assms(2)] by (simp add: kinv_def kinv0_def kinv_at_def stk_def mem_ok_def)

lemma push_frames_Some:
  assumes "kinv h s" "push_frames s fs = Some s'"
  shows "\<exists>x. thr s (running s) = Some x \<and> s' = s\<lparr>thr := (thr s)(running s \<mapsto> x\<lparr>frames := fs @ frames x\<rparr>)\<rparr>
    \<and> status x = THREAD_RUNNING \<and> tmagic x = THREAD_MAGIC \<and> fr s (running s) = frames x"
  using assms(2) running_thread(1) [OF assms(1)] by (auto simp: push_frames_def modify_thread_def)

lemma push_neutral:
  assumes i: "kinv h s" and p: "push_frames s fs = Some s'"
    and B: "wf_stack (h' @ fs @ fr s (running s))"
      "idle_stack (h @ fr s (running s)) \<Longrightarrow> idle_stack (h' @ fs @ fr s (running s))"
      "set (embryo (h' @ fs @ fr s (running s))) \<subseteq> set (embryo (h @ fr s (running s)))"
      "length (embryo (h' @ fs @ fr s (running s))) \<le> 1"
      "down_top (h' @ fs @ fr s (running s)) = down_top (h @ fr s (running s))"
      "own_top (h' @ fs @ fr s (running s)) = own_top (h @ fr s (running s))"
  shows "kinv h' s'"
proof -
  obtain x where x: "thr s (running s) = Some x" "s' = s\<lparr>thr := (thr s)(running s \<mapsto> x\<lparr>frames := fs @ frames x\<rparr>)\<rparr>"
    "status x = THREAD_RUNNING" "tmagic x = THREAD_MAGIC" "fr s (running s) = frames x"
    using push_frames_Some [OF i p] by blast
  show ?thesis
    by (rule upd_neutral [OF i, of s' "x\<lparr>frames := fs @ frames x\<rparr>"]) (use x B in simp_all)
qed

text \<open>A plain frame in hand may be forgotten.\<close>

lemma drop_hand:
  assumes i: "kinv [f] s" and f: "plain f" "\<not> idle_stack [f]"
  shows "kinv [] s"
proof -
  obtain x where x: "thr s (running s) = Some x" "status x = THREAD_RUNNING" "tmagic x = THREAD_MAGIC"
    "fr s (running s) = frames x" using running_thread(1) [OF i] by blast
  have w: "wf_stack (f # frames x)" using kinv_wf [OF i] x(4) by simp
  have same: "down_top (f # frames x) = down_top (frames x) \<and> own_top (f # frames x) = own_top (frames x)
      \<and> (idle_stack (f # frames x) \<longrightarrow> idle_stack (frames x))"
  proof (cases "is_intr f")
    case True
    then obtain b where "f = F_intr_set b" using is_intrE by blast
    then show ?thesis by simp
  next
    case False
    have p: "list_all plain (frames x)" by (rule wf_below(1) [OF w False]) (use f(1) in auto)
    then have "list_all plain (f # frames x)" using f(1) by simp
    then show ?thesis using p plain_tops f(2) False by (auto simp: idle_stack_Cons)
  qed
  show ?thesis
    by (rule upd_neutral [OF i, of s x])
      (use x same wf_pop [OF w f(1)] kinv_embryo [OF i] in \<open>simp_all add: fun_upd_idem\<close>)
qed

lemma kinv_atI:
  "mem_ok s \<Longrightarrow> (\<And>t. ST t = Some THREAD_RUNNING \<Longrightarrow> t = running s) \<Longrightarrow> ready_ok ST FR (ready_list s) (idle_thread s) \<Longrightarrow>
   wait_ok ST FR (sem s) \<Longrightarrow> sleep_ok ST FR (list_threads s) (tts s) \<Longrightarrow> idle_ok ST FR (idle_thread s) \<Longrightarrow>
   stack_ok ST FR \<Longrightarrow> embryo_ok ST FR \<Longrightarrow> wake_ok ST FR (sem s) \<Longrightarrow> lock_ok FR (sem s) (holder s) \<Longrightarrow> kinv_at ST FR s"
  by (simp add: kinv_at_def)

lemma down_below:
  assumes "wf_stack (F_sema_down x b # fs)"
  shows "wf_stack fs \<and> down_top fs = None \<and> own_top fs = (case x of Lock_sema l \<Rightarrow> Some l | _ \<Rightarrow> None)"
proof -
  have b: "bottom_ok fs" using assms bottom_ok_pop by (auto simp: wf_stack_def)
  show ?thesis
  proof (cases "\<exists>l. x = Lock_sema l")
    case True
    then obtain l r where "x = Lock_sema l" "fs = F_set_holder l # r" "list_all plain r"
      using wf_below(2) [OF assms, of _ b] by auto
    then show ?thesis using b by (simp add: wf_stack_def wf_top_def down_top_def own_top_def)
  next
    case False
    then have "list_all plain fs" using wf_below(1) [OF assms] by auto
    then show ?thesis using b plain_tops False by (auto simp: wf_stack_def split: sema_id.split)
  qed
qed

section \<open>Blocking\<close>

lemma block_keeps:
  assumes r: "ST r = Some THREAD_RUNNING" and B: "idle_stack (FR r) \<Longrightarrow> FR r = [F_idle_hlt]"
    and ok: "ready_ok ST FR ready idle" "wait_ok ST FR S" "sleep_ok ST FR Z T" "idle_ok ST FR idle" "stack_ok ST FR"
      "embryo_ok ST FR"
  shows "ready_ok (ST(r := Some THREAD_BLOCKED)) FR ready idle" "wait_ok (ST(r := Some THREAD_BLOCKED)) FR S"
    "sleep_ok (ST(r := Some THREAD_BLOCKED)) FR Z T" "idle_ok (ST(r := Some THREAD_BLOCKED)) FR idle"
    "stack_ok (ST(r := Some THREAD_BLOCKED)) FR" "embryo_ok (ST(r := Some THREAD_BLOCKED)) FR"
proof -
  show "ready_ok (ST(r := Some THREAD_BLOCKED)) FR ready idle" using ok(1) r by (auto simp: ready_ok_def)
  show "wait_ok (ST(r := Some THREAD_BLOCKED)) FR S" using ok(2) by (auto simp: wait_ok_def)
  show "sleep_ok (ST(r := Some THREAD_BLOCKED)) FR Z T" using ok(3) by (simp add: sleep_ok_def)
  show "idle_ok (ST(r := Some THREAD_BLOCKED)) FR idle" using ok(4) B by (auto simp: idle_ok_def)
  show "stack_ok (ST(r := Some THREAD_BLOCKED)) FR" using ok(5) by (auto simp: stack_ok_def)
  show "embryo_ok (ST(r := Some THREAD_BLOCKED)) FR"
    unfolding embryo_ok_def
  proof (intro conjI allI impI)
    show "length (embryo (FR u)) \<le> 1" for u by (rule embryo_okD(1) [OF ok(6)])
    fix u t assume t: "t \<in> set (embryo (FR u))"
    show "(ST(r := Some THREAD_BLOCKED)) t = Some THREAD_BLOCKED" "FR t = []"
      using embryo_okD(2,3) [OF ok(6) t] by simp_all
  next
    fix u v t assume "t \<in> set (embryo (FR u)) \<and> t \<in> set (embryo (FR v))"
    then show "u = v" using embryo_okD(4) [OF ok(6)] by blast
  qed
qed

lemma thread_block_inv:
  assumes b: "thread_block s = Some s'" and m: "mem_ok s"
    and i: "kinv_at ((st s)(running s := Some THREAD_BLOCKED)) (fr s) s"
  shows "kinv [] s'"
proof -
  obtain x s1 where x: "thr s (running s) = Some x" "s1 = s\<lparr>thr := (thr s)(running s \<mapsto> x\<lparr>status := THREAD_BLOCKED\<rparr>)\<rparr>"
    "schedule s1 = Some s'"
    using b by (auto simp: thread_block_def thread_current_def set_status_def modify_thread_def kernel_simps bind_Some_iff Let_def)
  have v: "st s1 = (st s)(running s := Some THREAD_BLOCKED)" "fr s1 = fr s" "tts s1 = tts s"
    using x(1) by (auto simp: x(2) st_def fr_def tts_def fun_eq_iff)
  have "mem_ok s1" using m x(1) by (auto simp: mem_ok_def x(2))
  moreover have e: "running s1 = running s" "ready_list s1 = ready_list s" "idle_thread s1 = idle_thread s" "sem s1 = sem s"
    "list_threads s1 = list_threads s" "holder s1 = holder s" by (simp_all add: x(2))
  ultimately have "kinv0 [] s1" using i unfolding kinv0_def stk_nil kinv_at_def v e by blast
  moreover have "st s1 (running s1) = Some THREAD_BLOCKED" by (simp add: v(1) e(1))
  ultimately show ?thesis using schedule_inv [of s1 s'] x(3) by simp
qed

text \<open>The loop of \<open>sema_down\<close>: the thread waits, or it takes one unit.\<close>

lemma sema_down_loop_inv:
  assumes i: "kinv [F_sema_down x old] s" and d: "sema_down_loop s x old = Some s'"
  shows "kinv [] s'"
proof -
  let ?r = "running s" and ?F = "F_sema_down x old"
  note I = kinv_atD [OF kinvD(1) [OF i]] and r = kinvD(2) [OF i]
  obtain y where y: "thr s ?r = Some y" "status y = THREAD_RUNNING" "tmagic y = THREAD_MAGIC" "fr s ?r = frames y"
    using running_thread(1) [OF i] by blast
  have w: "wf_stack (?F # frames y)" using kinv_wf [OF i] y(4) by simp
  have top: "down_top (stk [?F] s ?r) = Some x" "own_top (stk [?F] s ?r) = None" "\<not> idle_stack (stk [?F] s ?r)"
    by (simp_all add: down_top_def own_top_def idle_stack_Cons)
  show ?thesis
  proof (cases "sval (sem s x) = 0")
    case True
    let ?S = "(sem s)(x := sem s x\<lparr>waiters := waiters (sem s x) @ [?r]\<rparr>)"
    let ?s1 = "s\<lparr>sem := ?S, thr := (thr s)(?r \<mapsto> y\<lparr>frames := ?F # frames y\<rparr>)\<rparr>"
    let ?ST = "(st s)(?r := Some THREAD_BLOCKED)"
    have b: "thread_block ?s1 = Some s'"
      using d True y(1) running_thread(2) [OF i] by (simp add: sema_down_loop_def set_sem_def push_frames_def modify_thread_def Let_def)
    have v: "st ?s1 = st s" "fr ?s1 = stk [?F] s" "tts ?s1 = tts s"
      using y by (auto simp: st_def fr_def tts_def stk_def fun_eq_iff)
    have ik: "idle_stack (stk [?F] s ?r) \<Longrightarrow> stk [?F] s ?r = [F_idle_hlt]" using top(3) by blast
    note k = block_keeps [where ST = "st s" and FR = "stk [?F] s" and r = ?r, OF r ik I(3-8)]
    have "?r \<notin> set (waiters (sem s z))" for z using I(4) r by (auto simp: wait_ok_def)
    then have wt: "wait_ok ?ST (stk [?F] s) ?S" using k(2) top(1) by (auto simp: wait_ok_def)
    have "woken ?ST (stk [?F] s) z = woken (st s) (stk [?F] s) z" if "z \<noteq> x" for z
      using that top(1) by (auto simp: woken_def simp del: stk_running)
    then have wk: "wake_ok ?ST (stk [?F] s) ?S" using I(9) True by (auto simp: wake_ok_def)
    have lk: "lock_ok (stk [?F] s) ?S (holder s)" using I(10) by (subst lock_ok_cong [of _ "sem s"]) simp_all
    have m: "mem_ok ?s1" using I(1) y by (auto simp: mem_ok_def)
    have rn: "t = ?r" if "?ST t = Some THREAD_RUNNING" for t using that I(2) [of t] by (auto split: if_splits)
    have "kinv_at ?ST (stk [?F] s) ?s1"
    proof (rule kinv_atI)
      show "t = running ?s1" if "?ST t = Some THREAD_RUNNING" for t using rn [OF that] by simp
    qed (use m k(1,3-6) wt wk lk v(3) in simp_all)
    then show ?thesis using thread_block_inv [OF b m] v by simp
  next
    case False
    let ?S = "(sem s)(x := sem s x\<lparr>sval := sval (sem s x) - 1\<rparr>)"
    have s': "s' = s\<lparr>sem := ?S, intr_on := old\<rparr>" using d False by (simp add: sema_down_loop_def set_sem_def)
    have dec: "unat (sval (sem s x) - 1) + 1 = unat (sval (sem s x))"
      using False by (simp add: unat_minus_one unat_gt_0)
    have ws: "wf_stack (frames y)" and dt: "down_top (frames y) = None"
      and ot: "own_top (frames y) = (case x of Lock_sema l \<Rightarrow> Some l | _ \<Rightarrow> None)"
      using down_below [OF w] by blast+
    have em: "length (embryo (frames y)) \<le> 1" using kinv_embryo [OF i] y(4) by simp
    show ?thesis
    proof (rule upd_running [OF i, of s' y])
      show "wake_ok (st s) ((stk [?F] s)(?r := [] @ frames y)) (sem s')"
        unfolding wake_ok_def
      proof (intro allI impI)
        fix z assume "waiters (sem s' z) \<noteq> []"
        then have "unat (sval (sem s z)) \<le> card (woken (st s) (stk [?F] s) z)"
          using I(9) by (auto simp: wake_ok_def s' split: if_splits)
        then show "unat (sval (sem s' z)) \<le> card (woken (st s) ((stk [?F] s)(?r := [] @ frames y)) z)"
          using card_woken_upd [OF I(7), of ?r "[] @ frames y" z] r top(1) dt dec
          by (simp add: s' del: stk_running split: if_splits)
      qed
      show "lock_ok ((stk [?F] s)(?r := [] @ frames y)) (sem s') (holder s')"
        unfolding lock_ok_def
      proof
        fix l
        have "card (owners (stk [?F] s) l) + (if holder s l \<noteq> 0 then 1 else 0) + unat (sval (sem s (Lock_sema l))) = 1"
          using I(10) by (simp add: lock_ok_def)
        then show "card (owners ((stk [?F] s)(?r := [] @ frames y)) l) + (if holder s' l \<noteq> 0 then 1 else 0)
            + unat (sval (sem s' (Lock_sema l))) = 1"
          using card_owners_upd [OF I(7), of ?r "[] @ frames y" l] top(2) ot dec
          by (cases "x = Lock_sema l") (auto simp: s' simp del: stk_running split: sema_id.splits)
      qed
    qed (use s' y ws em top(3) in \<open>simp_all add: fun_upd_idem\<close>)
  qed
qed


text \<open>
  Calls are made by threads in an ordinary state: below the call there are plain frames, and it is not
  the idle thread.
\<close>

definition ordinary :: "kernel \<Rightarrow> bool" where
  "ordinary s \<longleftrightarrow> list_all plain (fr s (running s)) \<and> \<not> idle_stack (fr s (running s))"

lemma hand_ordinary:
  assumes "kinv [f] s" "\<not> is_intr f" "plain f"
  shows "ordinary s"
proof -
  have w: "wf_stack (f # fr s (running s))" using kinv_wf [OF assms(1)] by simp
  have "list_all plain (fr s (running s))" by (rule wf_below(1) [OF w assms(2)]) (use assms(3) in auto)
  then show ?thesis using idle_below [OF w assms(2)] by (simp add: ordinary_def)
qed

lemma hand_keeps:
  assumes i: "kinv h s" and eq: "running s' = running s" "thr s' = (thr s)(running s \<mapsto> y)" "ready_list s' = ready_list s"
      "idle_thread s' = idle_thread s" "list_threads s' = list_threads s" "pages s' = pages s"
      "in_external_intr s' = in_external_intr s" "sem s' = sem s" "holder s' = holder s"
    and y: "status y = THREAD_RUNNING" "tmagic y = THREAD_MAGIC"
    and B: "wf_stack (h' @ frames y)" "idle_stack (h @ fr s (running s)) \<Longrightarrow> idle_stack (h' @ frames y)"
      "set (embryo (h' @ frames y)) \<subseteq> set (embryo (h @ fr s (running s)))" "length (embryo (h' @ frames y)) \<le> 1"
      "down_top (h @ fr s (running s)) = None" "own_top (h' @ frames y) = own_top (h @ fr s (running s))"
  shows "kinv h' s'"
proof -
  note I = kinv_atD [OF kinvD(1) [OF i]] and r = kinvD(2) [OF i]
  let ?B = "h' @ frames y"
  show ?thesis
  proof (rule upd_running [OF i eq(1-7) y B(1-4)])
    have "card (woken (st s) (stk h s) x) \<le> card (woken (st s) ((stk h s)(running s := ?B)) x)" for x
      using card_woken_upd [OF I(7), of "running s" ?B x] r B(5) by simp
    then show "wake_ok (st s) ((stk h s)(running s := ?B)) (sem s')"
      using I(9) unfolding wake_ok_def eq(8) by (meson order_trans)
    have "card (owners ((stk h s)(running s := ?B)) l) = card (owners (stk h s) l)" for l
      using card_owners_upd [OF I(7), of "running s" ?B l] B(6) by (simp split: if_splits)
    then show "lock_ok ((stk h s)(running s := ?B)) (sem s') (holder s')"
      using I(10) by (simp add: lock_ok_def eq(8,9))
  qed (simp_all add: eq(8))
qed

lemma ordinaryD:
  assumes "ordinary s" "kinv [] s"
  shows "list_all plain (fr s (running s))" "\<not> idle_stack (fr s (running s))" "down_top (fr s (running s)) = None"
    "own_top (fr s (running s)) = None" "bottom_ok (fr s (running s))"
  using assms(1) plain_tops kinv_wf [OF assms(2)] by (auto simp: ordinary_def wf_stack_def)

lemma sema_down_inv:
  assumes i: "kinv [] s" and o: "ordinary s" and x: "\<And>l. x \<noteq> Lock_sema l" and d: "sema_down s x = Some s'"
  shows "kinv [] s'"
proof -
  obtain y where y: "thr s (running s) = Some y" "status y = THREAD_RUNNING" "tmagic y = THREAD_MAGIC"
    "fr s (running s) = frames y" using running_thread(1) [OF i] by blast
  note O = ordinaryD [OF o i]
  let ?s = "s\<lparr>intr_on := False\<rparr>" and ?F = "F_sema_down x (intr_on s)"
  have "wf_stack (?F # frames y)"
    using x bottom_ok_push [of "frames y" ?F] O(1,2,5) y(4) by (cases x) (auto simp: wf_stack_def wf_top_def)
  then have "kinv [?F] ?s"
    using kinv_embryo [OF i] O y
    by (intro hand_keeps [OF i, of ?s y "[?F]"]) (simp_all add: fun_upd_idem own_top_def)
  then show ?thesis using d sema_down_loop_inv [of x "intr_on s" ?s s'] by (simp add: sema_down_def kernel_simps)
qed

lemma lock_acquire_inv:
  assumes i: "kinv [] s" and o: "ordinary s" and d: "lock_acquire s l = Some s'"
  shows "kinv [] s'"
proof -
  obtain y where y: "thr s (running s) = Some y" "status y = THREAD_RUNNING" "tmagic y = THREAD_MAGIC"
    "fr s (running s) = frames y" using running_thread(1) [OF i] by blast
  note O = ordinaryD [OF o i]
  let ?y = "y\<lparr>frames := F_set_holder l # frames y\<rparr>" and ?F = "F_sema_down (Lock_sema l) (intr_on s)"
  let ?s = "s\<lparr>thr := (thr s)(running s \<mapsto> ?y), intr_on := False\<rparr>"
  have loop: "sema_down_loop ?s (Lock_sema l) (intr_on s) = Some s'"
    using d y(1) running_thread(2) [OF i]
    by (auto simp: lock_acquire_def lock_held_by_current_thread_def push_frames_def modify_thread_def sema_down_def
      kernel_simps bind_Some_iff)
  have "bottom_ok (F_set_holder l # frames y)" using bottom_ok_push O(2,5) y(4) by simp
  then have "wf_stack (?F # frames ?y)"
    using bottom_ok_push [of "frames ?y" ?F] O(1) y(4) by (simp add: wf_stack_def wf_top_def idle_stack_Cons)
  then have "kinv [?F] ?s"
    using kinv_embryo [OF i] O y
    by (intro hand_keeps [OF i, of ?s ?y "[?F]"]) (simp_all add: own_top_def)
  then show ?thesis using sema_down_loop_inv [OF _ loop] by simp
qed


section \<open>Locks and wake-ups\<close>

text \<open>The token of a lock moves from the stack into the \<open>holder\<close> field and back.\<close>

lemma set_holder_inv:
  assumes i: "kinv [F_set_holder l] s" and d: "set_holder s l = Some s'"
  shows "kinv [] s'"
proof -
  let ?F = "F_set_holder l"
  note I = kinv_atD [OF kinvD(1) [OF i]]
  obtain y where y: "thr s (running s) = Some y" "status y = THREAD_RUNNING" "tmagic y = THREAD_MAGIC"
    "fr s (running s) = frames y" using running_thread(1) [OF i] by blast
  have s': "s' = s\<lparr>holder := (holder s)(l := running s)\<rparr>"
    using d running_thread(2) [OF i] by (simp add: set_holder_def)
  have w: "wf_stack (?F # frames y)" using kinv_wf [OF i] y(4) by simp
  have p: "list_all plain (frames y)" by (rule wf_below(1) [OF w]) simp_all
  note t = plain_tops [OF p]
  have top: "own_top (stk [?F] s (running s)) = Some l" "down_top (stk [?F] s (running s)) = None"
    by (simp_all add: own_top_def down_top_def)
  have ws: "wf_stack (frames y)" using t(3) bottom_ok_pop [of ?F "frames y"] w by (simp add: wf_stack_def)
  show ?thesis
  proof (rule upd_running [OF i, of s' y])
    have "woken (st s) ((stk [?F] s)(running s := [] @ frames y)) x = woken (st s) (stk [?F] s) x" for x
      using t(1) top(2) by (auto simp: woken_def simp del: stk_running)
    then show "wake_ok (st s) ((stk [?F] s)(running s := [] @ frames y)) (sem s')"
      using I(9) by (simp add: wake_ok_def s')
    show "lock_ok ((stk [?F] s)(running s := [] @ frames y)) (sem s') (holder s')"
      unfolding lock_ok_def
    proof
      fix k
      have "card (owners (stk [?F] s) k) + (if holder s k \<noteq> 0 then 1 else 0) + unat (sval (sem s (Lock_sema k))) = 1"
        using I(10) by (simp add: lock_ok_def)
      then show "card (owners ((stk [?F] s)(running s := [] @ frames y)) k) + (if holder s' k \<noteq> 0 then 1 else 0)
          + unat (sval (sem s' (Lock_sema k))) = 1"
        using card_owners_upd [OF I(7), of "running s" "[] @ frames y" k] top(1) t(2) running_thread(3) [OF i]
        by (auto simp: s' simp del: stk_running split: if_splits)
    qed
  qed (use s' y ws kinv_embryo [OF i] in \<open>simp_all add: fun_upd_idem idle_stack_Cons\<close>)
qed

lemma lock_release_inv:
  assumes i: "kinv [] s" and o: "ordinary s" and d: "lock_release s l = Some s'"
  shows "kinv [] s'"
proof -
  note I = kinv_atD [OF kinvD(1) [OF i]] and O = ordinaryD [OF o i]
  obtain y where y: "thr s (running s) = Some y" "status y = THREAD_RUNNING" "tmagic y = THREAD_MAGIC"
    "fr s (running s) = frames y" using running_thread(1) [OF i] by blast
  let ?F = "F_sema_up (Lock_sema l)"
  let ?y = "y\<lparr>frames := ?F # frames y\<rparr>"
  have s': "s' = s\<lparr>holder := (holder s)(l := 0), thr := (thr s)(running s \<mapsto> ?y)\<rparr>" and h: "holder s l = running s"
    using d running_thread(2) [OF i] y(1)
    by (auto simp: lock_release_def lock_held_by_current_thread_def kernel_simps push_frames_def modify_thread_def)
  have "bottom_ok (?F # frames y)" using bottom_ok_push O(2,5) y(4) by simp
  then have ws: "wf_stack (?F # frames y)" using O(1) y(4) by (simp add: wf_stack_def wf_top_def)
  have t: "own_top (?F # frames y) = Some l" "down_top (?F # frames y) = None" by (simp_all add: own_top_def down_top_def)
  show ?thesis
  proof (rule upd_running [OF i, of s' ?y])
    have "woken (st s) ((stk [] s)(running s := [] @ frames ?y)) x = woken (st s) (stk [] s) x" for x
      using t(2) O(3) by (auto simp: woken_def)
    then show "wake_ok (st s) ((stk [] s)(running s := [] @ frames ?y)) (sem s')"
      using I(9) by (simp add: wake_ok_def s')
    show "lock_ok ((stk [] s)(running s := [] @ frames ?y)) (sem s') (holder s')"
      unfolding lock_ok_def
    proof
      fix k
      have "card (owners (stk [] s) k) + (if holder s k \<noteq> 0 then 1 else 0) + unat (sval (sem s (Lock_sema k))) = 1"
        using I(10) by (simp add: lock_ok_def)
      then show "card (owners ((stk [] s)(running s := [] @ frames ?y)) k) + (if holder s' k \<noteq> 0 then 1 else 0)
          + unat (sval (sem s' (Lock_sema k))) = 1"
        using card_owners_upd [OF I(7), of "running s" "[] @ frames ?y" k] t(1) O(4) h running_thread(3) [OF i]
        by (auto simp: s' split: if_splits)
    qed
  qed (use s' y ws O(2) kinv_embryo [OF i] in simp_all)
qed


lemma unblock_keeps:
  assumes t: "ST t = Some THREAD_BLOCKED" "\<not> idle_stack (FR t)" "FR t \<noteq> []" "t \<noteq> 0"
    and S': "\<forall>x. distinct (waiters (S' x)) \<and> set (waiters (S' x)) \<subseteq> set (waiters (S x)) - {t}"
    and Z': "sorted_wrt (\<lambda>a b. T a \<le> T b) Z'" "distinct Z'" "set Z' \<subseteq> set Z - {t}"
    and ok: "ready_ok ST FR ready idle" "wait_ok ST FR S" "sleep_ok ST FR Z T" "idle_ok ST FR idle" "stack_ok ST FR"
      "embryo_ok ST FR"
  shows "ready_ok (ST(t := Some THREAD_READY)) FR (ready @ [t]) idle" "wait_ok (ST(t := Some THREAD_READY)) FR S'"
    "sleep_ok (ST(t := Some THREAD_READY)) FR Z' T" "idle_ok (ST(t := Some THREAD_READY)) FR idle"
    "stack_ok (ST(t := Some THREAD_READY)) FR" "embryo_ok (ST(t := Some THREAD_READY)) FR"
proof -
  let ?ST = "ST(t := Some THREAD_READY)"
  show "ready_ok ?ST FR (ready @ [t]) idle" using ok(1,4) t by (auto simp: ready_ok_def idle_ok_def)
  have w: "ST u = Some THREAD_BLOCKED \<and> down_top (FR u) = Some x \<and> u \<noteq> t" if "u \<in> set (waiters (S' x))" for u x
    using that S' ok(2) unfolding wait_ok_def by blast
  then show "wait_ok ?ST FR S'" using S' unfolding wait_ok_def by (metis fun_upd_other)
  have z: "u \<noteq> t \<and> ST u = Some THREAD_BLOCKED \<and> (\<exists>b r. FR u = F_intr_set b # r \<and> list_all plain r \<and> \<not> idle_stack r)"
    if "u \<in> set Z'" for u using that Z'(3) ok(3) unfolding sleep_ok_def by blast
  then show "sleep_ok ?ST FR Z' T" using Z'(1,2) unfolding sleep_ok_def by (metis fun_upd_other)
  show "idle_ok ?ST FR idle" using ok(4) by (auto simp: idle_ok_def)
  show "stack_ok ?ST FR" using ok(5) by (auto simp: stack_ok_def)
  show "embryo_ok ?ST FR"
    unfolding embryo_ok_def
  proof (intro conjI allI impI)
    show "length (embryo (FR u)) \<le> 1" for u by (rule embryo_okD(1) [OF ok(6)])
    fix u v assume v: "v \<in> set (embryo (FR u))"
    show "?ST v = Some THREAD_BLOCKED" "FR v = []" using embryo_okD(2,3) [OF ok(6) v] t(3) by auto
  next
    fix u v k assume "k \<in> set (embryo (FR u)) \<and> k \<in> set (embryo (FR v))"
    then show "u = v" using embryo_okD(4) [OF ok(6)] by blast
  qed
qed

lemma thread_unblock_Some:
  assumes "thread_unblock s t = Some s'"
  shows "\<exists>x. thr s t = Some x \<and> status x = THREAD_BLOCKED \<and> t \<noteq> 0
    \<and> s' = s\<lparr>ready_list := ready_list s @ [t], thr := (thr s)(t \<mapsto> x\<lparr>status := THREAD_READY\<rparr>)\<rparr>"
  using assms by (auto simp: thread_unblock_def is_thread_def set_status_def modify_thread_def kernel_simps bind_Some_iff
    split: option.splits)

lemma blocked_views:
  assumes "thr s t = Some x" "s' = s\<lparr>ready_list := r, thr := (thr s)(t \<mapsto> x\<lparr>status := v\<rparr>)\<rparr>"
  shows "st s' = (st s)(t := Some v)" "stk h s' = stk h s" "tts s' = tts s" "mem_ok s \<Longrightarrow> mem_ok s'"
    "running s' = running s"
  using assms by (auto simp: st_def fr_def tts_def stk_def mem_ok_def fun_eq_iff split: if_splits)

lemma wake_waiter:
  assumes i: "kinv h s" and w: "waiters (sem s x) = t # ts"
    and u: "thread_unblock (set_sem s x (sem s x\<lparr>waiters := ts\<rparr>)) t = Some s'"
  shows "kinv h s'" "unat (sval (sem s' x)) + 1 \<le> card (woken (st s') (stk h s') x)" "sem s' x = sem s x\<lparr>waiters := ts\<rparr>"
proof -
  note I = kinv_atD [OF kinvD(1) [OF i]] and r = kinvD(2) [OF i]
  let ?S = "(sem s)(x := sem s x\<lparr>waiters := ts\<rparr>)" and ?s = "set_sem s x (sem s x\<lparr>waiters := ts\<rparr>)"
  obtain y where y: "thr s t = Some y" "status y = THREAD_BLOCKED" "t \<noteq> 0"
    "s' = ?s\<lparr>ready_list := ready_list s @ [t], thr := (thr s)(t \<mapsto> y\<lparr>status := THREAD_READY\<rparr>)\<rparr>"
    using thread_unblock_Some [OF u] by (auto simp: set_sem_def)
  have sv: "st ?s = st s" "stk g ?s = stk g s" "tts ?s = tts s" "mem_ok ?s = mem_ok s" "running ?s = running s" "thr ?s t = Some y" for g
    using y(1) by (simp_all add: set_sem_def st_def stk_def fr_def tts_def mem_ok_def fun_eq_iff)
  have e: "s' = ?s\<lparr>ready_list := ready_list s @ [t], thr := (thr ?s)(t \<mapsto> y\<lparr>status := THREAD_READY\<rparr>)\<rparr>"
    using y(4) by (simp add: set_sem_def)
  note v = blocked_views [OF sv(6) e, unfolded sv]
  have f: "sem s' = ?S" "idle_thread s' = idle_thread s" "holder s' = holder s" "list_threads s' = list_threads s"
    "ready_list s' = ready_list s @ [t]" by (simp_all add: y(4) set_sem_def)
  have "t \<in> set (waiters (sem s x))" using w by simp
  then have t: "st s t = Some THREAD_BLOCKED" "down_top (stk h s t) = Some x" using I(4) unfolding wait_ok_def by blast+
  have ni: "\<not> idle_stack (stk h s t)" "stk h s t \<noteq> []" using t(2) plain_tops(1) plain_idle by fastforce+
  have dw: "distinct (waiters (sem s z))" "\<And>u. u \<in> set (waiters (sem s z)) \<Longrightarrow> down_top (stk h s u) = Some z" for z
    using I(4) by (simp_all add: wait_ok_def)
  have S': "\<forall>z. distinct (waiters (?S z)) \<and> set (waiters (?S z)) \<subseteq> set (waiters (sem s z)) - {t}"
  proof
    fix z
    show "distinct (waiters (?S z)) \<and> set (waiters (?S z)) \<subseteq> set (waiters (sem s z)) - {t}"
      using dw(1) [of z] dw(2) [of t z] t(2) w by (cases "z = x") auto
  qed
  have z: "t \<notin> set (list_threads s)" "sorted_wrt (\<lambda>a b. tts s a \<le> tts s b) (list_threads s)" "distinct (list_threads s)"
    using I(5) t(2) plain_tops(1) unfolding sleep_ok_def by (fastforce)+
  note k = unblock_keeps [where ST = "st s" and FR = "stk h s" and S' = ?S, OF t(1) ni y(3) S' z(2,3) _ I(3-8)]
  have wx: "woken (st s') (stk h s') x = insert t (woken (st s) (stk h s) x)" "t \<notin> woken (st s) (stk h s) x"
    using t by (auto simp: woken_def v)
  have wz: "woken (st s') (stk h s') z = woken (st s) (stk h s) z" if "z \<noteq> x" for z
    using t that by (auto simp: woken_def v)
  have "waiters (sem s x) \<noteq> []" using w by simp
  then have "unat (sval (sem s x)) \<le> card (woken (st s) (stk h s) x)" using I(9) unfolding wake_ok_def by blast
  then show c: "unat (sval (sem s' x)) + 1 \<le> card (woken (st s') (stk h s') x)"
    using wx finite_stacks(1) [OF I(7), of x] by (simp add: f)
  show "sem s' x = sem s x\<lparr>waiters := ts\<rparr>" by (simp add: f)
  have wk: "wake_ok (st s') (stk h s') (sem s')"
    unfolding wake_ok_def
  proof (intro allI impI)
    fix z assume "waiters (sem s' z) \<noteq> []"
    then show "unat (sval (sem s' z)) \<le> card (woken (st s') (stk h s') z)"
      using c I(9) wz [of z] by (cases "z = x") (auto simp: wake_ok_def f)
  qed
  have lk: "lock_ok (stk h s') (sem s') (holder s')"
    unfolding v(2) f using I(10) by (subst lock_ok_cong [of _ "sem s"]) simp_all
  have "kinv_at (st s') (stk h s') s'"
  proof (rule kinv_atI)
    show "q = running s'" if "st s' q = Some THREAD_RUNNING" for q
      using that I(2) [of q] by (auto simp: v split: if_splits)
    show "mem_ok s'" using v(4) I(1) by simp
  qed (use wk lk k z(1) in \<open>simp_all add: f v\<close>)
  moreover have "st s' (running s') = Some THREAD_RUNNING" using r t(1) by (auto simp: v)
  ultimately show "kinv h s'" by (simp add: kinv_def kinv0_def)
qed


lemma unat_inc: "unat (v + 1 :: u32) \<le> unat v + 1"
  by (simp add: unat_word_ariths)

lemma unat_inc0: "unat (v :: u32) = 0 \<Longrightarrow> unat (v + 1) = 1"
  by (simp add: unat_eq_zero)

lemma sema_inc:
  assumes i: "kinv h s" and h: "(h = [] \<and> (\<forall>l. x \<noteq> Lock_sema l)) \<or> (\<exists>l. h = [F_sema_up x] \<and> x = Lock_sema l)"
    and w: "waiters (sem s x) = [] \<or> unat (sval (sem s x)) + 1 \<le> card (woken (st s) (stk h s) x)"
  shows "kinv [] (set_sem s x (sem s x\<lparr>sval := sval (sem s x) + 1\<rparr>))"
proof -
  let ?S = "(sem s)(x := sem s x\<lparr>sval := sval (sem s x) + 1\<rparr>)" and ?s = "set_sem s x (sem s x\<lparr>sval := sval (sem s x) + 1\<rparr>)"
  note I = kinv_atD [OF kinvD(1) [OF i]]
  obtain y where y: "thr s (running s) = Some y" "status y = THREAD_RUNNING" "tmagic y = THREAD_MAGIC"
    "fr s (running s) = frames y" using running_thread(1) [OF i] by blast
  have wf: "wf_stack (h @ frames y)" using kinv_wf [OF i] y(4) by simp
  have below: "wf_stack (frames y) \<and> down_top (frames y) = down_top (h @ frames y)
      \<and> (own_top (h @ frames y) = (case x of Lock_sema l \<Rightarrow> Some l | _ \<Rightarrow> own_top (frames y)))
      \<and> (h \<noteq> [] \<longrightarrow> own_top (frames y) = None)"
  proof (cases "h = []")
    case True
    then show ?thesis using wf h by (auto split: sema_id.split)
  next
    case False
    then obtain l where l: "h = [F_sema_up (Lock_sema l)]" "x = Lock_sema l" using h by auto
    then have w: "wf_stack (F_sema_up (Lock_sema l) # frames y)" using wf by simp
    have p: "list_all plain (frames y)" by (rule wf_below(1) [OF w]) simp_all
    have "bottom_ok (frames y)" using bottom_ok_pop w by (auto simp: wf_stack_def)
    then show ?thesis using l plain_tops [OF p] by (simp add: wf_stack_def down_top_def [of "F_sema_up _ # _"] own_top_def [of "F_sema_up _ # _"])
  qed
  have s: "sem ?s = ?S" by (simp add: set_sem_def)
  show ?thesis
  proof (rule upd_running [OF i, of ?s y])
    have wk: "woken (st s) ((stk h s)(running s := [] @ frames y)) z = woken (st s) (stk h s) z" for z
      using below y(4) by (auto simp: woken_def)
    show "wake_ok (st s) ((stk h s)(running s := [] @ frames y)) (sem ?s)"
      unfolding wake_ok_def wk s
    proof (intro allI impI)
      fix z assume z: "waiters (?S z) \<noteq> []"
      show "unat (sval (?S z)) \<le> card (woken (st s) (stk h s) z)"
      proof (cases "z = x")
        case True
        then show ?thesis using z w unat_inc [of "sval (sem s x)"] by auto
      qed (use z I(9) in \<open>auto simp: wake_ok_def\<close>)
    qed
    show "lock_ok ((stk h s)(running s := [] @ frames y)) (sem ?s) (holder ?s)"
      unfolding lock_ok_def s
    proof
      fix k
      have "card (owners (stk h s) k) + (if holder s k \<noteq> 0 then 1 else 0) + unat (sval (sem s (Lock_sema k))) = 1"
        using I(10) by (simp add: lock_ok_def)
      then show "card (owners ((stk h s)(running s := [] @ frames y)) k) + (if holder ?s k \<noteq> 0 then 1 else 0)
          + unat (sval (?S (Lock_sema k))) = 1"
        using card_owners_upd [OF I(7), of "running s" "[] @ frames y" k] below y(4) h unat_inc0 [of "sval (sem s x)"]
        by (cases "x = Lock_sema k") (auto simp: set_sem_def split: if_splits sema_id.splits)
    qed
  qed (use y below h kinv_embryo [OF i] in \<open>auto simp: set_sem_def fun_upd_idem idle_stack_Cons\<close>)
qed

lemma sema_up_inv:
  assumes i: "kinv h s" and h: "(h = [] \<and> (\<forall>l. x \<noteq> Lock_sema l)) \<or> (\<exists>l. h = [F_sema_up x] \<and> x = Lock_sema l)"
    and u: "sema_up s x = Some s'"
  shows "kinv [] s'"
proof (cases "waiters (sem s x)")
  case Nil
  then show ?thesis using u sema_inc [OF i h] by (simp add: sema_up_def)
next
  case (Cons t ts)
  then obtain s1 where s1: "thread_unblock (set_sem s x (sem s x\<lparr>waiters := ts\<rparr>)) t = Some s1"
    "s' = set_sem s1 x (sem s1 x\<lparr>sval := sval (sem s1 x) + 1\<rparr>)"
    using u by (auto simp: sema_up_def bind_Some_iff)
  note k = wake_waiter [OF i Cons s1(1)]
  show ?thesis unfolding s1(2) by (rule sema_inc [OF k(1) h]) (use k(2) in blast)
qed


text \<open>Changes of semaphores that no one waits for, and units taken from others than locks.\<close>

lemma sem_change:
  assumes i: "kinv h s" and S: "\<And>x. waiters (S' x) = waiters (sem s x) \<or> waiters (S' x) = []"
    "\<And>x. waiters (S' x) \<noteq> [] \<Longrightarrow> unat (sval (S' x)) \<le> unat (sval (sem s x))"
    "\<And>l. sval (S' (Lock_sema l)) = sval (sem s (Lock_sema l))"
  shows "kinv h (s\<lparr>sem := S'\<rparr>)"
proof -
  let ?s = "s\<lparr>sem := S'\<rparr>"
  note I = kinv_atD [OF kinvD(1) [OF i]]
  have v: "st ?s = st s" "stk h ?s = stk h s" "tts ?s = tts s" "mem_ok ?s = mem_ok s"
    by (simp_all add: st_def stk_def fr_def tts_def mem_ok_def fun_eq_iff)
  have wt: "wait_ok (st s) (stk h s) S'" unfolding wait_ok_def
  proof (intro allI conjI ballI)
    fix x
    show "distinct (waiters (S' x))" using I(4) S(1) [of x] by (auto simp: wait_ok_def)
    fix t assume "t \<in> set (waiters (S' x))"
    then have "t \<in> set (waiters (sem s x))" using S(1) [of x] by auto
    then show "st s t = Some THREAD_BLOCKED" "down_top (stk h s t) = Some x" using I(4) unfolding wait_ok_def by blast+
  qed
  have wk: "wake_ok (st s) (stk h s) S'" unfolding wake_ok_def
  proof (intro allI impI)
    fix x assume x: "waiters (S' x) \<noteq> []"
    then have "waiters (sem s x) \<noteq> []" using S(1) [of x] by auto
    then have "unat (sval (sem s x)) \<le> card (woken (st s) (stk h s) x)" using I(9) unfolding wake_ok_def by blast
    then show "unat (sval (S' x)) \<le> card (woken (st s) (stk h s) x)" using S(2) [OF x] by simp
  qed
  have lk: "lock_ok (stk h s) S' (holder s)" using I(10) S(3) by (simp add: lock_ok_def)
  have "kinv_at (st ?s) (stk h ?s) ?s"
    unfolding v
  proof (rule kinv_atI)
    show "t = running ?s" if "st s t = Some THREAD_RUNNING" for t using I(2) [OF that] by simp
  qed (use I wt wk lk v in simp_all)
  then show ?thesis using kinvD(2) [OF i] v by (simp add: kinv_def kinv0_def)
qed

lemma sema_init_inv:
  assumes "kinv h s" "\<And>l. x \<noteq> Lock_sema l"
  shows "kinv h (sema_init s x v)"
  unfolding sema_init_def set_sem_def by (rule sem_change [OF assms(1)]) (use assms(2) in \<open>auto split: if_splits\<close>)

lemma unat_dec: "(v :: u32) > 0 \<Longrightarrow> unat (v - 1) + 1 = unat v"
  by (simp add: unat_minus_one unat_gt_0)

lemma sema_try_down_inv:
  assumes "kinv h s" "\<And>l. x \<noteq> Lock_sema l"
  shows "kinv h (snd (sema_try_down s x))"
proof (cases "sval (sem s x) > 0")
  case True
  have "kinv h (s\<lparr>sem := (sem s)(x := sem s x\<lparr>sval := sval (sem s x) - 1\<rparr>)\<rparr>)"
    by (rule sem_change [OF assms(1)]) (use assms(2) unat_dec [OF True] in \<open>auto split: if_splits\<close>)
  then show ?thesis using True by (simp add: sema_try_down_def set_sem_def)
qed (use assms(1) in \<open>simp add: sema_try_down_def\<close>)

lemma lock_try_acquire_inv:
  assumes i: "kinv [] s" and o: "ordinary s" and d: "lock_try_acquire s l = Some (b, s')"
  shows "kinv [] s'"
proof (cases "sval (sem s (Lock_sema l)) > 0")
  case False
  then show ?thesis using d i by (auto simp: lock_try_acquire_def sema_try_down_def kernel_simps bind_Some_iff)
next
  case True
  note I = kinv_atD [OF kinvD(1) [OF i]] and O = ordinaryD [OF o i]
  obtain y where y: "thr s (running s) = Some y" "status y = THREAD_RUNNING" "tmagic y = THREAD_MAGIC"
    "fr s (running s) = frames y" using running_thread(1) [OF i] by blast
  let ?x = "Lock_sema l" and ?F = "F_set_holder l"
  let ?S = "(sem s)(?x := sem s ?x\<lparr>sval := sval (sem s ?x) - 1\<rparr>)" and ?y = "y\<lparr>frames := ?F # frames y\<rparr>"
  have s': "s' = s\<lparr>sem := ?S, thr := (thr s)(running s \<mapsto> ?y)\<rparr>"
    using d True y(1) by (auto simp: lock_try_acquire_def sema_try_down_def set_sem_def push_frames_def modify_thread_def
      kernel_simps bind_Some_iff)
  have "bottom_ok (?F # frames y)" using bottom_ok_push O(2,5) y(4) by simp
  then have ws: "wf_stack (?F # frames y)" using O(1) y(4) by (simp add: wf_stack_def wf_top_def)
  have t: "own_top (?F # frames y) = Some l" "down_top (?F # frames y) = None" by (simp_all add: own_top_def down_top_def)
  show ?thesis
  proof (rule upd_running [OF i, of s' ?y])
    have wk: "woken (st s) ((stk [] s)(running s := [] @ frames ?y)) x = woken (st s) (stk [] s) x" for x
      using t(2) O(3) by (auto simp: woken_def)
    show "wake_ok (st s) ((stk [] s)(running s := [] @ frames ?y)) (sem s')"
      using I(9) unat_dec [OF True] unfolding wake_ok_def wk by (auto simp: s')
    show "lock_ok ((stk [] s)(running s := [] @ frames ?y)) (sem s') (holder s')"
      unfolding lock_ok_def
    proof
      fix k
      have "card (owners (stk [] s) k) + (if holder s k \<noteq> 0 then 1 else 0) + unat (sval (sem s (Lock_sema k))) = 1"
        using I(10) by (simp add: lock_ok_def)
      then show "card (owners ((stk [] s)(running s := [] @ frames ?y)) k) + (if holder s' k \<noteq> 0 then 1 else 0)
          + unat (sval (sem s' (Lock_sema k))) = 1"
        using card_owners_upd [OF I(7), of "running s" "[] @ frames ?y" k] t(1) O(4) unat_dec [OF True]
        by (auto simp: s' split: if_splits)
    qed
  qed (use s' y ws O(2) kinv_embryo [OF i] in simp_all)
qed

end
