(* ===== verification/Threads_Machine.thy ===== *)
theory Threads_Machine
  imports Threads_Steps
begin

text \<open>
  The remaining operations of threads.c and timer.c keep the invariant, and so does every step of the
  machine.
\<close>

section \<open>Yielding and exiting\<close>

lemma restatus_inv:
  assumes i: "kinv [] s" and v: "v = THREAD_READY \<or> (v = THREAD_DYING \<and> fr s (running s) = [])"
    and eq: "thr s' = (thr s)(running s \<mapsto> y\<lparr>status := v\<rparr>)" "thr s (running s) = Some y" "running s' = running s"
      "ready_list s' = (if v = THREAD_READY \<and> running s \<noteq> idle_thread s then ready_list s @ [running s] else ready_list s)"
      "idle_thread s' = idle_thread s" "list_threads s' = list_threads s" "pages s' = pages s"
      "in_external_intr s' = in_external_intr s" "sem s' = sem s" "holder s' = holder s"
    and sched: "schedule s' = Some s2"
  shows "kinv [] s2"
proof -
  note I = kinv_atD [OF kinvD(1) [OF i]] and r = kinvD(2) [OF i]
  let ?r = "running s" and ?ST = "(st s)(running s := Some v)"
  have vw: "st s' = ?ST" "fr s' = fr s" "tts s' = tts s" "mem_ok s'"
    using eq(2) I(1) by (auto simp: st_def fr_def tts_def mem_ok_def eq(1,7,8) fun_eq_iff split: if_splits)
  have r0: "?r \<noteq> 0" by (rule running_thread(3) [OF i])
  have nr: "?r \<notin> set (ready_list s)" "?r \<notin> set (list_threads s)" "\<And>x. ?r \<notin> set (waiters (sem s x))"
    using I(3-5) r by (auto simp: ready_ok_def sleep_ok_def wait_ok_def)
  have ne: "?r \<notin> set (embryo (fr s u))" for u using embryo_okD(2) [OF I(8), of ?r u] r by auto
  have idle: "idle_stack (fr s ?r)" if "?r = idle_thread s" using that r0 I(6) by (simp add: idle_ok_def)
  have "ready_ok ?ST (fr s) (ready_list s') (idle_thread s)"
    using I(3) r v nr(1) idle by (auto simp: ready_ok_def eq(4))
  moreover have "wait_ok ?ST (fr s) (sem s)" using I(4) nr(3) unfolding wait_ok_def by (metis fun_upd_other stk_nil)
  moreover have "sleep_ok ?ST (fr s) (list_threads s) (tts s)"
    using I(5) nr(2) unfolding sleep_ok_def by (metis fun_upd_other stk_nil)
  moreover have "idle_ok ?ST (fr s) (idle_thread s)" using I(6) v by (auto simp: idle_ok_def)
  moreover have "stack_ok ?ST (fr s)" using I(7) v by (auto simp: stack_ok_def)
  moreover have "embryo_ok ?ST (fr s)"
    using I(8) ne unfolding embryo_ok_def by (metis fun_upd_other stk_nil)
  moreover have "woken ?ST (fr s) x = woken (st s) (fr s) x" for x using r v by (auto simp: woken_def)
  then have "wake_ok ?ST (fr s) (sem s)" using I(9) by (simp add: wake_ok_def)
  ultimately have "kinv_at (st s') (fr s') s'"
    unfolding vw(1,2)
  proof (intro kinv_atI)
    show "t = running s'" if "?ST t = Some THREAD_RUNNING" for t
      using that I(2) [of t] v eq(3) by (auto split: if_splits)
  qed (use vw I(10) eq in simp_all)
  then have "kinv0 [] s'" by (simp add: kinv0_def)
  then show ?thesis by (rule schedule_inv [OF _ _ sched]) (use v eq(3) in \<open>auto simp: vw(1)\<close>)
qed

lemma push_intr_inv:
  assumes i: "kinv [] s" and p: "push_frames s [F_intr_set b] = Some s'"
  shows "kinv [] s'"
  by (rule push_neutral [OF i p]) (use kinv_wf [OF i] kinv_embryo [OF i] in simp_all)

lemma thread_yield_inv:
  assumes i: "kinv [] s" and d: "thread_yield s = Some s'"
  shows "kinv [] s'"
proof -
  obtain s1 where s1: "push_frames s [F_intr_set (intr_on s)] = Some s1"
    using d by (auto simp: thread_yield_def kernel_simps bind_Some_iff)
  have i1: "kinv [] s1" by (rule push_intr_inv [OF i s1])
  obtain y where y: "thr s1 (running s1) = Some y" using running_thread(1) [OF i1] by blast
  have r: "running s1 = running s" "idle_thread s1 = idle_thread s" "ready_list s1 = ready_list s"
    using push_frames_Some [OF i s1] by auto
  let ?q = "if running s \<noteq> idle_thread s then s1\<lparr>intr_on := False, ready_list := ready_list s @ [running s]\<rparr>
    else s1\<lparr>intr_on := False\<rparr>"
  let ?s = "?q\<lparr>thr := (thr s1)(running s \<mapsto> y\<lparr>status := THREAD_READY\<rparr>)\<rparr>"
  have "schedule ?s = Some s'"
    using d s1 y r running_thread(2) [OF i]
    by (auto simp: thread_yield_def kernel_simps set_status_def modify_thread_def Let_def split: if_splits)
  then show ?thesis
    by (intro restatus_inv [OF i1, of THREAD_READY ?s y]) (use y r in auto)
qed

lemma modify_running_inv:
  assumes i: "kinv h s" and m: "modify_thread s (running s) f = Some s'"
    and f: "\<And>x. status (f x) = status x" "\<And>x. frames (f x) = frames x" "\<And>x. tmagic (f x) = tmagic x"
  shows "kinv h s'"
proof -
  obtain x where x: "thr s (running s) = Some x" "status x = THREAD_RUNNING" "tmagic x = THREAD_MAGIC"
    "fr s (running s) = frames x" using running_thread(1) [OF i] by blast
  have s': "s' = s\<lparr>thr := (thr s)(running s \<mapsto> f x)\<rparr>" using m x(1) by (simp add: modify_thread_def)
  show ?thesis
    by (rule upd_neutral [OF i, of s' "f x"]) (use s' x f kinv_wf [OF i] kinv_embryo [OF i] in simp_all)
qed

lemma process_exit_inv:
  assumes i: "kinv [] s" and d: "process_exit s = Some s'"
  shows "kinv [] s'" "running s' = running s" "fr s' = fr s"
proof -
  obtain x where x: "thr s (running s) = Some x" using running_thread(1) [OF i] by blast
  let ?s = "s\<lparr>heap_left := heap_left s + length (child_list x)\<rparr>"
  have m: "modify_thread ?s (running ?s) (\<lambda>x. x\<lparr>child_list := [], pagedir := 0\<rparr>) = Some s'"
    using d x running_thread(2) [OF i] by (simp add: process_exit_def)
  have "kinv [] ?s" by (rule kinv_cong [OF i]) simp_all
  then show "kinv [] s'" by (rule modify_running_inv [OF _ m]) simp_all
  show "running s' = running s" "fr s' = fr s" using m x by (auto simp: modify_thread_def fr_def fun_eq_iff)
qed

lemma thread_exit_inv:
  assumes i: "kinv [] s" and f: "fr s (running s) = []" and d: "thread_exit s = Some s'"
  shows "kinv [] s'"
proof -
  obtain s1 where s1: "process_exit s = Some s1" using d by (auto simp: thread_exit_def kernel_simps bind_Some_iff)
  note p = process_exit_inv [OF i s1]
  obtain y where y: "thr s1 (running s1) = Some y" using running_thread(1) [OF p(1)] by blast
  let ?s = "s1\<lparr>intr_on := False, all_list := remove1 (running s1) (all_list s1),
    thr := (thr s1)(running s1 \<mapsto> y\<lparr>status := THREAD_DYING\<rparr>)\<rparr>"
  have "schedule ?s = Some s'"
    using d s1 y running_thread(2) [OF p(1)]
    by (auto simp: thread_exit_def kernel_simps set_status_def modify_thread_def Let_def bind_Some_iff)
  then show ?thesis by (intro restatus_inv [OF p(1), of THREAD_DYING ?s y]) (use y f p in auto)
qed

section \<open>Plain frames and condition variables\<close>

lemma push_plain_inv:
  assumes i: "kinv [] s" and o: "ordinary s" and p: "push_frames s fs = Some s'"
    and f: "list_all plain fs" "list_all (\<lambda>f. \<not> is_kt f \<and> f \<notin> {F_idle_loop, F_idle_hlt} \<and> \<not> is_intr f) fs" "embryo fs = []"
  shows "kinv [] s'"
proof -
  note O = ordinaryD [OF o i]
  have b: "bottom_ok (fs @ fr s (running s)) \<and> (fs = [] \<or> \<not> idle_stack (fs @ fr s (running s)))"
    using f(2)
  proof (induction fs)
    case (Cons g gs)
    then have "bottom_ok (g # gs @ fr s (running s))"
      using O(2) by (intro bottom_ok_push) auto
    then show ?case using Cons.prems by (auto simp: idle_stack_Cons)
  qed (use O(5) in simp)
  have pl: "list_all plain (fs @ fr s (running s))" using f(1) O(1) by simp
  show ?thesis
    by (rule push_neutral [OF i p])
      (use b plain_tops [OF pl] O kinv_embryo [OF i] f(3) in \<open>simp_all add: wf_stack_def\<close>)
qed

lemma cond_cong: "kinv h s \<Longrightarrow> kinv h (s\<lparr>cond_waiters := c\<rparr>)" "kinv h s \<Longrightarrow> kinv h (s\<lparr>next_waiter := n\<rparr>)"
  "kinv h s \<Longrightarrow> kinv h (s\<lparr>intr_on := b\<rparr>)" "kinv h s \<Longrightarrow> kinv h (s\<lparr>next_tid := k\<rparr>)" "kinv h s \<Longrightarrow> kinv h (s\<lparr>heap_left := n\<rparr>)"
  "kinv h s \<Longrightarrow> kinv h (s\<lparr>all_list := a\<rparr>)"
  by (auto elim!: kinv_cong)

lemma ordinary_cong: "thr s' = thr s \<Longrightarrow> running s' = running s \<Longrightarrow> ordinary s' = ordinary s"
  by (simp add: ordinary_def fr_def)

lemma cond_wait_inv:
  assumes i: "kinv [] s" and o: "ordinary s" and d: "cond_wait s c l = Some s'"
  shows "kinv [] s'"
proof -
  let ?s1 = "sema_init (s\<lparr>next_waiter := next_waiter s + 1\<rparr>) (Cond_waiter (next_waiter s)) 0"
  let ?s2 = "?s1\<lparr>cond_waiters := (cond_waiters ?s1)(c := cond_waiters ?s1 c @ [next_waiter s])\<rparr>"
  have p: "push_frames ?s2 [F_lock_release l, F_call_sema_down (Cond_waiter (next_waiter s)), F_lock_acquire l] = Some s'"
    using d by (auto simp: cond_wait_def kernel_simps bind_Some_iff Let_def)
  have "kinv [] ?s2" by (intro cond_cong sema_init_inv i) simp
  moreover have "ordinary ?s2" using o ordinary_cong [of ?s2 s] by (simp add: sema_init_def set_sem_def)
  ultimately show ?thesis by (rule push_plain_inv [OF _ _ p]) simp_all
qed

lemma cond_signal_inv:
  assumes i: "kinv [] s" and o: "ordinary s" and d: "cond_signal s c l = Some s'"
  shows "kinv [] s'"
proof (cases "cond_waiters s c")
  case Nil
  then show ?thesis using d i by (auto simp: cond_signal_def kernel_simps bind_Some_iff)
next
  case (Cons w ws)
  then have p: "push_frames (s\<lparr>cond_waiters := (cond_waiters s)(c := ws)\<rparr>) [F_sema_up (Cond_waiter w)] = Some s'"
    using d by (auto simp: cond_signal_def kernel_simps bind_Some_iff)
  have "ordinary (s\<lparr>cond_waiters := (cond_waiters s)(c := ws)\<rparr>)" using o by (subst ordinary_cong [of _ s]) simp_all
  then show ?thesis by (rule push_plain_inv [OF cond_cong(1) [OF i] _ p]) simp_all
qed

lemma push_plain_ordinary:
  assumes "kinv [] s" "ordinary s" "push_frames s fs = Some s'" "list_all plain fs"
    "list_all (\<lambda>f. f \<notin> {F_idle_loop, F_idle_hlt} \<and> \<not> is_intr f) fs" "fs \<noteq> []"
  shows "ordinary s'"
proof -
  obtain x where x: "thr s (running s) = Some x" "s' = s\<lparr>thr := (thr s)(running s \<mapsto> x\<lparr>frames := fs @ frames x\<rparr>)\<rparr>"
    "fr s (running s) = frames x" using push_frames_Some [OF assms(1,3)] by blast
  obtain g gs where "fs = g # gs" using assms(6) by (cases fs) auto
  then show ?thesis using assms(2,4,5) x by (auto simp: ordinary_def fr_def idle_stack_Cons)
qed

lemma cond_broadcast_inv:
  assumes i: "kinv [] s" and o: "ordinary s" and d: "cond_broadcast s c l = Some s'"
  shows "kinv [] s'"
proof (cases "cond_waiters s c = []")
  case True
  then show ?thesis using d i by (simp add: cond_broadcast_def)
next
  case False
  then obtain s1 where s1: "push_frames s [F_broadcast c l] = Some s1" "cond_signal s1 c l = Some s'"
    using d by (auto simp: cond_broadcast_def bind_Some_iff)
  show ?thesis
    by (rule cond_signal_inv [OF push_plain_inv [OF i o s1(1)] push_plain_ordinary [OF i o s1(1)] s1(2)]) simp_all
qed


section \<open>Creating threads\<close>

lemma new_thread_inv:
  assumes i: "kinv [] s" and p: "pages s = t # ps" and n: "init_thread (s\<lparr>pages := ps\<rparr>) t name prio = Some s1"
  shows "kinv [] s1" "st s1 t = Some THREAD_BLOCKED" "fr s1 t = []" "\<And>u. t \<notin> set (embryo (fr s1 u))"
    "running s1 = running s" "fr s1 = fr s"
proof -
  note I = kinv_atD [OF kinvD(1) [OF i]] and r = kinvD(2) [OF i]
  let ?s = "s\<lparr>pages := ps, thr := (thr s)(t \<mapsto> new_thread name prio)\<rparr>"
  have t: "t \<noteq> 0" "thr s t = None" using p I(1) by (auto simp: mem_ok_def)
  have s1: "s1 = (sema_init (sema_init ?s (Child_load t) 0) (Child_wait t) 0)\<lparr>all_list := all_list s @ [t]\<rparr>"
    using n by (auto simp: init_thread_def kernel_simps sema_init_def set_sem_def Let_def)
  have v: "st ?s = (st s)(t := Some THREAD_BLOCKED)" "fr ?s = fr s" "tts ?s = (tts s)(t := 0)"
    using t(2) by (simp_all add: st_def fr_def tts_def new_thread_def fun_eq_iff)
  have st0: "st s t = None" "fr s t = []" using t(2) by (simp_all add: st_def fr_def)
  have ne: "t \<notin> set (embryo (fr s u))" for u using embryo_okD(2) [OF I(8), of t u] st0(1) by auto
  have nz: "t \<notin> set (list_threads s)" using I(5) st0(1) by (auto simp: sleep_ok_def)
  let ?ST = "(st s)(t := Some THREAD_BLOCKED)"
  have "kinv_at ?ST (fr s) ?s"
  proof (rule kinv_atI)
    show "mem_ok ?s" using I(1) t p by (auto simp: mem_ok_def new_thread_def)
    show "u = running ?s" if "?ST u = Some THREAD_RUNNING" for u using that I(2) [of u] by (auto split: if_splits)
    show "ready_ok ?ST (fr s) (ready_list ?s) (idle_thread ?s)" using I(3) st0 by (auto simp: ready_ok_def)
    show "wait_ok ?ST (fr s) (sem ?s)" using I(4) by (simp add: wait_ok_def)
    show "sleep_ok ?ST (fr s) (list_threads ?s) (tts ?s)"
    proof -
      have "sorted_wrt (\<lambda>a b. ((tts s)(t := 0)) a \<le> ((tts s)(t := 0)) b) (list_threads s)"
        using I(5) nz unfolding sleep_ok_def
        by (auto elim!: sorted_wrt_mono_rel [rotated])
      then show ?thesis using I(5) by (simp add: sleep_ok_def v(3))
    qed
    show "idle_ok ?ST (fr s) (idle_thread ?s)" using I(6) st0 by (auto simp: idle_ok_def)
    show "stack_ok ?ST (fr s)" using I(7) by (auto simp: stack_ok_def)
    show "embryo_ok ?ST (fr s)" using I(8) unfolding embryo_ok_def by simp
    have "woken ?ST (fr s) x = woken (st s) (fr s) x" for x using st0 by (auto simp: woken_def)
    then show "wake_ok ?ST (fr s) (sem ?s)" using I(9) by (simp add: wake_ok_def)
    show "lock_ok (fr s) (sem ?s) (holder ?s)" using I(10) by simp
  qed
  moreover have "st ?s (running ?s) = Some THREAD_RUNNING" using r st0(1) by (auto simp: v)
  ultimately have "kinv [] ?s" by (simp add: kinv_def kinv0_def v(1,2))
  then show "kinv [] s1" unfolding s1 by (intro cond_cong sema_init_inv) simp_all
  have "thr s1 = thr ?s" by (simp add: s1 sema_init_def set_sem_def)
  note v1 = view_cong [OF this]
  show "st s1 t = Some THREAD_BLOCKED" "fr s1 t = []" "fr s1 = fr s" using v1 v st0 by simp_all
  show "t \<notin> set (embryo (fr s1 u))" for u using v1 v ne by simp
  show "running s1 = running s" by (simp add: s1 sema_init_def set_sem_def)
qed

text \<open>The creating thread notes on its stack that it has a new thread at hand.\<close>

lemma push_embryo_inv:
  assumes i: "kinv [] s" and o: "ordinary s" and e: "embryo (fr s (running s)) = []"
    and t: "st s t = Some THREAD_BLOCKED" "fr s t = []" "\<And>u. t \<notin> set (embryo (fr s u))"
    and p: "push_frames s [F_allocate_tid t g] = Some s'"
  shows "kinv [] s'" "ordinary s'"
proof -
  note I = kinv_atD [OF kinvD(1) [OF i]] and r = kinvD(2) [OF i] and O = ordinaryD [OF o i]
  obtain x where x: "thr s (running s) = Some x" "s' = s\<lparr>thr := (thr s)(running s \<mapsto> x\<lparr>frames := [F_allocate_tid t g] @ frames x\<rparr>)\<rparr>"
    "status x = THREAD_RUNNING" "tmagic x = THREAD_MAGIC" "fr s (running s) = frames x"
    using push_frames_Some [OF i p] by blast
  let ?B = "F_allocate_tid t g # frames x"
  have v: "st s' = st s" "fr s' = (fr s)(running s := ?B)" "tts s' = tts s"
    using x(1,3) by (auto simp: x(2) st_def fr_def tts_def fun_eq_iff)
  show "ordinary s'" by (rule push_plain_ordinary [OF i o p]) simp_all
  have pl: "list_all plain ?B" using O(1) x(5) by simp
  have wf: "wf_stack ?B" using plain_tops(3) [OF pl] bottom_ok_push [of "frames x" "F_allocate_tid t g"] O(2,5) x(5)
    by (simp add: wf_stack_def)
  have tr: "t \<noteq> running s" using t(1) r by auto
  let ?FR = "(fr s)(running s := ?B)"
  have ni: "idle_stack (fr s (running s)) \<Longrightarrow> idle_stack ?B" using O(2) x(5) by simp
  have "{u. ?FR u \<noteq> []} \<subseteq> insert (running s) {u. fr s u \<noteq> []}" by auto
  then have fin: "finite {u. ?FR u \<noteq> []}" by (rule finite_subset) (use I(7) in \<open>simp add: stack_ok_def\<close>)
  have em: "embryo (?FR u) = (if u = running s then [t] else embryo (fr s u))" for u using e x(5) by simp
  note nt = tops_neutral [of ?B "fr s" "running s"]
  have "kinv_at (st s) ?FR s'"
  proof (rule kinv_atI)
    show "mem_ok s'" using I(1) x by (auto simp: mem_ok_def split: if_splits)
    show "u = running s'" if "st s u = Some THREAD_RUNNING" for u using I(2) [OF that] by (simp add: x(2))
    show "ready_ok (st s) ?FR (ready_list s') (idle_thread s')" using I(3) r by (auto simp: ready_ok_def x(2))
    show "wait_ok (st s) ?FR (sem s')" using I(4) r unfolding wait_ok_def by (auto simp: x(2))
    show "sleep_ok (st s) ?FR (list_threads s') (tts s')"
      using I(5) r unfolding sleep_ok_def v(3) by (auto simp: x(2))
    show "idle_ok (st s) ?FR (idle_thread s')" using I(6) r ni by (auto simp: idle_ok_def x(2))
    show "stack_ok (st s) ?FR" using I(7) wf fin r by (auto simp: stack_ok_def)
    show "embryo_ok (st s) ?FR"
      unfolding embryo_ok_def em
    proof (intro conjI allI impI)
      fix u k
      show "length (if u = running s then [t] else embryo (fr s u)) \<le> 1" using embryo_okD(1) [OF I(8), of u] by simp
      assume k: "k \<in> set (if u = running s then [t] else embryo (fr s u))"
      show "st s k = Some THREAD_BLOCKED" "?FR k = []"
        using k t tr embryo_okD(2,3) [OF I(8), of k u] r by (auto split: if_splits)
    next
      fix u w k assume "k \<in> set (if u = running s then [t] else embryo (fr s u))
        \<and> k \<in> set (if w = running s then [t] else embryo (fr s w))"
      then show "u = w" using t(3) embryo_okD(4) [OF I(8), of k u w] by (auto split: if_splits)
    qed
    show "wake_ok (st s) ?FR (sem s')" "lock_ok ?FR (sem s') (holder s')"
      using nt plain_tops [OF pl] O(3,4) I(9,10) by (simp_all add: x(2))
  qed
  then show "kinv [] s'" using r by (simp add: kinv_def kinv0_def v) (simp add: x(2))
qed


lemma thread_create_inv:
  assumes i: "kinv [] s" and o: "ordinary s" and e: "embryo (fr s (running s)) = []"
    and d: "thread_create s name prio g = Some s'"
  shows "kinv [] s'"
proof (cases "pages s")
  case Nil
  then show ?thesis using d modify_running_inv [OF i, of "\<lambda>x. x\<lparr>eax := TID_ERROR\<rparr>" s']
    by (simp add: thread_create_def set_eax_def)
next
  case (Cons t ps)
  then obtain s1 s2 where s: "init_thread (s\<lparr>pages := ps\<rparr>) t name prio = Some s1"
    "push_frames s1 [F_allocate_tid t g] = Some s2" "lock_acquire s2 TID_LOCK = Some s'"
    using d by (auto simp: thread_create_def bind_Some_iff)
  note n = new_thread_inv [OF i Cons s(1)]
  have o1: "ordinary s1" using o n(5,6) by (simp add: ordinary_def)
  have e1: "embryo (fr s1 (running s1)) = []" using e n(5,6) by simp
  note p = push_embryo_inv [OF n(1) o1 e1 n(2-4) s(2)]
  show ?thesis by (rule lock_acquire_inv [OF p s(3)])
qed

lemma allocate_tid_inv:
  assumes i: "kinv [F_allocate_tid t g] s" and d: "allocate_tid s t g = Some s'"
  shows "kinv [] s'"
proof -
  let ?i = "next_tid s" and ?F = "F_allocate_tid t g"
  obtain s1 where s1: "push_frames (s\<lparr>next_tid := ?i + 1\<rparr>) [F_create_tail t g ?i] = Some s1" "lock_release s1 TID_LOCK = Some s'"
    using d by (auto simp: allocate_tid_def kernel_simps bind_Some_iff Let_def)
  let ?s = "s\<lparr>next_tid := ?i + 1\<rparr>"
  have i0: "kinv [?F] ?s" by (rule cond_cong(4) [OF i])
  have o: "ordinary ?s" by (rule hand_ordinary [OF i0]) simp_all
  have w: "wf_stack (?F # fr ?s (running ?s))" using kinv_wf [OF i0] by simp
  have fr: "fr ?s = fr s" by (simp add: fr_def fun_eq_iff)
  note b = o [unfolded ordinary_def]
  have pl: "list_all plain (F_create_tail t g ?i # fr ?s (running ?s))" "list_all plain (?F # fr ?s (running ?s))" using b by simp_all
  have wf: "wf_stack (F_create_tail t g ?i # fr ?s (running ?s))"
    using plain_tops(3) [OF pl(1)] b bottom_ok_pop [of ?F] bottom_ok_push [of "fr ?s (running ?s)" "F_create_tail t g ?i"] w
    by (simp add: wf_stack_def)
  have "kinv [] s1"
    by (rule push_neutral [OF i0 s1(1)])
      (use wf kinv_embryo [OF i0] plain_tops(1,2) [OF pl(1)] plain_tops(1,2) [OF pl(2)] in \<open>simp_all add: idle_stack_Cons\<close>)
  moreover have "ordinary s1"
  proof -
    obtain x where "thr ?s (running ?s) = Some x" "fr ?s (running ?s) = frames x"
      "s1 = ?s\<lparr>thr := (thr ?s)(running ?s \<mapsto> x\<lparr>frames := [F_create_tail t g ?i] @ frames x\<rparr>)\<rparr>"
      using push_frames_Some [OF i0 s1(1)] by blast
    then show ?thesis using pl(1) by (simp add: ordinary_def fr_def idle_stack_Cons)
  qed
  ultimately show ?thesis by (rule lock_release_inv [OF _ _ s1(2)])
qed

lemma start_thread_inv:
  assumes i: "kinv [] s" and t: "st s t = Some THREAD_BLOCKED" "fr s t = []" "\<And>u. t \<notin> set (embryo (fr s u))" "t \<noteq> 0"
    and y: "thr s (running s) = Some y" "status y' = THREAD_RUNNING" "frames y' = frames y" "tmagic y' = THREAD_MAGIC"
      "status x' = THREAD_READY" "frames x' = [F_kernel_thread g]" "tmagic x' = THREAD_MAGIC"
    and s': "s' = s\<lparr>heap_left := n, ready_list := ready_list s @ [t], thr := (thr s)(t \<mapsto> x', running s \<mapsto> y')\<rparr>"
  shows "kinv [] s'"
proof -
  note I = kinv_atD [OF kinvD(1) [OF i]] and r = kinvD(2) [OF i]
  have tr: "t \<noteq> running s" using t(1) r by auto
  let ?ST = "(st s)(t := Some THREAD_READY)" and ?FR = "(fr s)(t := [F_kernel_thread g])"
  have v: "st s' = ?ST" "fr s' = ?FR"
    using y tr r by (auto simp: s' st_def fr_def fun_eq_iff)
  have nz: "t \<notin> set (list_threads s)" "running s \<notin> set (list_threads s)"
    using I(5) t(2) r unfolding sleep_ok_def by auto
  have T: "tts s' u = tts s u" if "u \<in> set (list_threads s)" for u using that nz by (auto simp: s' tts_def)
  have nw: "t \<notin> set (waiters (sem s x))" for x using I(4) t(2) unfolding wait_ok_def by fastforce
  have nidle: "t \<noteq> idle_thread s" using I(6) t(2,4) by (auto simp: idle_ok_def)
  have em: "embryo (?FR u) = embryo (fr s u)" for u using t(2) by simp
  have tops: "down_top [F_kernel_thread g] = down_top (fr s t)" "own_top [F_kernel_thread g] = own_top (fr s t)"
    using t(2) by (simp_all add: down_top_def own_top_def)
  have "{u. ?FR u \<noteq> []} \<subseteq> insert t {u. fr s u \<noteq> []}" by auto
  then have fin: "finite {u. ?FR u \<noteq> []}" by (rule finite_subset) (use I(7) in \<open>simp add: stack_ok_def\<close>)
  note nt = tops_neutral [of "[F_kernel_thread g]" "fr s" t, OF tops]
  have "kinv_at ?ST ?FR s'"
  proof (rule kinv_atI)
    show "mem_ok s'" using I(1) y t(1,4) tr running_thread(3) [OF i] by (auto simp: mem_ok_def s' st_def split: if_splits)
    show "u = running s'" if "?ST u = Some THREAD_RUNNING" for u
      using that I(2) [of u] by (auto simp: s' split: if_splits)
    show "ready_ok ?ST ?FR (ready_list s') (idle_thread s')" using I(3) t(1,2) nidle by (auto simp: ready_ok_def s')
    show "wait_ok ?ST ?FR (sem s')" using I(4) nw unfolding wait_ok_def by (auto simp: s')
    show "sleep_ok ?ST ?FR (list_threads s') (tts s')"
    proof -
      have "sorted_wrt (\<lambda>a b. tts s' a \<le> tts s' b) (list_threads s)"
        using I(5) T unfolding sleep_ok_def by (auto elim!: sorted_wrt_mono_rel [rotated])
      moreover have "list_threads s' = list_threads s" by (simp add: s')
      ultimately show ?thesis using I(5) nz(1) unfolding sleep_ok_def by auto
    qed
    show "idle_ok ?ST ?FR (idle_thread s')" using I(6) nidle by (auto simp: idle_ok_def s')
    show "stack_ok ?ST ?FR" using I(7) fin by (auto simp: stack_ok_def wf_stack_def wf_top_def bottom_ok_def)
    show "embryo_ok ?ST ?FR"
      unfolding embryo_ok_def em
    proof (intro conjI allI impI)
      show "length (embryo (fr s u)) \<le> 1" for u using embryo_okD(1) [OF I(8), of u] by simp
      fix u k assume k: "k \<in> set (embryo (fr s u))"
      then have "k \<noteq> t" using t(3) by blast
      then show "?ST k = Some THREAD_BLOCKED" "?FR k = []" using embryo_okD(2,3) [OF I(8), of k u] k by auto
    next
      fix u w k assume "k \<in> set (embryo (fr s u)) \<and> k \<in> set (embryo (fr s w))"
      then show "u = w" using embryo_okD(4) [OF I(8), of k u w] by auto
    qed
    have "woken ?ST ?FR x = woken (st s) (fr s) x" for x using t(1,2) tops by (auto simp: woken_def)
    then show "wake_ok ?ST ?FR (sem s')" using I(9) by (simp add: wake_ok_def s')
    show "lock_ok ?FR (sem s') (holder s')" using nt(2) I(10) by (simp add: s')
  qed
  then show ?thesis using r tr by (simp add: kinv_def kinv0_def v) (simp add: s')
qed

end
