(* ===== verification/Threads_Reachable.thy ===== *)
theory Threads_Reachable
  imports Threads_Machine
begin

text \<open>
  Every step of the machine keeps the invariant: the start of a thread, the idle thread, sleeping and
  the timer interrupt, and the induction over the reachable states.
\<close>

section \<open>The start of a thread\<close>

lemma hand_embryo:
  assumes i: "kinv [f] s" and c: "creates f = [t]"
  shows "st s t = Some THREAD_BLOCKED" "fr s t = []" "t \<noteq> running s" "t \<notin> set (embryo (fr s u))"
proof -
  note I = kinv_atD [OF kinvD(1) [OF i]]
  have t: "t \<in> set (embryo (stk [f] s (running s)))" using c by (simp add: stk_def)
  show b: "st s t = Some THREAD_BLOCKED" by (rule embryo_okD(2) [OF I(8) t])
  then show tr: "t \<noteq> running s" using kinvD(2) [OF i] by auto
  show "fr s t = []" using embryo_okD(3) [OF I(8) t] tr by (simp add: stk_def)
  show "t \<notin> set (embryo (fr s u))"
  proof (cases "u = running s")
    case True
    then show ?thesis using kinv_embryo [OF i] c by simp
  next
    case False
    then have "stk [f] s u = fr s u" by (simp add: stk_def)
    then show ?thesis using embryo_okD(4) [OF I(8) t, of u] False by metis
  qed
qed

lemma modify_thread_thr: "thr s t = Some x \<Longrightarrow> modify_thread s t f = Some (s\<lparr>thr := (thr s)(t \<mapsto> f x)\<rparr>)"
  by (simp add: modify_thread_def)

lemma alloc_frame_thr: "thr s t = Some x \<Longrightarrow> t \<noteq> 0 \<Longrightarrow> tmagic x = THREAD_MAGIC \<Longrightarrow> sz mod 4 = 0 \<Longrightarrow> alloc_frame s t sz = Some (s\<lparr>thr := (thr s)(t \<mapsto> x\<lparr>tstack := tstack x - sz\<rparr>)\<rparr>)"
  by (simp add: alloc_frame_def is_thread_def modify_thread_def)

lemma thread_current_thr: "thr s (running s) = Some y \<Longrightarrow> running s \<noteq> 0 \<Longrightarrow> status y = THREAD_RUNNING \<Longrightarrow> tmagic y = THREAD_MAGIC \<Longrightarrow> thread_current s = Some (running s)"
  by (simp add: thread_current_def is_thread_def)

lemma thread_unblock_thr: "thr s t = Some x \<Longrightarrow> t \<noteq> 0 \<Longrightarrow> tmagic x = THREAD_MAGIC \<Longrightarrow> status x = THREAD_BLOCKED \<Longrightarrow>
   thread_unblock s t = Some (s\<lparr>ready_list := ready_list s @ [t], thr := (thr s)(t \<mapsto> x\<lparr>status := THREAD_READY\<rparr>)\<rparr>)"
  by (simp add: thread_unblock_def is_thread_def set_status_def modify_thread_def)

lemma create_tail_eq:
  assumes "thr s t = Some x" "thr s (running s) = Some y" "status y = THREAD_RUNNING" "tmagic y = THREAD_MAGIC" "t \<noteq> running s" "t \<noteq> 0"
    "tmagic x = THREAD_MAGIC" "status x = THREAD_BLOCKED" "running s \<noteq> 0"
  shows "create_tail s t g k = (if heap_left s = 0 then None else Some (s\<lparr>heap_left := heap_left s - 1, ready_list := ready_list s @ [t], thr := (thr s)(t \<mapsto>
    x\<lparr>tid := k, tstack := tstack x - 44, frames := [F_kernel_thread g], exit_status := - 1, parent := running s,
    fd_ct := 1, status := THREAD_READY\<rparr>, running s \<mapsto> y\<lparr>child_loaded := 0, child_list := child_list y @ [\<lparr>c_tid = k, child_done = 0, child_ret = None\<rparr>], eax := k\<rparr>)\<rparr>))"
  unfolding create_tail_def set_eax_def Let_def
  by (simp add: assms assms(5) [symmetric] modify_thread_thr alloc_frame_thr thread_current_thr thread_unblock_thr fun_upd_twist ASSERT_def)

lemma create_tail_inv:
  assumes i: "kinv [F_create_tail t g k] s" and d: "create_tail s t g k = Some s'"
  shows "kinv [] s'"
proof -
  have t: "st s t = Some THREAD_BLOCKED" "fr s t = []" "t \<noteq> running s" "\<And>u. t \<notin> set (embryo (fr s u))"
    using hand_embryo [OF i] by simp_all
  have i0: "kinv [] s" by (rule drop_hand [OF i]) (simp_all add: idle_stack_Cons)
  obtain x where x: "thr s t = Some x" using t(1) by (auto simp: st_def)
  obtain y where y: "thr s (running s) = Some y" "status y = THREAD_RUNNING" "tmagic y = THREAD_MAGIC"
    using running_thread(1) [OF i0] by blast
  have m: "t \<noteq> 0" "tmagic x = THREAD_MAGIC" using x kinv_atD(1) [OF kinvD(1) [OF i0]] by (auto simp: mem_ok_def)
  let ?x = "x\<lparr>tid := k, tstack := tstack x - 44, frames := [F_kernel_thread g], exit_status := - 1, parent := running s,
    fd_ct := 1, status := THREAD_READY\<rparr>"
  let ?y = "y\<lparr>child_loaded := 0, child_list := child_list y @ [\<lparr>c_tid = k, child_done = 0, child_ret = None\<rparr>], eax := k\<rparr>"
  have bl: "status x = THREAD_BLOCKED" using t(1) x by (simp add: st_def)
  have "s' = s\<lparr>heap_left := heap_left s - 1, ready_list := ready_list s @ [t], thr := (thr s)(t \<mapsto> ?x, running s \<mapsto> ?y)\<rparr>"
    using d create_tail_eq [OF x y t(3) m bl] running_thread(3) [OF i0] by (simp split: if_splits)
  then show ?thesis by (rule start_thread_inv [OF i0 t(1,2,4) m(1) y(1), rotated -1]) (use y m in simp_all)
qed

section \<open>The idle thread\<close>

lemma kt_bottom: "wf_stack (F_kernel_thread g # fs) \<Longrightarrow> fs = []"
  by (simp add: wf_stack_def bottom_ok_def split: if_splits)

lemma become_idle_inv:
  assumes i: "kinv [] s" and f: "fr s (running s) = []" and p: "push_frames (s\<lparr>idle_thread := running s\<rparr>) [F_idle_loop] = Some s'"
  shows "kinv [] s'"
proof -
  note I = kinv_atD [OF kinvD(1) [OF i], unfolded stk_nil] and r = kinvD(2) [OF i]
  obtain x where x: "thr s (running s) = Some x" "status x = THREAD_RUNNING" "tmagic x = THREAD_MAGIC" "frames x = []"
    using running_thread(1) [OF i] f by force
  then have s': "s' = s\<lparr>idle_thread := running s, thr := (thr s)(running s \<mapsto> x\<lparr>frames := [F_idle_loop]\<rparr>)\<rparr>"
    using p by (simp add: push_frames_def modify_thread_def)
  let ?B = "[F_idle_loop]" and ?r = "running s"
  have v: "st s' = st s" "fr s' = (fr s)(?r := ?B)" "tts s' = tts s" using x by (auto simp: s' st_def fr_def tts_def fun_eq_iff)
  have ib: "idle_stack ?B" by (simp add: idle_stack_def)
  have wf: "wf_stack ?B" by (simp add: wf_stack_def wf_top_def bottom_ok_def ib)
  note C = change_stack [OF r wf _ _ _ I(3-8), where S' = "sem s" and T' = "tts s"]
  have pl: "list_all plain ?B" by simp
  note T = tops_neutral [where B = ?B and FR = "fr s" and r = ?r]
  have "kinv_at (st s) ((fr s)(?r := ?B)) s'"
  proof (rule kinv_atI)
    show "mem_ok s'" using I(1) x by (auto simp: mem_ok_def s')
    show "t = running s'" if "st s t = Some THREAD_RUNNING" for t using I(2) [OF that] by (simp add: s')
    show "ready_ok (st s) ((fr s)(?r := ?B)) (ready_list s') (idle_thread s')"
      using C(1) I(3) r f by (auto simp: ready_ok_def s')
    show "wait_ok (st s) ((fr s)(?r := ?B)) (sem s')" using C(2) f by (simp add: s')
    show "sleep_ok (st s) ((fr s)(?r := ?B)) (list_threads s') (tts s')" using C(3) f by (simp add: v(3)) (simp add: s')
    show "idle_ok (st s) ((fr s)(?r := ?B)) (idle_thread s')" using C(4) f ib by (simp add: idle_ok_def s')
    show "stack_ok (st s) ((fr s)(?r := ?B))" "embryo_ok (st s) ((fr s)(?r := ?B))" using C(5,6) f by simp_all
    show "wake_ok (st s) ((fr s)(?r := ?B)) (sem s')" "lock_ok ((fr s)(?r := ?B)) (sem s') (holder s')"
      using T I(9,10) plain_tops(1,2) [OF pl] f by (simp_all add: s')
  qed
  then show ?thesis using r by (simp add: kinv_def kinv0_def v(1,2)) (simp add: s')
qed

lemma kernel_thread_inv:
  assumes i: "kinv [F_kernel_thread g] s" and d: "kernel_thread s g = Some s'"
  shows "kinv [] s'"
proof -
  have i0: "kinv [] s" by (rule drop_hand [OF i]) (simp_all add: idle_stack_Cons)
  have i1: "kinv [] (s\<lparr>intr_on := True\<rparr>)" by (rule kinv_cong [OF i0]) simp_all
  have f: "fr s (running s) = []" using kinv_wf [OF i] by (simp add: kt_bottom)
  show ?thesis
  proof (cases g)
    case (Func n)
    then show ?thesis using d i1 by (auto simp: kernel_thread_def kernel_simps bind_Some_iff)
  next
    case (Idle n)
    let ?s = "s\<lparr>intr_on := True\<rparr>"
    have fs: "fr ?s (running ?s) = []" using f by (simp add: fr_def)
    obtain s1 where s1: "push_frames (?s\<lparr>idle_thread := running ?s\<rparr>) [F_idle_loop] = Some s1" "sema_up s1 (Plain n) = Some s'"
      using d Idle running_thread(3) [OF i1]
      by (auto simp: kernel_thread_def idle_begin_def thread_current_def kernel_simps bind_Some_iff Let_def)
    show ?thesis by (rule sema_up_inv [OF become_idle_inv [OF i1 fs s1(1)] _ s1(2)]) simp
  qed
qed

lemma idle_bottom: "wf_stack (f # fs) \<Longrightarrow> f = F_idle_loop \<or> f = F_idle_hlt \<Longrightarrow> fs = []"
  by (auto simp: wf_stack_def bottom_ok_def idle_stack_Cons)

lemma wf_idle: "wf_stack [F_idle_hlt]" "wf_stack [F_idle_loop]"
  by (simp_all add: wf_stack_def wf_top_def bottom_ok_def idle_stack_def)

lemma idle_tops [simp]: "down_top [F_idle_hlt] = None" "own_top [F_idle_hlt] = None" "down_top [F_idle_loop] = None"
  "own_top [F_idle_loop] = None" "idle_stack [F_idle_hlt]" "idle_stack [F_idle_loop]"
  by (simp_all add: down_top_def own_top_def idle_stack_def)

lemma idle_hlt_inv:
  assumes i: "kinv [F_idle_hlt] s" and d: "idle_hlt s = Some s'"
  shows "kinv [] s'"
proof -
  have i1: "kinv [F_idle_hlt] (s\<lparr>intr_on := True\<rparr>)" by (rule kinv_cong [OF i]) simp_all
  have "fr s (running s) = []" using kinv_wf [OF i] by (auto dest: idle_bottom)
  then show ?thesis
    by (intro push_neutral [OF i1 d [unfolded idle_hlt_def]]) (simp_all add: fr_def wf_idle)
qed

text \<open>A thread that is not in \<open>sema_down\<close> can block without a wake-up being lost.\<close>

lemma block_wake:
  assumes "down_top (FR r) = None" "wake_ok ST FR S"
  shows "wake_ok (ST(r := v)) FR S"
proof -
  have "woken (ST(r := v)) FR x = woken ST FR x" for x using assms(1) by (auto simp: woken_def)
  then show ?thesis using assms(2) by (simp add: wake_ok_def)
qed

lemma idle_loop_inv:
  assumes i: "kinv [F_idle_loop] s" and d: "idle_loop s = Some s'"
  shows "kinv [] s'"
proof -
  have i1: "kinv [F_idle_loop] (s\<lparr>intr_on := False\<rparr>)" by (rule kinv_cong [OF i]) simp_all
  have f: "fr s (running s) = []" using kinv_wf [OF i] by (auto dest: idle_bottom)
  obtain s1 where s1: "push_frames (s\<lparr>intr_on := False\<rparr>) [F_idle_hlt] = Some s1" "thread_block s1 = Some s'"
    using d by (auto simp: idle_loop_def bind_Some_iff)
  have k: "kinv [] s1" by (intro push_neutral [OF i1 s1(1)]) (use f in \<open>simp_all add: fr_def wf_idle\<close>)
  have fs: "fr s1 (running s1) = [F_idle_hlt]" using push_frames_Some [OF i1 s1(1)] f by (auto simp: fr_def)
  note I = kinv_atD [OF kinvD(1) [OF k], unfolded stk_nil] and r = kinvD(2) [OF k]
  note B = block_keeps [OF r _ I(3-8)]
  have "down_top (fr s1 (running s1)) = None" using fs by simp
  note W = block_wake [OF this I(9)]
  show ?thesis
  proof (rule thread_block_inv [OF s1(2) I(1)], rule kinv_atI)
    show "t = running s1" if "((st s1)(running s1 := Some THREAD_BLOCKED)) t = Some THREAD_RUNNING" for t
      using that I(2) [of t] by (auto split: if_splits)
  qed (use I(1,10) B W fs in simp_all)
qed

section \<open>Sleeping\<close>

lemma timer_sleep_inv:
  assumes i: "kinv [] s" and o: "ordinary s" and d: "timer_sleep s n = Some s'"
  shows "kinv [] s'"
proof -
  obtain s1 where s1: "modify_thread s (running s) (\<lambda>x. x\<lparr>ticks_to_sleep := ticks s + n\<rparr>) = Some s1" "push_frames s1 [F_sleep] = Some s'"
    using d running_thread(3) [OF i] by (auto simp: timer_sleep_def thread_current_def kernel_simps bind_Some_iff Let_def)
  have i1: "kinv [] s1" by (rule modify_running_inv [OF i s1(1)]) simp_all
  have "running s1 = running s" "fr s1 (running s) = fr s (running s)" using s1(1) by (auto simp: modify_thread_def bind_Some_iff fr_def)
  then have "ordinary s1" using o by (simp add: ordinary_def)
  then show ?thesis by (rule push_plain_inv [OF i1 _ s1(2)]) simp_all
qed

lemma insert_sorted:
  assumes "sorted_wrt (\<lambda>a b. f a \<le> f b) xs" and p: "\<And>y. y \<in> set xs \<Longrightarrow> P y \<longleftrightarrow> \<not> f t < (f y :: int)"
  shows "sorted_wrt (\<lambda>a b. f a \<le> f b) (takeWhile P xs @ t # dropWhile P xs)"
  using assms
proof (induction xs)
  case (Cons y ys)
  have ys: "\<forall>z \<in> set ys. f y \<le> f z" "sorted_wrt (\<lambda>a b. f a \<le> f b) ys" using Cons.prems(1) by simp_all
  show ?case
  proof (cases "P y")
    case True
    have "set (takeWhile P ys @ t # dropWhile P ys) = insert t (set ys)"
      by (metis (no_types) Un_insert_right list.simps(15) set_append takeWhile_dropWhile_id)
    then show ?thesis using Cons.IH [OF ys(2)] Cons.prems(2) True ys(1) by simp
  next
    case False
    then have "f t < f y" using Cons.prems(2) by simp
    then show ?thesis using False ys by fastforce
  qed
qed simp

lemma timer_sleep_tail_inv:
  assumes i: "kinv [F_sleep] s" and d: "timer_sleep_tail s = Some s'"
  shows "kinv [] s'"
proof -
  have pl: "list_all plain (fr s (running s))" and ni: "\<not> idle_stack (fr s (running s))"
    using hand_ordinary [OF i] by (simp_all add: ordinary_def)
  have i0: "kinv [] s" by (rule drop_hand [OF i]) (simp_all add: idle_stack_Cons)
  let ?r = "running s" and ?f = "F_intr_set (intr_on s)"
  obtain s1 where s1: "push_frames s [?f] = Some s1" and b: "thread_block (let s = s1\<lparr>intr_on := False\<rparr>; q = list_threads s in
      s\<lparr>list_threads := takeWhile (\<lambda>y. \<not> is_less_than s ?r y) q @ ?r # dropWhile (\<lambda>y. \<not> is_less_than s ?r y) q\<rparr>) = Some s'"
    using d running_thread(3) [OF i0] by (auto simp: timer_sleep_tail_def thread_current_def kernel_simps bind_Some_iff Let_def)
  have k: "kinv [] s1" by (rule push_intr_inv [OF i0 s1])
  have r1: "running s1 = ?r" and f1: "fr s1 ?r = ?f # fr s ?r"
    using push_frames_Some [OF i0 s1] by (auto simp: fr_def)
  note I = kinv_atD [OF kinvD(1) [OF k], unfolded stk_nil] and r = kinvD(2) [OF k, unfolded r1]
  let ?P = "\<lambda>y. \<not> is_less_than (s1\<lparr>intr_on := False\<rparr>) ?r y" and ?q = "list_threads s1"
  define Z where "Z = takeWhile ?P ?q @ ?r # dropWhile ?P ?q"
  let ?s = "s1\<lparr>intr_on := False, list_threads := Z\<rparr>"
  have q: "distinct ?q" "?r \<notin> set ?q" "sorted_wrt (\<lambda>a b. tts s1 a \<le> tts s1 b) ?q" using I(5) r unfolding sleep_ok_def by auto
  have P: "?P y \<longleftrightarrow> \<not> tts s1 ?r < tts s1 y" if "y \<in> set ?q" for y
  proof -
    have "st s1 y = Some THREAD_BLOCKED" using I(5) that unfolding sleep_ok_def by blast
    then show ?thesis using r by (auto simp: is_less_than_def tts_def st_def)
  qed
  have Z: "set Z = insert ?r (set ?q)" "distinct Z" "sorted_wrt (\<lambda>a b. tts s1 a \<le> tts s1 b) Z"
  proof -
    show "set Z = insert ?r (set ?q)" unfolding Z_def by (metis (no_types) Un_insert_right list.simps(15) set_append takeWhile_dropWhile_id)
    show "distinct Z" unfolding Z_def using q(1,2) by (metis (no_types) distinct.simps(2) distinct_append Int_insert_right_if0 list.simps(15) set_takeWhileD set_dropWhileD takeWhile_dropWhile_id)
    show "sorted_wrt (\<lambda>a b. tts s1 a \<le> tts s1 b) Z" unfolding Z_def by (rule insert_sorted [OF q(3)]) (use P in blast)
  qed
  let ?ST = "(st s1)(?r := Some THREAD_BLOCKED)"
  have dt: "down_top (fr s1 ?r) = None" using plain_tops(1) [OF pl] f1 by simp
  note B = block_keeps [OF r _ I(3-8)] and W = block_wake [OF dt I(9)]
  have ni1: "\<not> idle_stack (fr s1 ?r)" using ni f1 by simp
  have v: "st ?s = st s1" "fr ?s = fr s1" "tts ?s = tts s1" by (simp_all add: st_def fr_def tts_def fun_eq_iff)
  have m: "mem_ok ?s" using I(1) by (simp add: mem_ok_def)
  have "kinv_at ?ST (fr s1) ?s"
  proof (rule kinv_atI [OF m])
    show "t = running ?s" if "?ST t = Some THREAD_RUNNING" for t using that I(2) [of t] by (auto split: if_splits)
    show "sleep_ok ?ST (fr s1) (list_threads ?s) (tts ?s)"
      unfolding v(3) using B(3) [OF notE [OF ni1]] Z f1 pl ni unfolding sleep_ok_def by auto
  qed (use B ni1 W I(10) in simp_all)
  then show ?thesis by (intro thread_block_inv [of ?s, OF _ m]) (use b r1 v in \<open>simp_all add: Z_def Let_def\<close>)
qed

section \<open>The timer interrupt\<close>

lemma wake_sleeper:
  assumes i: "kinv [] s" and z: "list_threads s = t # ts" and x: "thr s t = Some x"
    and s': "s' = s\<lparr>list_threads := ts, ready_list := ready_list s @ [t], thr := (thr s)(t \<mapsto> x\<lparr>status := THREAD_READY\<rparr>)\<rparr>"
  shows "kinv [] s'"
proof -
  note I = kinv_atD [OF kinvD(1) [OF i], unfolded stk_nil] and r = kinvD(2) [OF i]
  obtain b fs where t: "st s t = Some THREAD_BLOCKED" "fr s t = F_intr_set b # fs" "list_all plain fs" "\<not> idle_stack fs"
    and Z: "distinct (t # ts)" "sorted_wrt (\<lambda>a b. tts s a \<le> tts s b) (t # ts)"
    using I(5) z unfolding sleep_ok_def by auto
  have t0: "t \<noteq> 0" using I(1) x by (auto simp: mem_ok_def)
  have dt: "down_top (fr s t) = None" using plain_tops(1) [OF t(3)] t(2) by simp
  let ?ST = "(st s)(t := Some THREAD_READY)"
  have v: "st s' = ?ST" "fr s' = fr s" "tts s' = tts s" using x by (auto simp: s' st_def fr_def tts_def fun_eq_iff)
  have w: "\<forall>x. distinct (waiters (sem s x)) \<and> set (waiters (sem s x)) \<subseteq> set (waiters (sem s x)) - {t}"
    using I(4) dt unfolding wait_ok_def by fastforce
  note U = unblock_keeps [where ST = "st s" and FR = "fr s" and t = t and S' = "sem s" and Z' = ts and T = "tts s", OF t(1) _ _ t0 w _ _ _ I(3-8)]
  have "kinv_at ?ST (fr s) s'"
  proof (rule kinv_atI)
    show "mem_ok s'" using I(1) x by (auto simp: mem_ok_def s')
    show "u = running s'" if "?ST u = Some THREAD_RUNNING" for u using that I(2) [of u] by (auto simp: s' split: if_splits)
    show "wake_ok ?ST (fr s) (sem s')" using block_wake [where v = "Some THREAD_READY", OF dt I(9)] by (simp add: s')
    show "sleep_ok ?ST (fr s) (list_threads s') (tts s')" unfolding v(3) using U(3) t Z z by (simp add: s')
  qed (use U t Z z I(10) in \<open>simp_all add: s'\<close>)
  then show ?thesis using r t(1) by (simp add: kinv_def kinv0_def v(1,2)) (auto simp: s')
qed

lemma wake_loop_inv:
  "wake_loop s ts = Some s' \<Longrightarrow> kinv [] (s\<lparr>list_threads := ts, in_external_intr := False\<rparr>) \<Longrightarrow> kinv [] (s'\<lparr>in_external_intr := False\<rparr>)"
proof (induction ts arbitrary: s)
  case (Cons t ts)
  obtain x where x: "thr s t = Some x" using Cons.prems(1) by (auto simp: bind_Some_iff)
  show ?case
  proof (cases "ticks s < ticks_to_sleep x")
    case False
    then obtain s1 where s1: "thread_unblock s t = Some s1" "wake_loop s1 ts = Some s'"
      using Cons.prems(1) x by (auto simp: bind_Some_iff)
    have "s1 = s\<lparr>ready_list := ready_list s @ [t], thr := (thr s)(t \<mapsto> x\<lparr>status := THREAD_READY\<rparr>)\<rparr>"
      using thread_unblock_Some [OF s1(1)] x by auto
    then have "kinv [] (s1\<lparr>list_threads := ts, in_external_intr := False\<rparr>)"
      by (intro wake_sleeper [OF Cons.prems(2), of t ts x]) (use x in \<open>auto intro: kernel.equality\<close>)
    then show ?thesis by (rule Cons.IH [OF s1(2)])
  qed (use Cons.prems x in auto)
qed simp

lemma thread_tick_Some:
  assumes "thread_tick s = Some s'"
  shows "\<exists>s1 n y. s' = s1\<lparr>thread_ticks := n, yield_on_return := y\<rparr> \<and> (\<exists>i u k. s1 = s\<lparr>idle_ticks := i, user_ticks := u, kernel_ticks := k\<rparr>)"
proof -
  obtain x where s': "s' = (let s = count_tick s (running s) x; s = s\<lparr>thread_ticks := thread_ticks s + 1\<rparr> in
      if thread_ticks s \<ge> TIME_SLICE then s\<lparr>yield_on_return := True\<rparr> else s)"
    using assms by (auto simp: thread_tick_def thread_current_def kernel_simps bind_Some_iff Let_def)
  let ?s = "count_tick s (running s) x"
  have "?s = s\<lparr>idle_ticks := idle_ticks ?s, user_ticks := user_ticks ?s, kernel_ticks := kernel_ticks ?s\<rparr>"
    by (simp add: count_tick_def)
  moreover have "s' = ?s\<lparr>thread_ticks := thread_ticks ?s + 1, yield_on_return := thread_ticks ?s + 1 \<ge> TIME_SLICE \<or> yield_on_return ?s\<rparr>"
    by (simp add: s' Let_def)
  ultimately show ?thesis by blast
qed

lemma intr_handler_inv:
  assumes i: "kinv [] s" and d: "intr_handler s = Some s'"
  shows "kinv [] s'"
proof -
  have i1: "kinv [] (s\<lparr>intr_on := False\<rparr>)" by (rule kinv_cong [OF i]) simp_all
  obtain s1 s2 where s1: "push_frames (s\<lparr>intr_on := False\<rparr>) [F_intr_set True] = Some s1"
    and s2: "timer_interrupt (s1\<lparr>in_external_intr := True, yield_on_return := False\<rparr>) = Some s2"
    and s': "(if yield_on_return s2 then thread_yield (s2\<lparr>in_external_intr := False\<rparr>) else Some (s2\<lparr>in_external_intr := False\<rparr>)) = Some s'"
    using d by (auto simp: intr_handler_def kernel_simps bind_Some_iff Let_def)
  have k: "kinv [] s1" by (rule push_intr_inv [OF i1 s1])
  let ?s = "s1\<lparr>in_external_intr := True, yield_on_return := False, ticks := ticks s1 + 1\<rparr>"
  obtain s3 where s3: "thread_tick ?s = Some s3" "wake_loop s3 (list_threads s3) = Some s2"
    using s2 by (auto simp: timer_interrupt_def bind_Some_iff Let_def)
  have e: "thr s3 = thr s1 \<and> running s3 = running s1 \<and> ready_list s3 = ready_list s1 \<and> idle_thread s3 = idle_thread s1
    \<and> list_threads s3 = list_threads s1 \<and> pages s3 = pages s1 \<and> sem s3 = sem s1 \<and> holder s3 = holder s1"
    using thread_tick_Some [OF s3(1)] by auto
  have "\<not> in_external_intr s1" using kinv_atD(1) [OF kinvD(1) [OF k]] by (simp add: mem_ok_def)
  then have "kinv [] (s3\<lparr>list_threads := list_threads s3, in_external_intr := False\<rparr>)"
    by (intro kinv_cong [OF k]) (use e in simp_all)
  then have k2: "kinv [] (s2\<lparr>in_external_intr := False\<rparr>)" by (rule wake_loop_inv [OF s3(2)])
  show ?thesis using s' thread_yield_inv [OF k2] k2 by (auto split: if_splits)
qed


section \<open>Every step\<close>

lemma hand_drop:
  assumes "kinv [f] s" "plain f" "\<not> is_intr f" "f \<notin> {F_idle_loop, F_idle_hlt}"
  shows "kinv [] s" "ordinary s"
  using drop_hand [OF assms(1,2)] hand_ordinary [OF assms(1,3,2)] assms(3,4) by (simp_all add: idle_stack_Cons)

lemma run_frame_inv:
  assumes i: "kinv [f] s" and d: "run_frame s f = Some s'"
  shows "kinv [] s'"
proof (cases f)
  case (F_intr_set b)
  have "kinv [] s" by (rule drop_hand [OF i]) (use F_intr_set in \<open>simp_all add: idle_stack_def\<close>)
  then show ?thesis using d F_intr_set by (auto simp: run_frame_def intro: cond_cong)
next
  case (F_sema_down x b)
  then show ?thesis using sema_down_loop_inv i d by (simp add: run_frame_def)
next
  case (F_call_sema_down x)
  have x: "x \<noteq> Lock_sema l" for l using kinv_wf [OF i] F_call_sema_down by (auto simp: wf_stack_def wf_top_def)
  have "plain f" using x F_call_sema_down by (cases x) auto
  note k = hand_drop [OF i this]
  show ?thesis by (rule sema_down_inv [OF k x]) (use F_call_sema_down d in \<open>simp_all add: run_frame_def\<close>)
next
  case (F_sema_up x)
  have d': "sema_up s x = Some s'" using d F_sema_up by (simp add: run_frame_def)
  show ?thesis
  proof (cases "\<exists>l. x = Lock_sema l")
    case True
    then show ?thesis using sema_up_inv [OF i _ d'] F_sema_up by blast
  next
    case False
    have "kinv [] s" by (rule drop_hand [OF i]) (use False F_sema_up in \<open>cases x; simp add: idle_stack_Cons\<close>)+
    then show ?thesis using sema_up_inv [OF _ _ d'] False by blast
  qed
next
  case (F_set_holder l)
  then show ?thesis using set_holder_inv i d by (simp add: run_frame_def)
next
  case (F_lock_acquire l)
  then show ?thesis using hand_drop [OF i] lock_acquire_inv d by (simp add: run_frame_def)
next
  case (F_lock_release l)
  then show ?thesis using hand_drop [OF i] lock_release_inv d by (simp add: run_frame_def)
next
  case (F_broadcast c l)
  then show ?thesis using hand_drop [OF i] cond_broadcast_inv d by (simp add: run_frame_def)
next
  case (F_allocate_tid t g)
  then show ?thesis using allocate_tid_inv i d by (simp add: run_frame_def)
next
  case (F_create_tail t g k)
  then show ?thesis using create_tail_inv i d by (simp add: run_frame_def)
next
  case (F_kernel_thread g)
  then show ?thesis using kernel_thread_inv i d by (simp add: run_frame_def)
next
  case F_idle_loop
  then show ?thesis using idle_loop_inv i d by (simp add: run_frame_def)
next
  case F_idle_hlt
  then show ?thesis using idle_hlt_inv i d by (simp add: run_frame_def)
next
  case F_sleep
  then show ?thesis using timer_sleep_tail_inv i d by (simp add: run_frame_def)
qed

lemma resume_inv:
  assumes i: "kinv [] s" and d: "resume s = Some s'"
  shows "kinv [] s'"
proof -
  obtain x where x: "thr s (running s) = Some x" "status x = THREAD_RUNNING" "tmagic x = THREAD_MAGIC" "fr s (running s) = frames x"
    using running_thread(1) [OF i] by blast
  obtain f fs where f: "frames x = f # fs" using d x(1) by (auto simp: resume_def split: list.splits)
  let ?s = "s\<lparr>thr := (thr s)(running s \<mapsto> x\<lparr>frames := fs\<rparr>)\<rparr>"
  have r: "run_frame ?s f = Some s'" using d x(1) f by (simp add: resume_def modify_thread_def)
  have "kinv [f] ?s" by (rule upd_neutral [OF i, of ?s "x\<lparr>frames := fs\<rparr>"])
    (use x f kinv_wf [OF i] kinv_embryo [OF i] in simp_all)
  then show ?thesis by (rule run_frame_inv [OF _ r])
qed

lemma own_sema_lock: "own_sema x \<Longrightarrow> x \<noteq> Lock_sema l"
  by auto

lemma thread_start_inv:
  assumes i: "kinv [] s" and f: "fr s (running s) = []" and d: "thread_start s n = Some s'"
  shows "kinv [] s'"
proof -
  let ?s = "sema_init s (Plain n) 0"
  have i1: "kinv [] ?s" by (rule sema_init_inv [OF i]) simp
  have fs: "running ?s = running s" "fr ?s = fr s" by (simp_all add: sema_init_def set_sem_def fr_def fun_eq_iff)
  obtain s1 where s1: "push_frames ?s [F_intr_set True, F_call_sema_down (Plain n)] = Some s1"
      "thread_create s1 ''idle'' PRI_MIN (Idle n) = Some s'"
    using d by (auto simp: thread_start_def bind_Some_iff)
  note p = push_frames_Some [OF i1 s1(1)]
  have "kinv [] s1"
    by (rule push_neutral [OF i1 s1(1)])
      (use f fs in \<open>simp_all add: wf_stack_def wf_top_def bottom_ok_def down_top_def own_top_def\<close>)
  moreover have "fr s1 (running s1) = [F_intr_set True, F_call_sema_down (Plain n)]" using p f fs by (auto simp: fr_def)
  ultimately show ?thesis using thread_create_inv [OF _ _ _ s1(2)] by (simp add: ordinary_def idle_stack_Cons)
qed

lemma do_call_inv:
  assumes i: "kinv [] s" and f: "fr s (running s) = []" and d: "do_call s c = Some s'"
  shows "kinv [] s'"
proof -
  have o: "ordinary s" by (simp add: ordinary_def f)
  have e: "embryo (fr s (running s)) = []" by (simp add: f)
  show ?thesis
  proof (cases c)
    case (C_sema_down x)
    then show ?thesis using d sema_down_inv [OF i o own_sema_lock] by (auto simp: do_call_def kernel_simps bind_Some_iff)
  next
    case (C_sema_try_down x)
    then show ?thesis using d sema_try_down_inv [OF i own_sema_lock] by (auto simp: do_call_def kernel_simps bind_Some_iff)
  next
    case (C_sema_up x)
    then have u: "own_sema x" "sema_up s x = Some s'" using d by (auto simp: do_call_def kernel_simps bind_Some_iff)
    show ?thesis by (rule sema_up_inv [OF i _ u(2)]) (use own_sema_lock [OF u(1)] in blast)
  next
    case (C_thread_start n)
    then show ?thesis using d thread_start_inv [OF i f] by (simp add: do_call_def)
  next
    case (C_set_priority p)
    then show ?thesis using d modify_running_inv [OF i, of "\<lambda>x. x\<lparr>priority := p\<rparr>" s']
      by (auto simp: do_call_def thread_set_priority_def thread_current_def kernel_simps bind_Some_iff Let_def)
  next
    case (C_lock_try_acquire l)
    then show ?thesis using d lock_try_acquire_inv [OF i o] by (auto simp: do_call_def)
  qed (use d lock_acquire_inv [OF i o] lock_release_inv [OF i o] cond_wait_inv [OF i o] cond_signal_inv [OF i o]
    cond_broadcast_inv [OF i o] thread_create_inv [OF i o e] thread_yield_inv [OF i] thread_exit_inv [OF i f]
    timer_sleep_inv [OF i o] cond_cong(3) [OF i] in \<open>auto simp: do_call_def\<close>)
qed

lemma step_inv: "step s s' \<Longrightarrow> kinv [] s \<Longrightarrow> kinv [] s'"
proof (induction rule: step.induct)
  case (call s x c s')
  then show ?case using do_call_inv [of s c s'] by (simp add: fr_def)
qed (auto intro: resume_inv intr_handler_inv)

lemma thread_init_inv:
  assumes t: "t \<noteq> 0" "distinct (t # ps)" "0 \<notin> set ps" and d: "thread_init (boot_state t ps heap v) = Some s"
  shows "kinv [] s"
proof -
  let ?x = "(new_thread ''main'' PRI_DEFAULT)\<lparr>status := THREAD_RUNNING, tid := 1\<rparr>"
  have s: "thr s = [t \<mapsto> ?x]" "running s = t" "ready_list s = []" "idle_thread s = 0" "pages s = ps" "list_threads s = []"
    "\<not> in_external_intr s" "holder s l = 0" "waiters (sem s x) = []" "sval (sem s (Lock_sema l)) = 1" for l x
    using d t by (auto simp: thread_init_def boot_state_def boot_sem_def lock_init_def init_thread_def sema_init_def set_sem_def
      set_status_def modify_thread_def kernel_simps Let_def PRI_MIN_def PRI_MAX_def PRI_DEFAULT_def)
  have v: "st s = [t \<mapsto> THREAD_RUNNING]" "fr s = (\<lambda>u. [])"
    using s(1) by (auto simp: st_def fr_def fun_eq_iff new_thread_def)
  have "kinv_at (st s) (fr s) s"
    by (rule kinv_atI)
      (use s v t in \<open>auto simp: mem_ok_def new_thread_def ready_ok_def wait_ok_def sleep_ok_def idle_ok_def stack_ok_def
        embryo_ok_def wake_ok_def lock_ok_def owners_def split: if_splits\<close>)
  then show ?thesis using s(2) v(1) by (simp add: kinv_def kinv0_def)
qed

theorem reachable_inv: "reachable s \<Longrightarrow> kinv [] s"
proof (induction rule: reachable.induct)
  case (init t ps heap v s)
  then show ?case by (rule thread_init_inv)
next
  case (step s s')
  then show ?case using step_inv by blast
qed

end
