(* ===== verification/Threads_Fairness.thy ===== *)
theory Threads_Fairness
  imports Threads_Reachable
begin

text \<open>
  The ready list as a queue.  A step of the machine appends threads to the ready list and then, if it
  switches threads, takes the first one.  With the time slice this bounds how long a ready thread
  waits for the processor.
\<close>

section \<open>Runs\<close>

datatype event = Resume | Call call | Tick

fun do_event :: "kernel \<Rightarrow> event \<Rightarrow> kernel option" where
  "do_event s Resume = resume s"
| "do_event s (Call c) = do {
     x \<leftarrow> thr s (running s);
     ASSERT (frames x = []);
     do_call s c
   }"
| "do_event s Tick = do { ASSERT (intr_on s); intr_handler s }"

fun run_events :: "kernel \<Rightarrow> event list \<Rightarrow> kernel option" where
  "run_events s [] = Some s"
| "run_events s (e # es) = do { s \<leftarrow> do_event s e; run_events s es }"

lemma do_event_step: "do_event s e = Some s' \<Longrightarrow> step s s'"
  by (cases e) (auto simp: kernel_simps bind_Some_iff intro: step.intros)

lemma run_events_reachable: "reachable s \<Longrightarrow> run_events s es = Some s' \<Longrightarrow> reachable s'"
  by (induction es arbitrary: s) (auto simp: bind_Some_iff dest: do_event_step intro: reachable.step)

lemma run_events_append: "run_events s (es @ fs) = run_events s es \<bind> (\<lambda>s. run_events s fs)"
  by (induction es arbitrary: s) auto

section \<open>What a step does to the queue\<close>

definition queue_grown :: "kernel \<Rightarrow> kernel \<Rightarrow> bool" where
  "queue_grown s s' \<longleftrightarrow> (\<exists>suf. ready_list s' = ready_list s @ suf) \<and> thread_ticks s' = thread_ticks s \<and> running s' = running s"

definition rescheduled :: "kernel \<Rightarrow> kernel \<Rightarrow> bool" where
  "rescheduled s s' \<longleftrightarrow> thread_ticks s' = 0 \<and>
     (\<exists>suf. if ready_list s @ suf = [] then ready_list s' = [] else ready_list s @ suf = running s' # ready_list s')"

definition moved :: "kernel \<Rightarrow> kernel \<Rightarrow> bool" where
  "moved s s' \<longleftrightarrow> queue_grown s s' \<or> rescheduled s s'"

lemma grown_refl [simp]: "ready_list s' = ready_list s \<Longrightarrow> thread_ticks s' = thread_ticks s \<Longrightarrow> running s' = running s \<Longrightarrow> queue_grown s s'"
  by (simp add: queue_grown_def)

lemma grown_trans: "queue_grown s s1 \<Longrightarrow> queue_grown s1 s2 \<Longrightarrow> queue_grown s s2"
  by (auto simp: queue_grown_def)

lemma rescheduled_suffix: "ready_list s1 = ready_list s @ suf \<Longrightarrow> rescheduled s1 s2 \<Longrightarrow> rescheduled s s2"
  unfolding rescheduled_def by (metis append_assoc)

lemma grown_rescheduled: "queue_grown s s1 \<Longrightarrow> rescheduled s1 s2 \<Longrightarrow> rescheduled s s2"
  unfolding queue_grown_def using rescheduled_suffix by blast

lemma grown_moved: "queue_grown s s1 \<Longrightarrow> moved s1 s2 \<Longrightarrow> moved s s2"
  by (auto simp: moved_def intro: grown_trans grown_rescheduled)

lemma modify_thread_grown: "modify_thread s t f = Some s' \<Longrightarrow> queue_grown s s'"
  by (auto simp: modify_thread_def bind_Some_iff)

lemma thread_unblock_grown: "thread_unblock s t = Some s' \<Longrightarrow> queue_grown s s'"
  by (auto simp: queue_grown_def dest!: thread_unblock_Some)

lemma schedule_rescheduled: "schedule s = Some s' \<Longrightarrow> rescheduled s s'"
  by (cases "ready_list s")
    (auto simp: schedule_def next_thread_to_run_def thread_schedule_tail_def set_status_def modify_thread_def
      rescheduled_def kernel_simps bind_Some_iff Let_def intro!: exI [of _ "[]"] split: if_splits)

lemma grown_cong: "ready_list s = ready_list u \<Longrightarrow> thread_ticks s = thread_ticks u \<Longrightarrow> running s = running u \<Longrightarrow> queue_grown s s' \<longleftrightarrow> queue_grown u s'"
  "ready_list s = ready_list u \<Longrightarrow> rescheduled s s' \<longleftrightarrow> rescheduled u s'"
  "ready_list s = ready_list u \<Longrightarrow> thread_ticks s = thread_ticks u \<Longrightarrow> running s = running u \<Longrightarrow> moved s s' \<longleftrightarrow> moved u s'"
  by (simp_all add: queue_grown_def rescheduled_def moved_def)

lemma push_frames_grown: "push_frames s fs = Some s' \<Longrightarrow> queue_grown s s'"
  by (auto simp: push_frames_def dest: modify_thread_grown)

lemma thread_block_moved: "thread_block s = Some s' \<Longrightarrow> rescheduled s s'"
  by (auto simp: thread_block_def set_status_def kernel_simps bind_Some_iff
    dest!: modify_thread_grown schedule_rescheduled intro: grown_rescheduled)

lemma sema_down_loop_moved:
  assumes "sema_down_loop s x b = Some s'"
  shows "moved s s'"
proof (cases "sval (sem s x) = 0")
  case True
  then obtain t s1 where s1: "push_frames (set_sem s x (sem s x\<lparr>waiters := waiters (sem s x) @ [t]\<rparr>)) [F_sema_down x b] = Some s1"
    "thread_block s1 = Some s'" using assms by (auto simp: sema_down_loop_def bind_Some_iff Let_def)
  have "queue_grown s s1" using push_frames_grown [OF s1(1)] by (simp add: queue_grown_def set_sem_def)
  then show ?thesis using thread_block_moved [OF s1(2)] by (auto simp: moved_def intro: grown_rescheduled)
next
  case False
  then show ?thesis using assms by (auto simp: sema_down_loop_def moved_def set_sem_def)
qed

lemma sema_down_moved:
  assumes "sema_down s x = Some s'"
  shows "moved s s'"
proof -
  have "sema_down_loop (s\<lparr>intr_on := False\<rparr>) x (intr_on s) = Some s'" using assms by (auto simp: sema_down_def kernel_simps bind_Some_iff)
  then have "moved (s\<lparr>intr_on := False\<rparr>) s'" by (rule sema_down_loop_moved)
  then show ?thesis by (subst grown_cong(3) [of s "s\<lparr>intr_on := False\<rparr>"]) simp_all
qed

lemma sema_up_moved:
  assumes "sema_up s x = Some s'"
  shows "queue_grown s s'"
proof (cases "waiters (sem s x)")
  case Nil
  then show ?thesis using assms by (auto simp: sema_up_def set_sem_def)
next
  case (Cons t ts)
  then show ?thesis using assms
    by (auto simp: sema_up_def set_sem_def bind_Some_iff queue_grown_def dest!: thread_unblock_Some)
qed

lemma lock_acquire_moved:
  assumes "lock_acquire s l = Some s'"
  shows "moved s s'"
proof -
  obtain s1 where "push_frames s [F_set_holder l] = Some s1" "sema_down s1 (Lock_sema l) = Some s'"
    using assms by (auto simp: lock_acquire_def kernel_simps bind_Some_iff)
  then show ?thesis using grown_moved push_frames_grown sema_down_moved by blast
qed

lemma lock_release_moved: "lock_release s l = Some s' \<Longrightarrow> queue_grown s s'"
  by (auto simp: lock_release_def kernel_simps bind_Some_iff queue_grown_def dest!: push_frames_grown)

lemma cond_signal_moved: "cond_signal s c l = Some s' \<Longrightarrow> queue_grown s s'"
  by (auto simp: cond_signal_def kernel_simps bind_Some_iff queue_grown_def dest!: push_frames_grown split: list.splits)

lemma cond_broadcast_moved: "cond_broadcast s c l = Some s' \<Longrightarrow> queue_grown s s'"
  by (auto simp: cond_broadcast_def bind_Some_iff dest!: push_frames_grown cond_signal_moved intro: grown_trans split: if_splits)

lemma cond_wait_moved: "cond_wait s c l = Some s' \<Longrightarrow> queue_grown s s'"
  by (auto simp: cond_wait_def sema_init_def set_sem_def kernel_simps bind_Some_iff Let_def queue_grown_def dest!: push_frames_grown)

lemma thread_create_moved:
  assumes "thread_create s n p g = Some s'"
  shows "moved s s'"
proof (cases "pages s")
  case Nil
  then show ?thesis using assms by (auto simp: thread_create_def set_eax_def moved_def dest!: modify_thread_grown)
next
  case (Cons t ps)
  then obtain s1 s2 where s: "init_thread (s\<lparr>pages := ps\<rparr>) t n p = Some s1"
    "push_frames s1 [F_allocate_tid t g] = Some s2" "lock_acquire s2 TID_LOCK = Some s'"
    using assms by (auto simp: thread_create_def bind_Some_iff)
  have "queue_grown s s1" using s(1) by (auto simp: init_thread_def sema_init_def set_sem_def kernel_simps bind_Some_iff Let_def)
  then show ?thesis using s(2,3) push_frames_grown lock_acquire_moved grown_moved grown_trans by blast
qed

lemma thread_yield_moved:
  assumes "thread_yield s = Some s'"
  shows "rescheduled s s'"
proof -
  obtain cur s1 s2 where s: "push_frames s [F_intr_set (intr_on s)] = Some s1"
      "set_status (let s = s1\<lparr>intr_on := False\<rparr> in if cur \<noteq> idle_thread s then s\<lparr>ready_list := ready_list s @ [cur]\<rparr> else s) cur THREAD_READY = Some s2"
      "schedule s2 = Some s'"
    using assms by (auto simp: thread_yield_def kernel_simps bind_Some_iff Let_def)
  have "\<exists>suf. ready_list s2 = ready_list s @ suf"
    using push_frames_grown [OF s(1)] modify_thread_grown [OF s(2) [unfolded set_status_def]] by (auto simp: queue_grown_def Let_def split: if_splits)
  then show ?thesis using schedule_rescheduled [OF s(3)] rescheduled_suffix by blast
qed

lemma process_exit_grown: "process_exit s = Some s' \<Longrightarrow> queue_grown s s'"
  by (auto simp: process_exit_def bind_Some_iff queue_grown_def dest!: modify_thread_grown)

lemma thread_exit_moved:
  assumes "thread_exit s = Some s'"
  shows "rescheduled s s'"
proof -
  obtain cur s0 s1 where s: "process_exit s = Some s0" "schedule s1 = Some s'"
      "set_status (s0\<lparr>intr_on := False, all_list := remove1 cur (all_list s0)\<rparr>) cur THREAD_DYING = Some s1"
    using assms by (auto simp: thread_exit_def kernel_simps bind_Some_iff Let_def)
  have "queue_grown s0 s1" using modify_thread_grown [OF s(3) [unfolded set_status_def]] by (simp add: queue_grown_def)
  then have "queue_grown s s1" by (rule grown_trans [OF process_exit_grown [OF s(1)]])
  then show ?thesis using schedule_rescheduled [OF s(2)] by (rule grown_rescheduled)
qed

lemma timer_sleep_tail_moved:
  assumes "timer_sleep_tail s = Some s'"
  shows "rescheduled s s'"
proof -
  obtain s1 f q where s: "push_frames s [F_intr_set (intr_on s)] = Some s1" "thread_block (s1\<lparr>intr_on := f, list_threads := q\<rparr>) = Some s'"
    using assms by (auto simp: timer_sleep_tail_def kernel_simps bind_Some_iff Let_def)
  have "queue_grown s (s1\<lparr>intr_on := f, list_threads := q\<rparr>)" using push_frames_grown [OF s(1)] by (simp add: queue_grown_def)
  then show ?thesis using thread_block_moved [OF s(2)] by (rule grown_rescheduled)
qed

lemma timer_sleep_moved: "timer_sleep s n = Some s' \<Longrightarrow> queue_grown s s'"
  by (auto simp: timer_sleep_def kernel_simps bind_Some_iff dest!: modify_thread_grown push_frames_grown intro: grown_trans)

lemma allocate_tid_moved:
  assumes "allocate_tid s t g = Some s'"
  shows "queue_grown s s'"
proof -
  obtain s1 k n where s: "push_frames (s\<lparr>next_tid := n\<rparr>) [F_create_tail t g k] = Some s1" "lock_release s1 TID_LOCK = Some s'"
    using assms by (auto simp: allocate_tid_def kernel_simps bind_Some_iff Let_def)
  have "queue_grown s s1" using push_frames_grown [OF s(1)] by (simp add: queue_grown_def)
  then show ?thesis using lock_release_moved [OF s(2)] by (rule grown_trans)
qed

lemma alloc_frame_grown: "alloc_frame s t n = Some s' \<Longrightarrow> queue_grown s s'"
  by (auto simp: alloc_frame_def kernel_simps bind_Some_iff dest: modify_thread_grown)

lemma grown_bind: "m \<bind> f = Some s' \<Longrightarrow> (\<And>s1. m = Some s1 \<Longrightarrow> queue_grown s s1) \<Longrightarrow> (\<And>s1. f s1 = Some s' \<Longrightarrow> queue_grown s1 s') \<Longrightarrow> queue_grown s s'"
  by (auto simp: bind_Some_iff intro: grown_trans)

lemma create_tail_moved: "create_tail s t g k = Some s' \<Longrightarrow> queue_grown s s'"
  unfolding create_tail_def set_eax_def Let_def
  apply (erule grown_bind, erule modify_thread_grown)
  apply (erule grown_bind, erule alloc_frame_grown)
  apply (erule grown_bind, erule alloc_frame_grown)
  apply (erule grown_bind, erule alloc_frame_grown)
  apply (erule grown_bind, erule modify_thread_grown)
  apply (clarsimp simp: bind_Some_iff kernel_simps)
  apply (drule modify_thread_grown)+
  apply (drule thread_unblock_grown)
  apply (auto simp: queue_grown_def)
  done

lemma kernel_thread_moved: "kernel_thread s g = Some s' \<Longrightarrow> queue_grown s s'"
  by (auto simp: kernel_thread_def idle_begin_def kernel_simps bind_Some_iff Let_def queue_grown_def
    dest!: push_frames_grown sema_up_moved split: thread_func.splits)

lemma idle_moved: "idle_loop s = Some s' \<Longrightarrow> rescheduled s s'" "idle_hlt s = Some s' \<Longrightarrow> queue_grown s s'"
proof -
  assume "idle_loop s = Some s'"
  then obtain s1 where s: "push_frames (s\<lparr>intr_on := False\<rparr>) [F_idle_hlt] = Some s1" "thread_block s1 = Some s'"
    by (auto simp: idle_loop_def bind_Some_iff)
  have "queue_grown s s1" using push_frames_grown [OF s(1)] by (simp add: queue_grown_def)
  then show "rescheduled s s'" using thread_block_moved [OF s(2)] by (rule grown_rescheduled)
qed (auto simp: idle_hlt_def queue_grown_def dest!: push_frames_grown)

lemmas moves = sema_down_loop_moved sema_down_moved sema_up_moved lock_acquire_moved lock_release_moved cond_signal_moved
  cond_broadcast_moved cond_wait_moved thread_create_moved thread_yield_moved thread_exit_moved timer_sleep_tail_moved
  timer_sleep_moved allocate_tid_moved create_tail_moved kernel_thread_moved idle_moved

lemma run_frame_moved: "run_frame s f = Some s' \<Longrightarrow> moved s s'"
  by (cases f) (auto simp: run_frame_def set_holder_def bind_Some_iff moved_def dest!: moves)

lemma resume_moved:
  assumes "resume s = Some s'"
  shows "moved s s'"
proof -
  obtain f fs s1 where "modify_thread s (running s) (\<lambda>x. x\<lparr>frames := fs\<rparr>) = Some s1" "run_frame s1 f = Some s'"
    using assms by (fastforce simp: resume_def bind_Some_iff neq_Nil_conv split: list.splits)
  then show ?thesis using grown_moved modify_thread_grown run_frame_moved by blast
qed

lemma lock_try_acquire_moved: "lock_try_acquire s l = Some (b, s') \<Longrightarrow> queue_grown s s'"
  by (auto simp: lock_try_acquire_def sema_try_down_def set_sem_def kernel_simps bind_Some_iff queue_grown_def dest!: push_frames_grown split: if_splits)

lemma thread_start_moved:
  assumes "thread_start s n = Some s'"
  shows "moved s s'"
proof -
  obtain s1 where s: "push_frames (sema_init s (Plain n) 0) [F_intr_set True, F_call_sema_down (Plain n)] = Some s1"
      "thread_create s1 ''idle'' PRI_MIN (Idle n) = Some s'"
    using assms by (auto simp: thread_start_def bind_Some_iff)
  have "queue_grown s s1" using push_frames_grown [OF s(1)] by (simp add: queue_grown_def sema_init_def set_sem_def)
  then show ?thesis using thread_create_moved [OF s(2)] by (rule grown_moved)
qed

lemma do_call_moved: "do_call s c = Some s' \<Longrightarrow> moved s s'"
proof (cases c)
  case (C_thread_start n)
  then show "do_call s c = Some s' \<Longrightarrow> moved s s'" by (auto simp: do_call_def dest: thread_start_moved)
qed (auto simp: do_call_def thread_set_priority_def sema_try_down_def set_sem_def moved_def kernel_simps bind_Some_iff
  dest!: moves modify_thread_grown lock_try_acquire_moved)

lemma wake_loop_grown: "wake_loop s ts = Some s' \<Longrightarrow> queue_grown s s' \<and> yield_on_return s' = yield_on_return s"
proof (induction ts arbitrary: s)
  case (Cons t ts)
  then show ?case by (fastforce simp: bind_Some_iff queue_grown_def dest: thread_unblock_Some split: if_splits)
qed auto

lemma count_tick_fields [simp]:
  "ready_list (count_tick s t x) = ready_list s" "running (count_tick s t x) = running s"
  "thread_ticks (count_tick s t x) = thread_ticks s" "yield_on_return (count_tick s t x) = yield_on_return s"
  "ticks (count_tick s t x) = ticks s" "thr (count_tick s t x) = thr s" "list_threads (count_tick s t x) = list_threads s"
  by (simp_all add: count_tick_def)

lemma thread_tick_fields:
  assumes "thread_tick s = Some s'"
  shows "ready_list s' = ready_list s \<and> running s' = running s \<and> thread_ticks s' = thread_ticks s + 1 \<and> ticks s' = ticks s
    \<and> thr s' = thr s \<and> list_threads s' = list_threads s
    \<and> yield_on_return s' = (thread_ticks s + 1 \<ge> TIME_SLICE \<or> yield_on_return s)"
proof -
  obtain t x where s': "s' = (let s = count_tick s t x; s = s\<lparr>thread_ticks := thread_ticks s + 1\<rparr> in
      if thread_ticks s \<ge> TIME_SLICE then s\<lparr>yield_on_return := True\<rparr> else s)"
    using assms by (auto simp: thread_tick_def bind_Some_iff Let_def)
  show ?thesis by (simp add: s' Let_def)
qed

text \<open>The timer interrupt: at the end of a time slice the next thread runs.\<close>

lemma intr_handler_queue:
  assumes "intr_handler s = Some s'"
  shows "if thread_ticks s + 1 \<ge> TIME_SLICE then rescheduled s s'
    else (\<exists>suf. ready_list s' = ready_list s @ suf) \<and> thread_ticks s' = thread_ticks s + 1 \<and> running s' = running s"
proof -
  obtain s1 s2 where s1: "push_frames (s\<lparr>intr_on := False\<rparr>) [F_intr_set True] = Some s1"
    and s2: "timer_interrupt (s1\<lparr>in_external_intr := True, yield_on_return := False\<rparr>) = Some s2"
    and s': "(if yield_on_return s2 then thread_yield (s2\<lparr>in_external_intr := False\<rparr>) else Some (s2\<lparr>in_external_intr := False\<rparr>)) = Some s'"
    using assms by (auto simp: intr_handler_def kernel_simps bind_Some_iff Let_def)
  let ?s = "s1\<lparr>in_external_intr := True, yield_on_return := False, ticks := ticks s1 + 1\<rparr>"
  obtain s3 where s3: "thread_tick ?s = Some s3" "wake_loop s3 (list_threads s3) = Some s2"
    using s2 by (auto simp: timer_interrupt_def bind_Some_iff Let_def)
  have g: "queue_grown s s1" using push_frames_grown [OF s1] by (simp add: queue_grown_def)
  have t3: "ready_list s3 = ready_list s1 \<and> running s3 = running s1 \<and> thread_ticks s3 = thread_ticks s1 + 1
      \<and> yield_on_return s3 = (thread_ticks s1 + 1 \<ge> TIME_SLICE)"
    using thread_tick_fields [OF s3(1)] by simp
  note w = wake_loop_grown [OF s3(2)]
  have y: "yield_on_return s2 = (thread_ticks s + 1 \<ge> TIME_SLICE)" using w t3 g by (simp add: queue_grown_def)
  obtain suf where suf: "ready_list s2 = ready_list s @ suf" using w t3 g by (auto simp: queue_grown_def)
  show ?thesis
  proof (cases "thread_ticks s + 1 \<ge> TIME_SLICE")
    case True
    then have "rescheduled (s2\<lparr>in_external_intr := False\<rparr>) s'" using s' y thread_yield_moved by auto
    then have "rescheduled s s'" by (rule rescheduled_suffix [rotated]) (simp add: suf)
    then show ?thesis using True by simp
  next
    case False
    then have "s' = s2\<lparr>in_external_intr := False\<rparr>" using s' y by simp
    then show ?thesis using False suf w t3 g by (simp add: queue_grown_def)
  qed
qed

section \<open>Bounded waiting\<close>

lemma do_event_queue:
  assumes "do_event s e = Some s'"
  shows "rescheduled s s' \<or> ((\<exists>suf. ready_list s' = ready_list s @ suf)
    \<and> (if e = Tick then thread_ticks s + 1 < TIME_SLICE \<and> thread_ticks s' = thread_ticks s + 1 else thread_ticks s' = thread_ticks s))"
proof (cases e)
  case Resume
  then show ?thesis using assms resume_moved [of s s'] by (auto simp: moved_def queue_grown_def)
next
  case (Call c)
  then show ?thesis using assms do_call_moved [of s c s'] by (auto simp: moved_def queue_grown_def kernel_simps bind_Some_iff)
next
  case Tick
  then show ?thesis using assms intr_handler_queue [of s s'] by (auto simp: kernel_simps bind_Some_iff split: if_splits)
qed

lemma do_event_ticks: "do_event s e = Some s' \<Longrightarrow> thread_ticks s < TIME_SLICE \<Longrightarrow> thread_ticks s' < TIME_SLICE"
  using do_event_queue [of s e s'] by (auto simp: rescheduled_def TIME_SLICE_def split: if_splits)

lemma step_do_event: "step s s' \<Longrightarrow> \<exists>e. do_event s e = Some s'"
proof (induction rule: step.induct)
  case (resume s s')
  then show ?case by (auto intro: exI [of _ Resume])
next
  case (call s x c s')
  then show ?case by (auto intro: exI [of _ "Call c"])
next
  case (interrupt s s')
  then show ?case by (auto intro: exI [of _ Tick])
qed

lemma reachable_ticks: "reachable s \<Longrightarrow> thread_ticks s < TIME_SLICE"
proof (induction rule: reachable.induct)
  case (init t ps heap v s)
  then show ?case by (auto simp: thread_init_def boot_state_def lock_init_def init_thread_def sema_init_def set_sem_def
      set_status_def modify_thread_def kernel_simps Let_def TIME_SLICE_def bind_Some_iff)
next
  case (step s s')
  then show ?case using step_do_event do_event_ticks by blast
qed

lemma unat_tick: "(v :: u32) + 1 < TIME_SLICE \<Longrightarrow> v < TIME_SLICE \<Longrightarrow> unat (v + 1) = unat v + 1 \<and> unat v < 3"
  by (auto simp: TIME_SLICE_def word_less_nat_alt unat_word_ariths)

lemma rescheduled_nth:
  assumes "rescheduled s s'" "k < length (ready_list s)"
  shows "if k = 0 then running s' = ready_list s ! 0 else k - 1 < length (ready_list s') \<and> ready_list s' ! (k - 1) = ready_list s ! k"
proof -
  obtain suf where s: "ready_list s @ suf = running s' # ready_list s'" using assms by (auto simp: rescheduled_def split: if_splits)
  have "(ready_list s @ suf) ! k = ready_list s ! k" using assms(2) by (simp add: nth_append)
  then show ?thesis using s assms(2) by (cases k) (auto dest!: arg_cong [where f = length])
qed

lemma waits_at_most:
  "k < length (ready_list s) \<Longrightarrow> thread_ticks s < TIME_SLICE \<Longrightarrow> run_events s es = Some s' \<Longrightarrow>
   4 * k + (4 - unat (thread_ticks s)) \<le> count_list es Tick \<Longrightarrow>
   \<exists>i u. run_events s (take i es) = Some u \<and> running u = ready_list s ! k"
proof (induction es arbitrary: s k)
  case Nil
  then show ?case by (simp add: TIME_SLICE_def word_less_nat_alt)
next
  case (Cons e es)
  obtain s1 where s1: "do_event s e = Some s1" "run_events s1 es = Some s'" using Cons.prems(3) by (auto simp: bind_Some_iff)
  note t1 = do_event_ticks [OF s1(1) Cons.prems(2)]
  have go: "\<exists>i u. run_events s (take i (e # es)) = Some u \<and> running u = a" if "\<exists>i u. run_events s1 (take i es) = Some u \<and> running u = a" for a
    using that s1(1) by (metis bind.bind_lunit run_events.simps(2) take_Suc_Cons)
  have tt: "unat (thread_ticks s) < 4" using Cons.prems(2) by (simp add: TIME_SLICE_def word_less_nat_alt)
  show ?case
  proof (cases "rescheduled s s1")
    case True
    note r = rescheduled_nth [OF True Cons.prems(1)]
    show ?thesis
    proof (cases "k = 0")
      case True
      then show ?thesis using r s1(1) by (intro exI [of _ 1] exI [of _ s1]) simp
    next
      case False
      have "thread_ticks s1 = 0" using True by (simp add: rescheduled_def)
      then have "4 * (k - 1) + (4 - unat (thread_ticks s1)) \<le> count_list es Tick"
        using Cons.prems(4) False tt by (simp split: if_splits)
      then show ?thesis using r False go Cons.IH [OF _ t1 s1(2), of "k - 1"] by simp
    qed
  next
    case False
    then obtain suf where q: "ready_list s1 = ready_list s @ suf"
      "if e = Tick then thread_ticks s + 1 < TIME_SLICE \<and> thread_ticks s1 = thread_ticks s + 1 else thread_ticks s1 = thread_ticks s"
      using do_event_queue [OF s1(1)] by blast
    have k: "k < length (ready_list s1)" "ready_list s1 ! k = ready_list s ! k" using q(1) Cons.prems(1) by (simp_all add: nth_append)
    have "4 * k + (4 - unat (thread_ticks s1)) \<le> count_list es Tick"
      using q(2) Cons.prems(4) unat_tick [OF _ Cons.prems(2)] tt by (auto split: if_splits)
    then show ?thesis using k go Cons.IH [OF k(1) t1 s1(2)] by simp
  qed
qed

end
