(* ===== verification/Threads_Properties.thy ===== *)
theory Threads_Properties
  imports Threads_Fairness
begin

text \<open>
  What the invariant says about threads, locks, semaphores and sleeping in every reachable state.
\<close>

section \<open>The timer interrupt\<close>

lemma thread_yield_total:
  assumes i: "kinv [] s"
  shows "\<exists>s'. thread_yield s = Some s'"
proof -
  note I = kinv_atD [OF kinvD(1) [OF i], unfolded stk_nil]
  obtain x where x: "thr s (running s) = Some x" "status x = THREAD_RUNNING" "tmagic x = THREAD_MAGIC"
    using running_thread(1) [OF i] by blast
  have r0: "running s \<noteq> 0" and e: "\<not> in_external_intr s" using I(1) x by (auto simp: mem_ok_def)
  let ?c = "running s" and ?x = "x\<lparr>frames := F_intr_set (intr_on s) # frames x, status := THREAD_READY\<rparr>"
  define s1 where "s1 = s\<lparr>thr := (thr s)(?c \<mapsto> ?x), intr_on := False, ready_list := ready_list s @ (if ?c \<noteq> idle_thread s then [?c] else [])\<rparr>"
  have y: "thread_yield s = schedule s1"
    using x r0 e by (simp add: thread_yield_def thread_current_def is_thread_def push_frames_def set_status_def modify_thread_def
      s1_def kernel_simps Let_def) (auto intro!: arg_cong [where f = schedule] kernel.equality)
  have f: "thr s1 = (thr s)(?c \<mapsto> ?x)" "\<not> intr_on s1" "running s1 = ?c" "idle_thread s1 = idle_thread s"
    "ready_list s1 = ready_list s @ (if ?c \<noteq> idle_thread s then [?c] else [])" by (simp_all add: s1_def)
  define n where "n = (if ready_list s1 = [] then idle_thread s1 else hd (ready_list s1))"
  have "n \<noteq> 0 \<and> (\<exists>z. thr s1 n = Some z \<and> tmagic z = THREAD_MAGIC)"
  proof (cases "n = ?c")
    case True
    then show ?thesis using r0 f(1) x(3) by auto
  next
    case False
    then have "n \<in> set (ready_list s)" using f(4,5) by (cases "ready_list s") (auto simp: n_def split: if_splits)
    then have "st s n = Some THREAD_READY" using I(3) by (auto simp: ready_ok_def)
    then obtain z where z: "thr s n = Some z" by (auto simp: st_def)
    then show ?thesis using False f(1) I(1) by (auto simp: mem_ok_def)
  qed
  then obtain z where z: "n \<noteq> 0" "thr s1 n = Some z" "tmagic z = THREAD_MAGIC" by blast
  obtain s2 where n: "next_thread_to_run s1 = (n, s2)" "thr s2 = thr s1" "running s2 = running s1" "intr_on s2 = intr_on s1" "initial_thread s2 = initial_thread s1"
    by (cases "ready_list s1 = []") (auto simp: next_thread_to_run_def n_def)
  have "\<exists>s'. schedule s1 = Some s'"
    using n f z r0 by (auto simp: schedule_def thread_schedule_tail_def set_status_def modify_thread_def is_thread_def Let_def bind_eq_None_conv)
  then show ?thesis by (simp add: y)
qed

text \<open>The sleepers a tick wakes are the first ones of the list, up to the first that still has to sleep.\<close>

lemma wake_loop_result:
  "wake_loop s ts = Some s' \<Longrightarrow> distinct ts \<Longrightarrow>
   list_threads s' = dropWhile (\<lambda>t. tts s t \<le> ticks s) ts \<and>
   ready_list s' = ready_list s @ takeWhile (\<lambda>t. tts s t \<le> ticks s) ts \<and> running s' = running s"
proof (induction ts arbitrary: s)
  case (Cons t ts)
  obtain x where x: "thr s t = Some x" using Cons.prems(1) by (auto simp: bind_Some_iff)
  have tx: "tts s t = ticks_to_sleep x" using x by (simp add: tts_def)
  show ?case
  proof (cases "ticks s < ticks_to_sleep x")
    case True
    then show ?thesis using Cons.prems(1) x tx by auto
  next
    case False
    then obtain s1 where s1: "thread_unblock s t = Some s1" "wake_loop s1 ts = Some s'"
      using Cons.prems(1) x by (auto simp: bind_Some_iff)
    have e: "s1 = s\<lparr>ready_list := ready_list s @ [t], thr := (thr s)(t \<mapsto> x\<lparr>status := THREAD_READY\<rparr>)\<rparr>"
      using thread_unblock_Some [OF s1(1)] x by auto
    have "tts s1 = tts s" "ticks s1 = ticks s" using x by (auto simp: e tts_def fun_eq_iff)
    then show ?thesis using Cons.IH [OF s1(2)] Cons.prems(2) False tx by (simp add: e)
  qed
qed auto

lemma wake_loop_total:
  "distinct ts \<Longrightarrow> (\<And>t. t \<in> set ts \<Longrightarrow> \<exists>x. thr s t = Some x \<and> t \<noteq> 0 \<and> tmagic x = THREAD_MAGIC \<and> status x = THREAD_BLOCKED) \<Longrightarrow>
   \<exists>s'. wake_loop s ts = Some s'"
proof (induction ts arbitrary: s)
  case (Cons t ts)
  obtain x where x: "thr s t = Some x" "t \<noteq> 0" "tmagic x = THREAD_MAGIC" "status x = THREAD_BLOCKED"
    using Cons.prems(2) [of t] by auto
  note u = thread_unblock_thr [OF x]
  let ?s = "s\<lparr>ready_list := ready_list s @ [t], thr := (thr s)(t \<mapsto> x\<lparr>status := THREAD_READY\<rparr>)\<rparr>"
  have "\<exists>s'. wake_loop ?s ts = Some s'"
  proof (rule Cons.IH)
    fix v assume v: "v \<in> set ts"
    then have "v \<noteq> t" using Cons.prems(1) by auto
    then show "\<exists>x. thr ?s v = Some x \<and> v \<noteq> 0 \<and> tmagic x = THREAD_MAGIC \<and> status x = THREAD_BLOCKED"
      using Cons.prems(2) [of v] v by auto
  qed (use Cons.prems(1) in simp)
  then show ?case using x(1) u by auto
qed simp

text \<open>The state in which the handler leaves the machine before it may yield.\<close>

lemma intr_handler_split:
  assumes i: "kinv [] s"
  shows "\<exists>s2. kinv [] s2 \<and> intr_handler s = (if yield_on_return s2 then thread_yield s2 else Some s2)
    \<and> running s2 = running s \<and> list_threads s2 = dropWhile (\<lambda>t. tts s t \<le> ticks s + 1) (list_threads s)
    \<and> ready_list s2 = ready_list s @ takeWhile (\<lambda>t. tts s t \<le> ticks s + 1) (list_threads s)"
proof -
  have i1: "kinv [] (s\<lparr>intr_on := False\<rparr>)" by (rule kinv_cong [OF i]) simp_all
  obtain x where x: "thr s (running s) = Some x" "status x = THREAD_RUNNING" "tmagic x = THREAD_MAGIC" "running s \<noteq> 0"
    using running_thread(1) [OF i] kinv_atD(1) [OF kinvD(1) [OF i]] unfolding mem_ok_def by metis
  define s1 where "s1 = s\<lparr>intr_on := False, thr := (thr s)(running s \<mapsto> x\<lparr>frames := [F_intr_set True] @ frames x\<rparr>)\<rparr>"
  have p: "push_frames (s\<lparr>intr_on := False\<rparr>) [F_intr_set True] = Some s1" using x(1) by (simp add: push_frames_def modify_thread_def s1_def)
  have k: "kinv [] s1" by (rule push_intr_inv [OF i1 p])
  note I = kinv_atD [OF kinvD(1) [OF k], unfolded stk_nil]
  let ?s = "s1\<lparr>in_external_intr := True, yield_on_return := False, ticks := ticks s1 + 1\<rparr>"
  have s1: "thr s1 = (thr s)(running s \<mapsto> x\<lparr>frames := [F_intr_set True] @ frames x\<rparr>)" "running s1 = running s" "ticks s1 = ticks s"
    "list_threads s1 = list_threads s" "ready_list s1 = ready_list s" "\<not> in_external_intr s1"
    using I(1) by (simp_all add: s1_def mem_ok_def)
  have tts: "tts s1 = tts s" using x(1) by (auto simp: s1_def tts_def fun_eq_iff)
  obtain s3 where s3: "thread_tick ?s = Some s3"
    using x s1(1,2) by (simp add: thread_tick_def thread_current_def is_thread_def Let_def)
  note f3 = thread_tick_fields [OF s3]
  have d: "distinct (list_threads s1)" using I(5) by (simp add: sleep_ok_def)
  have "\<exists>s2. wake_loop s3 (list_threads s3) = Some s2"
  proof (rule wake_loop_total)
    fix t assume "t \<in> set (list_threads s3)"
    then have "st s1 t = Some THREAD_BLOCKED" using f3 I(5) by (auto simp: sleep_ok_def)
    then show "\<exists>x. thr s3 t = Some x \<and> t \<noteq> 0 \<and> tmagic x = THREAD_MAGIC \<and> status x = THREAD_BLOCKED"
      using f3 I(1) by (auto simp: st_def mem_ok_def)
  qed (use d f3 in simp)
  then obtain s2 where s2: "wake_loop s3 (list_threads s3) = Some s2" by blast
  have "tts s3 = tts s" using f3 tts by (simp add: tts_def fun_eq_iff)
  then have w: "list_threads s2 = dropWhile (\<lambda>t. tts s t \<le> ticks s + 1) (list_threads s)"
    "ready_list s2 = ready_list s @ takeWhile (\<lambda>t. tts s t \<le> ticks s + 1) (list_threads s)" "running s2 = running s"
    using wake_loop_result [OF s2] d f3 s1 by simp_all
  have h: "intr_handler s = (if yield_on_return s2 then thread_yield (s2\<lparr>in_external_intr := False\<rparr>) else Some (s2\<lparr>in_external_intr := False\<rparr>))"
    using p s1(6) s3 s2 by (simp add: intr_handler_def timer_interrupt_def Let_def)
  have t3: "idle_thread s3 = idle_thread s1 \<and> pages s3 = pages s1 \<and> sem s3 = sem s1 \<and> holder s3 = holder s1"
    using thread_tick_Some [OF s3] by auto
  have "kinv [] (s3\<lparr>list_threads := list_threads s3, in_external_intr := False\<rparr>)"
    by (intro kinv_cong [OF k]) (use f3 t3 s1(6) in simp_all)
  then have "kinv [] (s2\<lparr>in_external_intr := False\<rparr>)" by (rule wake_loop_inv [OF s2])
  then show ?thesis using h w by (intro exI [of _ "s2\<lparr>in_external_intr := False\<rparr>"]) simp
qed

lemma dropWhile_sorted:
  assumes "sorted_wrt (\<lambda>a b. f a \<le> f b) xs"
  shows "dropWhile (\<lambda>t. f t \<le> (k :: int)) xs = filter (\<lambda>t. k < f t) xs" "takeWhile (\<lambda>t. f t \<le> k) xs = filter (\<lambda>t. f t \<le> k) xs"
proof -
  have "dropWhile (\<lambda>t. f t \<le> k) xs = filter (\<lambda>t. k < f t) xs \<and> takeWhile (\<lambda>t. f t \<le> k) xs = filter (\<lambda>t. f t \<le> k) xs"
    using assms
  proof (induction xs)
    case (Cons a xs)
    show ?case
    proof (cases "f a \<le> k")
      case False
      then have "\<forall>b \<in> set xs. k < f b" using Cons.prems by fastforce
      then have "filter (\<lambda>t. k < f t) xs = xs" "filter (\<lambda>t. f t \<le> k) xs = []" by (auto simp: filter_id_conv filter_empty_conv)
      then show ?thesis using False by simp
    qed (use Cons in simp)
  qed simp
  then show "dropWhile (\<lambda>t. f t \<le> k) xs = filter (\<lambda>t. k < f t) xs" "takeWhile (\<lambda>t. f t \<le> k) xs = filter (\<lambda>t. f t \<le> k) xs" by simp_all
qed

lemma thread_yield_sleepers:
  assumes i: "kinv [] s" and d: "thread_yield s = Some s'"
  shows "list_threads s' = list_threads s"
proof -
  obtain cur s1 s2 where s: "push_frames s [F_intr_set (intr_on s)] = Some s1"
      "set_status (let s = s1\<lparr>intr_on := False\<rparr> in if cur \<noteq> idle_thread s then s\<lparr>ready_list := ready_list s @ [cur]\<rparr> else s) cur THREAD_READY = Some s2"
      "schedule s2 = Some s'"
    using d by (auto simp: thread_yield_def kernel_simps bind_Some_iff Let_def)
  have e: "list_threads s2 = list_threads s \<and> running s2 = running s"
    using s(1,2) by (auto simp: push_frames_def set_status_def modify_thread_def bind_Some_iff Let_def)
  then show ?thesis using schedule_switched [OF s(3)] running_thread(3) [OF i] by (auto simp: switched_def)
qed

section \<open>Properties\<close>

text \<open>
  C7: The \<open>elem\<close> member of a thread is never used for two lists at once.  In every state
  the kernel can reach exactly the current thread is running, the ready list holds each ready thread
  once (the idle thread, which never waits there, apart), only blocked threads wait for a semaphore or sleep, and no
  thread waits for two semaphores or waits and sleeps.
\<close>

theorem thread_lists_disjoint:
  assumes "reachable s"
  shows "(\<forall>t. st s t = Some THREAD_RUNNING \<longleftrightarrow> t = running s) \<and> distinct (ready_list s)
    \<and> (\<forall>t. t \<in> set (ready_list s) \<longrightarrow> st s t = Some THREAD_READY)
    \<and> (\<forall>t. st s t = Some THREAD_READY \<longrightarrow> t \<in> set (ready_list s) \<or> idle_stack (fr s t))
    \<and> (\<forall>x. distinct (waiters (sem s x)) \<and> (\<forall>t \<in> set (waiters (sem s x)). st s t = Some THREAD_BLOCKED))
    \<and> distinct (list_threads s) \<and> (\<forall>t \<in> set (list_threads s). st s t = Some THREAD_BLOCKED)
    \<and> (\<forall>x y. x \<noteq> y \<longrightarrow> set (waiters (sem s x)) \<inter> set (waiters (sem s y)) = {})
    \<and> (\<forall>x. set (waiters (sem s x)) \<inter> set (list_threads s) = {})"
proof -
  note i = reachable_inv [OF assms]
  note I = kinv_atD [OF kinvD(1) [OF i], unfolded stk_nil] and r = kinvD(2) [OF i]
  have w: "down_top (fr s t) = Some x" if "t \<in> set (waiters (sem s x))" for t x using I(4) that by (auto simp: wait_ok_def)
  have z: "down_top (fr s t) = None" if t: "t \<in> set (list_threads s)" for t
  proof -
    obtain b fs where "fr s t = F_intr_set b # fs" "list_all plain fs" using I(5) t by (auto simp: sleep_ok_def)
    then show ?thesis using plain_tops(1) by simp
  qed
  have ww: "x = y" if "t \<in> set (waiters (sem s x))" "t \<in> set (waiters (sem s y))" for t x y
    using w [OF that(1)] w [OF that(2)] by simp
  have wz: "t \<notin> set (list_threads s)" if "t \<in> set (waiters (sem s x))" for t x using w [OF that] z [of t] by auto
  show ?thesis
  proof (intro conjI)
    show "\<forall>t. st s t = Some THREAD_RUNNING \<longleftrightarrow> t = running s" using I(2) r by blast
    show "distinct (ready_list s)" "\<forall>t. t \<in> set (ready_list s) \<longrightarrow> st s t = Some THREAD_READY"
      "\<forall>t. st s t = Some THREAD_READY \<longrightarrow> t \<in> set (ready_list s) \<or> idle_stack (fr s t)"
      using I(3) by (auto simp: ready_ok_def)
    show "\<forall>x. distinct (waiters (sem s x)) \<and> (\<forall>t \<in> set (waiters (sem s x)). st s t = Some THREAD_BLOCKED)"
      using I(4) by (simp add: wait_ok_def)
    show "distinct (list_threads s)" "\<forall>t \<in> set (list_threads s). st s t = Some THREAD_BLOCKED"
      using I(5) by (auto simp: sleep_ok_def)
    show "\<forall>x y. x \<noteq> y \<longrightarrow> set (waiters (sem s x)) \<inter> set (waiters (sem s y)) = {}" using ww by blast
    show "\<forall>x. set (waiters (sem s x)) \<inter> set (list_threads s) = {}" using wz by blast
  qed
qed

text \<open>A thread possesses a lock from taking the unit of its semaphore until it gives it back.\<close>

definition possesses :: "kernel \<Rightarrow> nat \<Rightarrow> nat \<Rightarrow> bool" where
  "possesses s l t \<longleftrightarrow> t \<noteq> 0 \<and> (holder s l = t \<or> own_top (fr s t) = Some l)"

text \<open>
  C2: Mutual exclusion: at every point of every interleaving, a lock is in the possession of at most one thread,
  which is its holder, or is about to become or has just been it; and then no unit is left in
  the lock's semaphore.
\<close>

theorem lock_exclusive:
  assumes "reachable s" "possesses s l t" "possesses s l u"
  shows "t = u \<and> sval (sem s (Lock_sema l)) = 0"
proof -
  note i = reachable_inv [OF assms(1)]
  note I = kinv_atD [OF kinvD(1) [OF i], unfolded stk_nil]
  have fin: "finite (owners (fr s) l)"
  proof (rule finite_subset)
    show "owners (fr s) l \<subseteq> {t. fr s t \<noteq> []}" by (auto simp: owners_def)
    show "finite {t. fr s t \<noteq> []}" using I(7) by (simp add: stack_ok_def)
  qed
  have sum: "card (owners (fr s) l) + (if holder s l \<noteq> 0 then 1 else 0) + unat (sval (sem s (Lock_sema l))) = 1"
    using I(10) by (simp add: lock_ok_def)
  have pos: "card (owners (fr s) l) \<noteq> 0" if "own_top (fr s v) = Some l" for v using that fin by (auto simp: owners_def)
  have one: "v = w" if "card (owners (fr s) l) \<le> 1" "own_top (fr s v) = Some l" "own_top (fr s w) = Some l" for v w
    using that fin card_le_Suc0_iff_eq [OF fin] by (auto simp: owners_def)
  have "unat (sval (sem s (Lock_sema l))) = 0 \<and> t = u"
    using assms(2,3) sum pos [of t] pos [of u] one [of t u] unfolding possesses_def by (auto split: if_splits)
  then show ?thesis by (simp add: unat_eq_0)
qed

text \<open>
  C8: No wake-up is lost: while threads wait for a semaphore, every unit it has is matched by a
  thread that was woken for it and has not looked at it yet.
\<close>

theorem no_lost_wakeup:
  assumes "reachable s" "waiters (sem s x) \<noteq> []"
  shows "unat (sval (sem s x)) \<le> card {t. down_top (fr s t) = Some x \<and> st s t \<noteq> Some THREAD_BLOCKED}"
  using kinv_atD(9) [OF kinvD(1) [OF reachable_inv [OF assms(1)]]] assms(2) by (simp add: wake_ok_def woken_def)

text \<open>
  C16: The timer interrupt never fails an assertion.  It wakes every sleeping thread whose time
  has come and no other.
\<close>

theorem timer_interrupt_wakes:
  assumes "reachable s"
  shows "\<exists>s'. intr_handler s = Some s' \<and> list_threads s' = filter (\<lambda>t. ticks s + 1 < tts s t) (list_threads s)
    \<and> (\<forall>t \<in> set (list_threads s). tts s t \<le> ticks s + 1 \<longrightarrow> st s' t \<in> {Some THREAD_READY, Some THREAD_RUNNING})"
proof -
  note i = reachable_inv [OF assms]
  have so: "sorted_wrt (\<lambda>a b. tts s a \<le> tts s b) (list_threads s)"
    using kinv_atD(5) [OF kinvD(1) [OF i]] by (simp add: sleep_ok_def)
  obtain s2 where s2: "kinv [] s2" "intr_handler s = (if yield_on_return s2 then thread_yield s2 else Some s2)"
    "list_threads s2 = filter (\<lambda>t. ticks s + 1 < tts s t) (list_threads s)"
    "ready_list s2 = ready_list s @ filter (\<lambda>t. tts s t \<le> ticks s + 1) (list_threads s)"
    using intr_handler_split [OF i] dropWhile_sorted [OF so] by auto
  obtain s' where s': "intr_handler s = Some s'" using thread_yield_total [OF s2(1)] s2(2) by (cases "yield_on_return s2") auto
  have l: "list_threads s' = list_threads s2" using s' s2(2) thread_yield_sleepers [OF s2(1)] by (auto split: if_splits)
  have "st s' t \<in> {Some THREAD_READY, Some THREAD_RUNNING}" if t: "t \<in> set (ready_list s2)" for t
  proof -
    have "kinv [] s'" by (rule intr_handler_inv [OF i s'])
    then have "t \<in> set (ready_list s') \<Longrightarrow> st s' t = Some THREAD_READY" "st s' (running s') = Some THREAD_RUNNING"
      using kinv_atD(3) [OF kinvD(1)] kinvD(2) by (auto simp: ready_ok_def)
    moreover have "t \<in> set (ready_list s') \<or> t = running s'"
    proof (cases "yield_on_return s2")
      case True
      then have "rescheduled s2 s'" using s' s2(2) thread_yield_moved by simp
      then obtain suf where "if ready_list s2 @ suf = [] then ready_list s' = [] else ready_list s2 @ suf = running s' # ready_list s'"
        unfolding rescheduled_def by blast
      then have "ready_list s2 @ suf = running s' # ready_list s'" using t by (auto split: if_splits)
      then show ?thesis using t by (metis Un_iff set_ConsD set_append)
    qed (use s' s2(2) t in simp)
    ultimately show ?thesis by blast
  qed
  then show ?thesis using s' l s2(3,4) by auto
qed

text \<open>
  C9: No ready thread starves: whatever the threads do, the thread at position \<open>k\<close> of the ready list gets the
  processor before \<open>k + 1\<close> time slices of timer interrupts have been handled.
\<close>

theorem ready_thread_runs:
  assumes "reachable s" "k < length (ready_list s)" "run_events s es = Some s'"
    "(k + 1) * unat TIME_SLICE \<le> count_list es Tick"
  shows "\<exists>i u. run_events s (take i es) = Some u \<and> running u = ready_list s ! k"
proof (rule waits_at_most [OF assms(2) reachable_ticks [OF assms(1)] assms(3)])
  show "4 * k + (4 - unat (thread_ticks s)) \<le> count_list es Tick" using assms(4) by (simp add: TIME_SLICE_def)
qed

section \<open>Sample runs\<close>

definition sample_boot :: kernel where
  "sample_boot = boot_state 1 [2, 3, 4] 5 (\<lambda>_. 0)"

definition sample_run :: "event list \<Rightarrow> kernel option" where
  "sample_run es = thread_init sample_boot \<bind> (\<lambda>s. run_events s es)"

lemma sample_run_reachable:
  assumes "sample_run es = Some s"
  shows "reachable s"
proof -
  obtain s0 where s0: "thread_init (boot_state 1 [2, 3, 4] 5 (\<lambda>_. 0)) = Some s0" "run_events s0 es = Some s"
    using assms by (auto simp: sample_run_def sample_boot_def bind_Some_iff)
  have "reachable s0" by (rule reachable.init [OF _ _ _ s0(1)]) simp_all
  then show ?thesis by (rule run_events_reachable [OF _ s0(2)])
qed

text \<open>The first thread creates a second one; it waits for a semaphore, takes a lock, or is interrupted.\<close>

definition create_events :: "event list" where
  "create_events = [Call (C_thread_create ''a'' 31 0), Resume, Resume, Resume, Resume, Call (C_intr_set_level True)]"

definition slice_events :: "event list" where
  "slice_events = [Tick, Resume, Tick, Resume, Tick, Resume, Tick]"

lemma sample_runs:
  "do {
     s \<leftarrow> sample_run create_events;
     s' \<leftarrow> run_events s slice_events;
     w \<leftarrow> run_events s [Call (C_sema_down (Plain 0))];
     z \<leftarrow> run_events s [Call (C_timer_sleep 1), Resume];
     Some ((running s, ready_list s), running s', (waiters (sem w (Plain 0)), running w), (list_threads z, tts z 1, ticks z, running z))
   } = Some ((1, [2]), 2, ([1], 2), ([1], 1, 0, 2))"
  by code_simp

lemma sample_lock: "map_option (\<lambda>s. (holder s 1, fr s 1)) (sample_run [Call (C_lock_acquire 1), Resume]) = Some (1, [])"
  by code_simp

lemma sample_states:
  obtains s s' w z where "reachable s" "running s = 1" "ready_list s = [2]" "run_events s slice_events = Some s'" "running s' = 2"
    "reachable w" "waiters (sem w (Plain 0)) = [1]" "running w = 2"
    "reachable z" "list_threads z = [1]" "tts z 1 = 1" "ticks z = 0"
proof -
  obtain s s' w z where s: "sample_run create_events = Some s" "run_events s slice_events = Some s'"
      "run_events s [Call (C_sema_down (Plain 0))] = Some w" "run_events s [Call (C_timer_sleep 1), Resume] = Some z"
    and f: "running s = 1" "ready_list s = [2]" "running s' = 2" "waiters (sem w (Plain 0)) = [1]" "running w = 2"
      "list_threads z = [1]" "tts z 1 = 1" "ticks z = 0"
    using sample_runs by (auto simp: bind_Some_iff simp del: run_events.simps One_nat_def)
  note r = sample_run_reachable [OF s(1)]
  show thesis by (rule that [OF r f(1,2) s(2) f(3) _ f(4,5) _ f(6-8)]) (use run_events_reachable [OF r] s in blast)+
qed

theorem thread_lists_disjoint_witness:
  "\<exists>s. reachable s \<and> ready_list s = [2] \<and> running s = 1 \<and> st s 2 = Some THREAD_READY \<and> (\<forall>x. 2 \<notin> set (waiters (sem s x)))"
proof -
  obtain s where s: "reachable s" "running s = 1" "ready_list s = [2]" using sample_states by metis
  note t = thread_lists_disjoint [OF s(1)]
  have r: "st s 2 = Some THREAD_READY" using t s(3) by simp
  have "2 \<notin> set (waiters (sem s x))" for x
  proof
    assume "2 \<in> set (waiters (sem s x))"
    then have "st s 2 = Some THREAD_BLOCKED" using t by blast
    then show False using r by simp
  qed
  then show ?thesis using s r by blast
qed

theorem lock_exclusive_witness:
  "\<exists>s. reachable s \<and> possesses s 1 1 \<and> (\<forall>u. possesses s 1 u \<longrightarrow> u = 1)"
proof -
  obtain s where s: "sample_run [Call (C_lock_acquire 1), Resume] = Some s" "holder s 1 = 1" using sample_lock by auto
  have r: "reachable s" by (rule sample_run_reachable [OF s(1)])
  have p: "possesses s 1 1" using s(2) by (simp add: possesses_def)
  have "u = 1" if "possesses s 1 u" for u using lock_exclusive [OF r that p] by simp
  then show ?thesis using r p by blast
qed

theorem no_lost_wakeup_witness:
  "\<exists>s. reachable s \<and> waiters (sem s (Plain 0)) = [1] \<and>
     unat (sval (sem s (Plain 0))) \<le> card {t. down_top (fr s t) = Some (Plain 0) \<and> st s t \<noteq> Some THREAD_BLOCKED}"
proof -
  obtain w where w: "reachable w" "waiters (sem w (Plain 0)) = [1]" using sample_states by metis
  then show ?thesis using no_lost_wakeup [OF w(1), of "Plain 0"] by auto
qed

theorem timer_interrupt_wakes_witness:
  "\<exists>s s'. reachable s \<and> list_threads s = [1] \<and> intr_handler s = Some s' \<and> list_threads s' = []
     \<and> st s' 1 \<in> {Some THREAD_READY, Some THREAD_RUNNING}"
proof -
  obtain z where z: "reachable z" "list_threads z = [1]" "tts z 1 = 1" "ticks z = 0" using sample_states by metis
  obtain s' where "intr_handler z = Some s'" "list_threads s' = []" "st s' 1 \<in> {Some THREAD_READY, Some THREAD_RUNNING}"
    using timer_interrupt_wakes [OF z(1)] z by auto
  then show ?thesis using z(1,2) by blast
qed

theorem ready_thread_runs_witness:
  "\<exists>s i u. reachable s \<and> ready_list s = [2] \<and> run_events s (take i slice_events) = Some u \<and> running u = 2"
proof -
  obtain s s' where s: "reachable s" "ready_list s = [2]" "run_events s slice_events = Some s'" using sample_states by metis
  have "\<exists>i u. run_events s (take i slice_events) = Some u \<and> running u = ready_list s ! 0"
    by (rule ready_thread_runs [OF s(1) _ s(3)]) (simp_all add: s(2) slice_events_def TIME_SLICE_def)
  then show ?thesis using s by auto
qed

end
