(* ===== verification/Lib_Arithmetic.thy ===== *)
theory Lib_Arithmetic
  imports Pintos_Prelude "HOL-Library.Signed_Division"
begin

text \<open>
  64-bit division on a 32-bit machine (\<open>lib/arithmetic.c\<close>).  \<open>None\<close> is the divide error of the \<open>DIVL\<close>
  instruction, a division by zero, or a signed overflow.
\<close>

section \<open>The routines\<close>

text \<open>The instruction divides the 64-bit number by the 32-bit one and traps when the quotient does not fit.\<close>

definition divl :: "u64 \<Rightarrow> u32 \<Rightarrow> u32 option" where
  "divl n d = (if d = 0 \<or> unat n div unat d \<ge> 2 ^ 32 then None else Some (of_nat (unat n div unat d)))"

definition nlz :: "u32 \<Rightarrow> nat" where
  "nlz x = (
     let n = 0;
         (n, x) = (if x \<le> 0x0000FFFF then (n + 16, push_bit 16 x) else (n, x));
         (n, x) = (if x \<le> 0x00FFFFFF then (n + 8, push_bit 8 x) else (n, x));
         (n, x) = (if x \<le> 0x0FFFFFFF then (n + 4, push_bit 4 x) else (n, x));
         (n, x) = (if x \<le> 0x3FFFFFFF then (n + 2, push_bit 2 x) else (n, x))
     in if x \<le> 0x7FFFFFFF then n + 1 else n)"

definition udiv64 :: "u64 \<Rightarrow> u64 \<Rightarrow> u64 option" where
  "udiv64 n d =
     (if drop_bit 32 d = 0 then do {
        let b = (push_bit 32 1 :: u64);
        let n1 = (ucast (drop_bit 32 n) :: u32);
        let n0 = (ucast n :: u32);
        let d0 = (ucast d :: u32);
        ASSERT (d0 \<noteq> 0);
        q \<leftarrow> divl (b * ucast (n1 mod d0) + ucast n0) d0;
        Some (ucast q + b * ucast (n1 div d0))
      }
      else if n < d then Some 0
      else do {
        let d1 = (ucast (drop_bit 32 d) :: u32);
        let s = nlz d1;
        q \<leftarrow> divl (drop_bit 1 n) (ucast (drop_bit 32 (push_bit s d)));
        let q = (ucast (drop_bit (31 - s) q) :: u64);
        Some (if n - (q - 1) * d < d then q - 1 else q)
      })"

text \<open>The remainders are returned as 32-bit numbers.\<close>

definition umod64 :: "u64 \<Rightarrow> u64 \<Rightarrow> u32 option" where
  "umod64 n d = do { q \<leftarrow> udiv64 n d; Some (ucast (n - d * q)) }"

definition sdiv64 :: "u64 \<Rightarrow> u64 \<Rightarrow> u64 option" where
  "sdiv64 n d = do {
     let n_abs = (if sint n \<ge> 0 then n else - n);
     let d_abs = (if sint d \<ge> 0 then d else - d);
     q_abs \<leftarrow> udiv64 n_abs d_abs;
     if (sint n < 0) = (sint d < 0) then Some q_abs
     else do { ASSERT (q_abs \<noteq> push_bit 63 1); Some (- q_abs) }
   }"

definition smod64 :: "u64 \<Rightarrow> u64 \<Rightarrow> u32 option" where
  "smod64 n d = do { q \<leftarrow> sdiv64 n d; Some (ucast (n - d * q)) }"

definition divdi3 :: "u64 \<Rightarrow> u64 \<Rightarrow> u64 option" where
  "divdi3 n d = sdiv64 n d"

definition moddi3 :: "u64 \<Rightarrow> u64 \<Rightarrow> u64 option" where
  "moddi3 n d = do { r \<leftarrow> smod64 n d; Some (scast r) }"

definition udivdi3 :: "u64 \<Rightarrow> u64 \<Rightarrow> u64 option" where
  "udivdi3 n d = udiv64 n d"

definition umoddi3 :: "u64 \<Rightarrow> u64 \<Rightarrow> u64 option" where
  "umoddi3 n d = do { r \<leftarrow> umod64 n d; Some (ucast r) }"

section \<open>Words as numbers\<close>

lemma unat_bound64: "unat (w :: u64) < 2 ^ 64"
  using unsigned_less [of w, where 'a = nat] by simp

lemma unat_of_nat64: "n < 2 ^ 64 \<Longrightarrow> unat (of_nat n :: u64) = n"
  by (simp add: unat_of_nat take_bit_nat_eq_self)

lemma unat_push: "unat (push_bit k x :: 'a :: len word) = unat x * 2 ^ k mod 2 ^ LENGTH('a)"
  by (simp only: unsigned_push_bit_eq) (simp add: push_bit_eq_mult take_bit_eq_mod)

lemma unat_push32: "unat x * 2 ^ k < 2 ^ 32 \<Longrightarrow> unat (push_bit k x :: u32) = unat x * 2 ^ k"
  by (simp add: unat_push)

lemma unat_push64: "unat x * 2 ^ k < 2 ^ 64 \<Longrightarrow> unat (push_bit k x :: u64) = unat x * 2 ^ k"
  by (simp add: unat_push)

lemma unat_drop: "unat (drop_bit k x :: 'a :: len word) = unat x div 2 ^ k"
  by (simp only: unat_drop_bit_eq) (simp add: drop_bit_eq_div)

lemma unat_low32: "unat (ucast (n :: u64) :: u32) = unat n mod 2 ^ 32"
  by (simp add: unsigned_ucast_eq take_bit_eq_mod)

lemma unat_wide64: "unat (ucast (n :: u32) :: u64) = unat n"
  by (simp add: unsigned_ucast_eq unat_bound32 take_bit_nat_eq_self [OF less_trans [OF unat_bound32]])

lemma ucast_cut: "ucast (ucast (w :: u64) :: u32) = take_bit 32 w"
  by (rule bit_word_eqI) (auto simp: bit_simps)

section \<open>Leading zeros\<close>

lemma nlz_step:
  fixes y :: u32
  assumes "unat y = x * 2 ^ n" and "2 ^ (32 - 2 * k) \<le> unat y" and "2 * k \<le> 32" and "unat m = 2 ^ (32 - k) - 1"
    and "a = (if y \<le> m then (n + k, push_bit k y) else (n, y))"
  shows "unat (snd a) = x * 2 ^ fst a \<and> 2 ^ (32 - k) \<le> unat (snd a) \<and> fst a \<le> n + k"
proof (cases "y \<le> m")
  case True
  moreover have "0 < (2 :: nat) ^ (32 - k)"
    by simp
  ultimately have "unat y < 2 ^ (32 - k)"
    using assms(4) unfolding word_le_nat_alt by linarith
  then have "unat y * 2 ^ k < 2 ^ (32 - k) * 2 ^ k"
    by simp
  also have "\<dots> = 2 ^ 32"
    using assms(3) by (simp flip: power_add)
  finally have push: "unat (push_bit k y) = unat y * 2 ^ k"
    by (rule unat_push32)
  have "2 ^ (32 - 2 * k) * 2 ^ k \<le> unat y * 2 ^ k"
    using assms(2) by simp
  moreover have "32 - 2 * k + k = 32 - k"
    using assms(3) by simp
  ultimately show ?thesis
    using True assms(1) push by (simp add: assms(5) power_add flip: power_add)
next
  case False
  then show ?thesis
    using assms(1,4) by (simp add: assms(5) word_le_nat_alt)
qed

lemma nlz_normalises:
  assumes "x \<noteq> 0"
  shows "2 ^ 31 \<le> unat x * 2 ^ nlz x \<and> unat x * 2 ^ nlz x < 2 ^ 32 \<and> nlz x \<le> 31"
proof -
  define a where "a = (if x \<le> 0x0000FFFF then (0 + 16 :: nat, push_bit 16 x) else (0, x))"
  define b where "b = (if snd a \<le> 0x00FFFFFF then (fst a + 8, push_bit 8 (snd a)) else (fst a, snd a))"
  define c where "c = (if snd b \<le> 0x0FFFFFFF then (fst b + 4, push_bit 4 (snd b)) else (fst b, snd b))"
  define d where "d = (if snd c \<le> 0x3FFFFFFF then (fst c + 2, push_bit 2 (snd c)) else (fst c, snd c))"
  define e where "e = (if snd d \<le> 0x7FFFFFFF then (fst d + 1, push_bit 1 (snd d)) else (fst d, snd d))"
  have a: "unat (snd a) = unat x * 2 ^ fst a \<and> 2 ^ (32 - 16) \<le> unat (snd a) \<and> fst a \<le> 0 + 16"
    by (rule nlz_step [OF _ _ _ _ a_def]) (use assms unat_gt_0 [of x] in simp_all)
  have b: "unat (snd b) = unat x * 2 ^ fst b \<and> 2 ^ (32 - 8) \<le> unat (snd b) \<and> fst b \<le> fst a + 8"
    by (rule nlz_step [OF _ _ _ _ b_def]) (use a in simp_all)
  have c: "unat (snd c) = unat x * 2 ^ fst c \<and> 2 ^ (32 - 4) \<le> unat (snd c) \<and> fst c \<le> fst b + 4"
    by (rule nlz_step [OF _ _ _ _ c_def]) (use b in simp_all)
  have d: "unat (snd d) = unat x * 2 ^ fst d \<and> 2 ^ (32 - 2) \<le> unat (snd d) \<and> fst d \<le> fst c + 2"
    by (rule nlz_step [OF _ _ _ _ d_def]) (use c in simp_all)
  have e: "unat (snd e) = unat x * 2 ^ fst e \<and> 2 ^ (32 - 1) \<le> unat (snd e) \<and> fst e \<le> fst d + 1"
    by (rule nlz_step [OF _ _ _ _ e_def]) (use d in simp_all)
  have "nlz x = fst e"
    by (simp add: nlz_def a_def b_def c_def d_def e_def Let_def split_beta)
  then show ?thesis
    using a b c d e unat_bound32 [of "snd e"] by simp
qed

section \<open>The estimate of the quotient\<close>

lemma truncated_divisor:
  fixes n d :: nat
  assumes "p * 2 ^ s = 2 ^ 32" and "s \<le> 31" and "2 ^ 31 \<le> d div p" and "n < 2 ^ 64"
  shows "n div d \<le> n div (d div p * p)" and "n div (d div p * p) \<le> n div d + 1"
proof -
  define D e where "D = d div p * p" and "e = d mod p"
  have p: "0 < p"
    using assms(1) by (cases p) simp_all
  have d: "d = D + e"
    by (simp add: D_def e_def)
  have D: "2 ^ 31 * p \<le> D"
    using assms(3) by (simp add: D_def)
  then have D_pos: "0 < D"
    using p by (metis mult_pos_pos neq0_conv less_le_trans zero_less_power zero_less_numeral)
  show "n div d \<le> n div (d div p * p)"
    unfolding D_def [symmetric] by (rule div_le_mono2 [OF D_pos]) (simp add: d)
  show "n div (d div p * p) \<le> n div d + 1"
  proof (rule ccontr)
    assume "\<not> n div (d div p * p) \<le> n div d + 1"
    then have "n div d + 2 \<le> n div D"
      by (simp add: D_def)
    then have big: "(n div d + 2) * D \<le> n"
      by (meson div_times_less_eq_dividend le_trans mult_le_mono1)
    define Q where "Q = n div d + 1"
    have "n < Q * d"
      using D_pos d by (simp add: Q_def dividend_less_div_times add.commute)
    then have "(Q + 1) * D < Q * (D + e)"
      using big by (simp add: Q_def d [symmetric])
    then have less: "D < Q * e"
      by (simp add: algebra_simps)
    have "(Q + 1) * (2 ^ 31 * p) \<le> (Q + 1) * D"
      using D by (rule mult_le_mono2)
    also have "\<dots> \<le> n"
      using big by (simp add: Q_def)
    finally have "(Q + 1) * (2 ^ 31 * p) < 2 ^ 64"
      using assms(4) by (rule le_less_trans)
    then have "(Q + 1) * (2 ^ 31 * p) * 2 ^ s < 2 ^ 64 * 2 ^ s"
      by (intro mult_strict_right_mono) simp_all
    also have "(Q + 1) * (2 ^ 31 * p) * 2 ^ s = (Q + 1) * 2 ^ 31 * (p * 2 ^ s)"
      by (simp only: ac_simps)
    finally have "(Q + 1) * 2 ^ 31 * 2 ^ 32 < 2 ^ 64 * 2 ^ s"
      by (simp only: assms(1))
    then have Q: "Q + 1 < 2 * 2 ^ s"
      by simp
    have e: "e \<le> p - 1"
      using mod_less_divisor [OF p, of d] unfolding e_def by linarith
    show False
    proof (cases "s = 31")
      case True
      then have "p = 2"
        using assms(1) by simp
      then have "Q * e \<le> Q * 1"
        using e by (intro mult_le_mono2) simp
      then have "D < Q"
        using less by linarith
      then show False
        using D Q True \<open>p = 2\<close> by simp
    next
      case False
      then have "(2 :: nat) ^ s \<le> 2 ^ 30"
        using assms(2) by (intro power_increasing) simp_all
      then have "p * 2 ^ s \<le> p * 2 ^ 30"
        by (rule mult_le_mono2)
      then have "4 \<le> p"
        by (simp add: assms(1))
      have "Q * e \<le> 2 * 2 ^ s * p"
        using e Q by (intro mult_le_mono) simp_all
      also have "\<dots> = 2 * 2 ^ 32"
        using assms(1) by (simp add: mult.assoc mult.commute [of _ p])
      finally show False
        using less D \<open>4 \<le> p\<close> by simp
    qed
  qed
qed


lemma long_division:
  fixes n d b :: nat
  assumes "0 < d" and "0 < b"
  shows "n div d = n div b div d * b + (n div b mod d * b + n mod b) div d"
    and "(n div b mod d * b + n mod b) div d < b"
proof -
  have "n = n div b * b + n mod b"
    by simp
  also have "n div b = n div b div d * d + n div b mod d"
    by simp
  finally have "n = d * (n div b div d * b) + (n div b mod d * b + n mod b)"
    by (simp only: algebra_simps)
  then have "n div d = (d * (n div b div d * b) + (n div b mod d * b + n mod b)) div d"
    by simp
  also have "\<dots> = n div b div d * b + (n div b mod d * b + n mod b) div d"
    by (rule div_mult_self4) (use assms in simp)
  finally show "n div d = n div b div d * b + (n div b mod d * b + n mod b) div d" .
  have "n div b mod d * b + n mod b < (n div b mod d + 1) * b"
    using assms by simp
  also have "\<dots> \<le> d * b"
    using assms by (intro mult_le_mono1) (simp add: Suc_leI)
  finally show "(n div b mod d * b + n mod b) div d < b"
    by (simp add: div_less_iff_less_mult assms(1) mult.commute)
qed

lemma udiv64_small:
  assumes "drop_bit 32 d = 0" and "d \<noteq> 0"
  shows "udiv64 n d = Some (n div d)"
proof -
  define b where "b = (2 :: nat) ^ 32"
  let ?n1 = "ucast (drop_bit 32 n) :: u32" and ?n0 = "ucast n :: u32" and ?d0 = "ucast d :: u32"
  let ?m = "push_bit 32 1 * ucast (?n1 mod ?d0) + ucast ?n0 :: u64"
  have d_less: "unat d < b"
    using assms(1) unat_drop [of 32 d] by (simp add: b_def div_eq_0_iff)
  then have d: "unat ?d0 = unat d" "0 < unat d"
    using assms(2) by (simp_all add: unat_low32 b_def unat_gt_0)
  have n1: "unat ?n1 = unat n div b"
    using unat_bound64 [of n] by (simp add: unat_low32 unat_drop b_def less_mult_imp_div_less)
  have n0: "unat ?n0 = unat n mod b"
    by (simp add: unat_low32 b_def)
  have pb: "unat (push_bit 32 1 :: u64) = b"
    by (simp add: b_def)
  note div = long_division [of "unat d" b "unat n"]
  have "unat n div b mod unat d < b"
    using d d_less by (meson less_trans mod_less_divisor)
  then have "(unat n div b mod unat d + 1) * b \<le> b * b"
    by (intro mult_le_mono1) simp
  moreover have "unat n mod b < b"
    by (simp add: b_def)
  ultimately have fits: "unat n div b mod unat d * b + unat n mod b < 2 ^ 64"
    by (simp add: b_def)
  have r1: "unat (?n1 mod ?d0) = unat n div b mod unat d"
    by (simp only: unat_mod_distrib n1 d)
  have q1: "unat (?n1 div ?d0) = unat n div b div unat d"
    by (simp only: unat_div_distrib n1 d)
  have m: "unat ?m = unat n div b mod unat d * b + unat n mod b"
    using fits by (simp add: unat_word_ariths(1,2) unat_wide64 r1 n0 mult.commute mod_simps b_def)
  have q: "unat n div unat d < 2 ^ 64"
    using unat_bound64 [of n] by (meson div_le_dividend le_less_trans)
  define M where "M = (unat n div b mod unat d * b + unat n mod b) div unat d"
  have M: "unat n div unat d = unat n div b div unat d * b + M" "M < 2 ^ 32"
    using div d(2) by (simp_all add: M_def b_def)
  have "divl ?m ?d0 = Some (of_nat M)"
    using M(2) d unat_gt_0 [of ?d0] unfolding divl_def m d(1) M_def by simp
  moreover have "ucast (of_nat M :: u32) + push_bit 32 1 * ucast (?n1 div ?d0) = n div d"
  proof (rule unsigned_word_eqI [where 'a = nat])
    have "unat (ucast (of_nat M :: u32) :: u64) = M"
      using M(2) by (simp add: unat_wide64 unat_of_nat take_bit_nat_eq_self)
    moreover have "unat (push_bit 32 1 * ucast (?n1 div ?d0) :: u64) = unat n div b div unat d * b"
      using q M(1) by (simp add: unat_word_ariths(2) unat_wide64 q1 b_def mult.commute mod_simps)
    ultimately have "unat (ucast (of_nat M :: u32) + push_bit 32 1 * ucast (?n1 div ?d0) :: u64) =
        (M + unat n div b div unat d * b) mod 2 ^ 64"
      unfolding unat_word_ariths(1) by (simp only:) simp
    also have "\<dots> = unat n div unat d"
      using q unfolding M(1) by (simp only: add.commute mod_less)
    finally show "unat (ucast (of_nat M :: u32) + push_bit 32 1 * ucast (?n1 div ?d0) :: u64) = unat (n div d)"
      by (simp only: unat_div_distrib)
  qed
  ultimately show ?thesis
    using d unat_gt_0 [of ?d0] by (simp add: udiv64_def assms(1) Let_def)
qed

lemma unat_sub_mult:
  assumes "unat a * unat d \<le> unat n"
  shows "unat (n - a * d :: u64) = unat n - unat a * unat d"
proof -
  have "unat (a * d) = unat a * unat d"
    using assms unat_bound64 [of n] by (simp add: unat_word_ariths(2))
  then show ?thesis
    using assms by (simp add: unat_sub word_le_nat_alt)
qed

lemma corrected_estimate:
  assumes "unat d \<le> unat n" and "d \<noteq> 0"
    and "unat n div unat d \<le> unat q" and "unat q \<le> unat n div unat d + 1"
  shows "(if n - (q - 1) * d < d then q - 1 else q) = (n div d :: u64)"
proof -
  define Q where "Q = unat n div unat d"
  have d: "0 < unat d"
    using assms(2) by (simp add: unat_gt_0)
  have Q: "1 \<le> Q" "Q * unat d \<le> unat n" "unat n < (Q + 1) * unat d"
    using assms(1) d dividend_less_div_times [OF d, of "unat n"]
    by (simp_all add: Q_def Suc_leI div_greater_zero_iff add.commute)
  have "q \<noteq> 0"
    using assms(3) Q by (auto simp: Q_def [symmetric])
  then have q1: "unat (q - 1) = unat q - 1"
    by (simp add: unat_minus_one)
  have le: "(unat q - 1) * unat d \<le> unat n"
  proof -
    have "(unat q - 1) * unat d \<le> Q * unat d"
      using assms(4) by (intro mult_le_mono1) (simp add: Q_def)
    then show ?thesis
      using Q(2) by (rule le_trans)
  qed
  have rest: "unat (n - (q - 1) * d) = unat n - (unat q - 1) * unat d"
    using unat_sub_mult [of "q - 1" d n] le by (simp add: q1)
  have "unat (if n - (q - 1) * d < d then q - 1 else q) = Q"
  proof (cases "unat q = Q")
    case True
    then have "unat n - (unat q - 1) * unat d \<ge> unat d"
      using Q by (cases Q) (simp_all add: le_diff_conv2)
    then show ?thesis
      using True by (simp add: word_less_nat_alt rest)
  next
    case False
    then have "unat q = Q + 1"
      using assms(3,4) by (simp add: Q_def)
    then show ?thesis
      using Q by (simp add: word_less_nat_alt rest q1)
  qed
  then show ?thesis
    by (intro unsigned_word_eqI [where 'a = nat]) (simp add: Q_def unat_div_distrib)
qed

lemma udiv64_large:
  assumes "drop_bit 32 d \<noteq> 0" and "d \<le> n"
  shows "udiv64 n d = Some (n div d)"
proof -
  let ?d1 = "ucast (drop_bit 32 d) :: u32"
  define s where "s = nlz ?d1"
  have d1: "unat ?d1 = unat d div 2 ^ 32"
    using unat_bound64 [of d] by (simp add: unat_low32 unat_drop less_mult_imp_div_less)
  moreover have "unat d div 2 ^ 32 \<noteq> 0"
    using assms(1) unat_drop [of 32 d] by (metis unat_eq_zero)
  ultimately have "?d1 \<noteq> 0"
    by (metis unat_0)
  note s = nlz_normalises [OF this, folded s_def, unfolded d1]
  define p where "p = (2 :: nat) ^ (32 - s)"
  have ps: "p * 2 ^ s = 2 ^ 32"
    using s by (simp add: p_def flip: power_add)
  define D1 where "D1 = unat d div 2 ^ 32"
  have D1: "D1 * 2 ^ 32 \<le> unat d" "unat d < (D1 + 1) * 2 ^ 32"
    by (simp_all add: D1_def dividend_less_div_times add.commute)
  have "D1 < p"
    using s ps unfolding D1_def by (metis mult_less_cancel2)
  then have "(D1 + 1) * 2 ^ 32 \<le> p * 2 ^ 32"
    by (intro mult_le_mono1) simp
  then have "unat d < p * 2 ^ 32"
    using D1(2) by (rule order_less_le_trans [rotated])
  then have "unat d * 2 ^ s < p * 2 ^ 32 * 2 ^ s"
    by (intro mult_strict_right_mono) simp_all
  also have "p * 2 ^ 32 * 2 ^ s = p * 2 ^ s * 2 ^ 32"
    by (simp only: ac_simps)
  finally have shifted: "unat d * 2 ^ s < 2 ^ 64"
    by (simp add: ps)
  have v1: "unat d * 2 ^ s div 2 ^ 32 = unat d div p"
    unfolding ps [symmetric] by (rule div_mult_mult2) simp
  have v: "unat (ucast (drop_bit 32 (push_bit s d)) :: u32) = unat d div p"
    unfolding unat_low32 unat_drop unat_push64 [OF shifted]
    by (simp only: v1 [symmetric]) (use shifted in \<open>simp add: less_mult_imp_div_less\<close>)
  have "2 ^ 31 * p \<le> D1 * 2 ^ s * p"
    using s by (intro mult_le_mono1) (simp add: D1_def)
  also have "\<dots> = D1 * 2 ^ 32"
    using ps by (simp add: mult.assoc mult.commute)
  finally have "2 ^ 31 * p \<le> unat d"
    using D1(1) by simp
  moreover have "0 < p"
    by (simp add: p_def)
  ultimately have v_big: "2 ^ 31 \<le> unat d div p"
    by (simp add: less_eq_div_iff_mult_less_eq)
  have n: "unat n < 2 ^ 64"
    by (rule unat_bound64)
  have "unat n div 2 < 2 ^ 32 * 2 ^ 31"
    using n by simp
  also have "\<dots> \<le> 2 ^ 32 * (unat d div p)"
    using v_big by (rule mult_le_mono2)
  finally have q_fits: "unat n div 2 div (unat d div p) < 2 ^ 32"
    by (rule less_mult_imp_div_less)
  define q where "q = unat n div 2 div (unat d div p)"
  let ?v = "ucast (drop_bit 32 (push_bit s d)) :: u32" and ?q = "of_nat q :: u32"
  have v0: "?v \<noteq> 0"
    using v v_big by (metis unat_0 not_numeral_le_zero le_zero_eq power_eq_0_iff zero_neq_numeral)
  have run: "divl (drop_bit 1 n) ?v = Some ?q"
    using q_fits v0 unfolding divl_def v unat_drop by (simp add: q_def)
  have s31: "s \<le> 31"
    using s by blast
  then have "Suc (31 - s) = 32 - s"
    by simp
  then have "2 * 2 ^ (31 - s) = p"
    by (simp add: p_def flip: power_Suc)
  moreover have "2 * (unat d div p) * 2 ^ (31 - s) = unat d div p * (2 * 2 ^ (31 - s))"
    by (simp only: ac_simps)
  ultimately have shape: "2 * (unat d div p) * 2 ^ (31 - s) = unat d div p * p"
    by simp
  have "unat (ucast (drop_bit (31 - s) ?q) :: u64) = q div 2 ^ (31 - s)"
    using q_fits by (simp add: unat_wide64 unat_drop unat_of_nat take_bit_nat_eq_self q_def)
  also have "\<dots> = unat n div (unat d div p * p)"
    by (simp only: q_def div_mult2_eq [symmetric] shape)
  finally have est: "unat (ucast (drop_bit (31 - s) ?q) :: u64) = unat n div (unat d div p * p)" .
  have d: "d \<noteq> 0" "\<not> n < d" "unat d \<le> unat n"
    using assms by (auto simp: not_less simp flip: word_le_nat_alt)
  have "(if n - (ucast (drop_bit (31 - s) ?q) - 1) * d < d then ucast (drop_bit (31 - s) ?q) - 1
      else ucast (drop_bit (31 - s) ?q)) = n div d"
    using d truncated_divisor [OF ps s31 v_big n] by (intro corrected_estimate) (simp_all only: est not_False_eq_True)
  then show ?thesis
    using run d(2) by (simp add: udiv64_def assms(1) Let_def s_def [symmetric] split del: if_split cong del: if_weak_cong)
qed

section \<open>Division\<close>

lemma udiv64_eq:
  assumes "d \<noteq> 0"
  shows "udiv64 n d = Some (n div d)"
proof (cases "drop_bit 32 d = 0 \<or> d \<le> n")
  case True
  then show ?thesis
    using assms udiv64_small udiv64_large by blast
next
  case False
  moreover from False have "n div d = 0"
    by (intro unsigned_word_eqI [where 'a = nat]) (simp add: unat_div_distrib word_le_nat_alt)
  ultimately show ?thesis
    by (simp add: udiv64_def not_le)
qed

lemma udiv64_zero: "udiv64 n 0 = None"
  by (simp add: udiv64_def)

text \<open>The absolute value of a signed number, as an unsigned one.\<close>

lemma uint_abs: "uint (if sint w \<ge> 0 then w else - w :: u64) = \<bar>sint w\<bar>"
proof -
  have "(if sint w \<ge> 0 then w else - w) = word_of_int \<bar>sint w\<bar>"
    by simp
  then have "uint (if sint w \<ge> 0 then w else - w) = \<bar>sint w\<bar> mod 2 ^ 64"
    by (simp only: uint_word_of_int) simp
  moreover have "\<bar>sint w\<bar> < 2 ^ 64"
    using sint_greater_eq [of w] sint_less [of w] by simp
  ultimately show ?thesis
    by simp
qed

text \<open>
  The signed quotient is the one truncated towards zero, for every divisor but zero.  The two quotients of
  absolute value \<open>2 ^ 63\<close> are the exception: the positive one wraps round, the negative one is an overflow.
\<close>

lemma sdiv64_eq:
  assumes "d \<noteq> 0" and "\<bar>sint n\<bar> div \<bar>sint d\<bar> \<noteq> 2 ^ 63"
  shows "sdiv64 n d = Some (word_of_int (sint n sdiv sint d))"
proof -
  let ?n = "if sint n \<ge> 0 then n else - n" and ?d = "if sint d \<ge> 0 then d else - d"
  have "uint (?n div ?d) = \<bar>sint n\<bar> div \<bar>sint d\<bar>"
    by (simp only: uint_div_distrib uint_abs)
  then have q: "?n div ?d = word_of_int (\<bar>sint n\<bar> div \<bar>sint d\<bar>)" "?n div ?d \<noteq> push_bit 63 1"
    using assms(2) by (metis word_of_int_uint, auto)
  have "?d \<noteq> 0"
    using assms(1) by simp
  then have "udiv64 ?n ?d = Some (?n div ?d)"
    by (rule udiv64_eq)
  moreover have "sint n sdiv sint d =
      (if (sint n < 0) = (sint d < 0) then \<bar>sint n\<bar> div \<bar>sint d\<bar> else - (\<bar>sint n\<bar> div \<bar>sint d\<bar>))"
    by (auto simp: signed_divide_int_def sgn_if)
  ultimately show ?thesis
    using q by (simp add: sdiv64_def Let_def)
qed

text \<open>C15: The 64-bit division that the compiler calls for, built from 32-bit machine divisions with an estimate of the
  quotient that may be one too large, is the mathematical quotient for all divisors but zero.  The remainder that
  goes with it is cut to its low 32 bits.\<close>

theorem udivdi3_is_division:
  assumes "d \<noteq> 0"
  shows "udivdi3 n d = Some (n div d) \<and> umoddi3 n d = Some (take_bit 32 (n mod d))"
proof -
  have "n - d * (n div d) = n mod d"
    by (simp add: minus_mult_div_eq_mod)
  then show ?thesis
    using assms by (simp add: udivdi3_def umoddi3_def umod64_def udiv64_eq ucast_cut)
qed

theorem udivdi3_is_division_witness:
  "udivdi3 0x8000000000000000 0x100000001 = Some 0x7FFFFFFF \<and> umoddi3 0x8000000000000000 0x100000001 = Some 0x80000001"
  using udivdi3_is_division [of "0x100000001" "0x8000000000000000"] by simp

end
