(* ===== verification/Lib_String.thy ===== *)
theory Lib_String
  imports Pintos_Prelude
begin

text \<open>
  Strings and blocks of bytes (\<open>lib/string.c\<close>) in a memory of \<open>2 ^ 32\<close> bytes.  Pointers and sizes are 32-bit words and
  the null pointer is 0.  A loop that looks for the end of a string is a partial function, which has no
  value when there is no null byte; \<open>None\<close> is also a failed assertion.  The variable that \<open>save_ptr\<close> points to
  is an argument and a result of \<open>strtok_r\<close>.
\<close>

type_synonym memory = "u32 \<Rightarrow> u8"

section \<open>Blocks\<close>

fun memcpy_loop :: "memory \<Rightarrow> u32 \<Rightarrow> u32 \<Rightarrow> nat \<Rightarrow> memory" where
  "memcpy_loop m dst src 0 = m"
| "memcpy_loop m dst src (Suc sz) = memcpy_loop (m(dst := m src)) (dst + 1) (src + 1) sz"

definition memcpy :: "memory \<Rightarrow> u32 \<Rightarrow> u32 \<Rightarrow> u32 \<Rightarrow> (u32 \<times> memory) option" where
  "memcpy m dst src sz = do {
     ASSERT (dst \<noteq> 0 \<or> sz = 0);
     ASSERT (src \<noteq> 0 \<or> sz = 0);
     Some (dst, memcpy_loop m dst src (unat sz))
   }"

fun memmove_back :: "memory \<Rightarrow> u32 \<Rightarrow> u32 \<Rightarrow> nat \<Rightarrow> memory" where
  "memmove_back m dst src 0 = m"
| "memmove_back m dst src (Suc sz) = memmove_back (m(dst - 1 := m (src - 1))) (dst - 1) (src - 1) sz"

text \<open>The pointer that is returned is the one the loop has moved.\<close>

definition memmove :: "memory \<Rightarrow> u32 \<Rightarrow> u32 \<Rightarrow> u32 \<Rightarrow> (u32 \<times> memory) option" where
  "memmove m dst src sz = do {
     ASSERT (dst \<noteq> 0 \<or> sz = 0);
     ASSERT (src \<noteq> 0 \<or> sz = 0);
     Some (if dst < src then (dst + sz, memcpy_loop m dst src (unat sz))
           else (dst, memmove_back m (dst + sz) (src + sz) (unat sz)))
   }"

fun memcmp_loop :: "memory \<Rightarrow> u32 \<Rightarrow> u32 \<Rightarrow> nat \<Rightarrow> int" where
  "memcmp_loop m a b 0 = 0"
| "memcmp_loop m a b (Suc sz) =
     (if m a \<noteq> m b then (if m a > m b then 1 else -1) else memcmp_loop m (a + 1) (b + 1) sz)"

definition memcmp :: "memory \<Rightarrow> u32 \<Rightarrow> u32 \<Rightarrow> u32 \<Rightarrow> int option" where
  "memcmp m a b sz = do {
     ASSERT (a \<noteq> 0 \<or> sz = 0);
     ASSERT (b \<noteq> 0 \<or> sz = 0);
     Some (memcmp_loop m a b (unat sz))
   }"

fun memchr_loop :: "memory \<Rightarrow> u32 \<Rightarrow> u8 \<Rightarrow> nat \<Rightarrow> u32" where
  "memchr_loop m block ch 0 = 0"
| "memchr_loop m block ch (Suc sz) = (if m block = ch then block else memchr_loop m (block + 1) ch sz)"

definition memchr :: "memory \<Rightarrow> u32 \<Rightarrow> u32 \<Rightarrow> u32 \<Rightarrow> u32 option" where
  "memchr m block ch sz = do {
     ASSERT (block \<noteq> 0 \<or> sz = 0);
     Some (memchr_loop m block (ucast ch) (unat sz))
   }"

fun memset_loop :: "memory \<Rightarrow> u32 \<Rightarrow> u8 \<Rightarrow> nat \<Rightarrow> memory" where
  "memset_loop m dst v 0 = m"
| "memset_loop m dst v (Suc sz) = memset_loop (m(dst := v)) (dst + 1) v sz"

definition memset :: "memory \<Rightarrow> u32 \<Rightarrow> u32 \<Rightarrow> u32 \<Rightarrow> (u32 \<times> memory) option" where
  "memset m dst v sz = do {
     ASSERT (dst \<noteq> 0 \<or> sz = 0);
     Some (dst, memset_loop m dst (ucast v) (unat sz))
   }"

section \<open>Strings\<close>

partial_function (option) strcmp_loop :: "memory \<Rightarrow> u32 \<Rightarrow> u32 \<Rightarrow> int option" where
  "strcmp_loop m a b =
     (if m a \<noteq> 0 \<and> m a = m b then strcmp_loop m (a + 1) (b + 1)
      else Some (if m a < m b then -1 else if m a > m b then 1 else 0))"

definition strcmp :: "memory \<Rightarrow> u32 \<Rightarrow> u32 \<Rightarrow> int option" where
  "strcmp m a b = do {
     ASSERT (a \<noteq> 0);
     ASSERT (b \<noteq> 0);
     strcmp_loop m a b
   }"

partial_function (option) strchr_loop :: "memory \<Rightarrow> u32 \<Rightarrow> u8 \<Rightarrow> u32 option" where
  "strchr_loop m s c =
     (if m s = c then Some s else if m s = 0 then Some 0 else strchr_loop m (s + 1) c)"

definition strchr :: "memory \<Rightarrow> u32 \<Rightarrow> u8 \<Rightarrow> u32 option" where
  "strchr m s c = do { ASSERT (s \<noteq> 0); strchr_loop m s c }"

partial_function (option) strcspn_loop :: "memory \<Rightarrow> u32 \<Rightarrow> u32 \<Rightarrow> u32 \<Rightarrow> u32 option" where
  "strcspn_loop m s stop len =
     (if m (s + len) \<noteq> 0 then do {
        p \<leftarrow> strchr m stop (m (s + len));
        if p \<noteq> 0 then Some len else strcspn_loop m s stop (len + 1)
      } else Some len)"

definition strcspn :: "memory \<Rightarrow> u32 \<Rightarrow> u32 \<Rightarrow> u32 option" where
  "strcspn m s stop = strcspn_loop m s stop 0"

partial_function (option) strpbrk :: "memory \<Rightarrow> u32 \<Rightarrow> u32 \<Rightarrow> u32 option" where
  "strpbrk m s stop =
     (if m s \<noteq> 0 then do {
        p \<leftarrow> strchr m stop (m s);
        if p \<noteq> 0 then Some s else strpbrk m (s + 1) stop
      } else Some 0)"

partial_function (option) strrchr_loop :: "memory \<Rightarrow> u32 \<Rightarrow> u8 \<Rightarrow> u32 \<Rightarrow> u32 option" where
  "strrchr_loop m s c p =
     (if m s \<noteq> 0 then strrchr_loop m (s + 1) c (if m s = c then s else p) else Some p)"

definition strrchr :: "memory \<Rightarrow> u32 \<Rightarrow> u8 \<Rightarrow> u32 option" where
  "strrchr m s c = strrchr_loop m s c 0"

partial_function (option) strspn_loop :: "memory \<Rightarrow> u32 \<Rightarrow> u32 \<Rightarrow> u32 \<Rightarrow> u32 option" where
  "strspn_loop m s skip len =
     (if m (s + len) \<noteq> 0 then do {
        p \<leftarrow> strchr m skip (m (s + len));
        if p = 0 then Some len else strspn_loop m s skip (len + 1)
      } else Some len)"

definition strspn :: "memory \<Rightarrow> u32 \<Rightarrow> u32 \<Rightarrow> u32 option" where
  "strspn m s skip = strspn_loop m s skip 0"

partial_function (option) strlen_loop :: "memory \<Rightarrow> u32 \<Rightarrow> u32 option" where
  "strlen_loop m p = (if m p \<noteq> 0 then strlen_loop m (p + 1) else Some p)"

definition strlen :: "memory \<Rightarrow> u32 \<Rightarrow> u32 option" where
  "strlen m s = do { ASSERT (s \<noteq> 0); p \<leftarrow> strlen_loop m s; Some (p - s) }"

partial_function (option) strnlen_loop :: "memory \<Rightarrow> u32 \<Rightarrow> u32 \<Rightarrow> u32 \<Rightarrow> u32 option" where
  "strnlen_loop m s maxlen len =
     (if m (s + len) \<noteq> 0 \<and> len < maxlen then strnlen_loop m s maxlen (len + 1) else Some len)"

definition strnlen :: "memory \<Rightarrow> u32 \<Rightarrow> u32 \<Rightarrow> u32 option" where
  "strnlen m s maxlen = strnlen_loop m s maxlen 0"

partial_function (option) strstr_loop :: "memory \<Rightarrow> u32 \<Rightarrow> u32 \<Rightarrow> u32 \<Rightarrow> u32 \<Rightarrow> u32 \<Rightarrow> u32 option" where
  "strstr_loop m haystack needle haystack_len needle_len i =
     (if i \<le> haystack_len - needle_len then do {
        c \<leftarrow> memcmp m (haystack + i) needle needle_len;
        if c = 0 then Some (haystack + i) else strstr_loop m haystack needle haystack_len needle_len (i + 1)
      } else Some 0)"

definition strstr :: "memory \<Rightarrow> u32 \<Rightarrow> u32 \<Rightarrow> u32 option" where
  "strstr m haystack needle = do {
     haystack_len \<leftarrow> strlen m haystack;
     needle_len \<leftarrow> strlen m needle;
     if haystack_len \<ge> needle_len then strstr_loop m haystack needle haystack_len needle_len 0 else Some 0
   }"

partial_function (option) skip_delims :: "memory \<Rightarrow> u32 \<Rightarrow> u32 \<Rightarrow> (bool \<times> u32) option" where
  "skip_delims m delimiters s = do {
     p \<leftarrow> strchr m delimiters (m s);
     if p \<noteq> 0 then (if m s = 0 then Some (True, s) else skip_delims m delimiters (s + 1))
     else Some (False, s)
   }"

partial_function (option) skip_token :: "memory \<Rightarrow> u32 \<Rightarrow> u32 \<Rightarrow> u32 option" where
  "skip_token m delimiters s = do {
     p \<leftarrow> strchr m delimiters (m s);
     if p = 0 then skip_token m delimiters (s + 1) else Some s
   }"

definition strtok_r :: "memory \<Rightarrow> u32 \<Rightarrow> u32 \<Rightarrow> u32 \<Rightarrow> (u32 \<times> u32 \<times> memory) option" where
  "strtok_r m s delimiters save = do {
     ASSERT (delimiters \<noteq> 0);
     let s = (if s = 0 then save else s);
     ASSERT (s \<noteq> 0);
     (at_end, token) \<leftarrow> skip_delims m delimiters s;
     if at_end then Some (0, token, m)
     else do {
       s \<leftarrow> skip_token m delimiters token;
       if m s \<noteq> 0 then Some (token, s + 1, m(s := 0)) else Some (token, s, m)
     }
   }"

definition strlcpy :: "memory \<Rightarrow> u32 \<Rightarrow> u32 \<Rightarrow> u32 \<Rightarrow> (u32 \<times> memory) option" where
  "strlcpy m dst src sz = do {
     ASSERT (dst \<noteq> 0);
     ASSERT (src \<noteq> 0);
     src_len \<leftarrow> strlen m src;
     m' \<leftarrow> (if sz > 0 then do {
               let dst_len = sz - 1;
               let dst_len = (if src_len < dst_len then src_len else dst_len);
               (_, m') \<leftarrow> memcpy m dst src dst_len;
               Some (m'(dst + dst_len := 0))
             } else Some m);
     Some (src_len, m')
   }"

definition strlcat :: "memory \<Rightarrow> u32 \<Rightarrow> u32 \<Rightarrow> u32 \<Rightarrow> (u32 \<times> memory) option" where
  "strlcat m dst src sz = do {
     ASSERT (dst \<noteq> 0);
     ASSERT (src \<noteq> 0);
     src_len \<leftarrow> strlen m src;
     dst_len \<leftarrow> strlen m dst;
     m' \<leftarrow> (if sz > 0 \<and> dst_len < sz then do {
               let copy_cnt = sz - dst_len - 1;
               let copy_cnt = (if src_len < copy_cnt then src_len else copy_cnt);
               (_, m') \<leftarrow> memcpy m (dst + dst_len) src copy_cnt;
               Some (m'(dst + dst_len + copy_cnt := 0))
             } else Some m);
     Some (src_len + dst_len, m')
   }"


section \<open>Memory as lists\<close>

definition bytes_at :: "memory \<Rightarrow> u32 \<Rightarrow> nat \<Rightarrow> u8 list" where
  "bytes_at m p n = map (\<lambda>i. m (p + of_nat i)) [0..<n]"

fun store :: "memory \<Rightarrow> u32 \<Rightarrow> u8 list \<Rightarrow> memory" where
  "store m p [] = m"
| "store m p (b # bs) = store (m(p := b)) (p + 1) bs"

text \<open>A string is its bytes up to the first null byte.\<close>

fun str_at :: "memory \<Rightarrow> u32 \<Rightarrow> u8 list \<Rightarrow> bool" where
  "str_at m p [] \<longleftrightarrow> m p = 0"
| "str_at m p (c # cs) \<longleftrightarrow> c \<noteq> 0 \<and> m p = c \<and> str_at m (p + 1) cs"

lemma bytes_at_0 [simp]: "bytes_at m p 0 = []"
  by (simp add: bytes_at_def)

lemma bytes_at_Suc: "bytes_at m p (Suc n) = m p # bytes_at m (p + 1) n"
  by (simp add: bytes_at_def upt_conv_Cons map_Suc_upt [symmetric] add_ac del: upt_Suc)

lemma bytes_at_snoc: "bytes_at m p (Suc n) = bytes_at m p n @ [m (p + of_nat n)]"
  by (simp add: bytes_at_def)

lemma length_bytes_at [simp]: "length (bytes_at m p n) = n"
  by (simp add: bytes_at_def)

lemma nth_bytes_at [simp]: "i < n \<Longrightarrow> bytes_at m p n ! i = m (p + of_nat i)"
  by (simp add: bytes_at_def)

lemma bytes_at_eqI:
  assumes "\<And>i. i < n \<Longrightarrow> m' (p + of_nat i) = m (p + of_nat i)"
  shows "bytes_at m' p n = bytes_at m p n"
  using assms by (simp add: bytes_at_def)

lemma unat_diff_step: "a \<noteq> p \<Longrightarrow> unat (a - p) = Suc (unat (a - (p + 1) :: u32))"
proof -
  assume "a \<noteq> p"
  then have "a - p \<noteq> 0"
    by simp
  then have "unat (a - p - 1) = unat (a - p) - 1" "0 < unat (a - p)"
    by (simp_all add: unat_minus_one unat_gt_0)
  then show ?thesis
    by (simp add: diff_diff_eq)
qed

lemma store_eq:
  assumes "length bs \<le> 2 ^ 32"
  shows "store m p bs a = (if unat (a - p) < length bs then bs ! unat (a - p) else m a)"
  using assms
proof (induction bs arbitrary: m p)
  case (Cons b bs)
  have ih: "store (m(p := b)) (p + 1) bs a =
      (if unat (a - (p + 1)) < length bs then bs ! unat (a - (p + 1)) else (m(p := b)) a)"
    by (rule Cons.IH) (use Cons.prems in simp)
  show ?case
  proof (cases "a = p")
    case True
    have "unat (a - (p + 1)) = 2 ^ 32 - 1"
      by (simp add: True unsigned_minus_1_eq_mask mask_eq_exp_minus_1)
    then have "\<not> unat (a - (p + 1)) < length bs"
      using Cons.prems by simp
    then show ?thesis
      using True ih by simp
  next
    case False
    then show ?thesis
      using ih unat_diff_step [OF False] by simp
  qed
qed simp

lemma store_append:
  assumes "length (bs @ cs) \<le> 2 ^ 32"
  shows "store m p (bs @ cs) = store (store m p bs) (p + of_nat (length bs)) cs"
  using assms by (induction bs arbitrary: m p) (simp_all add: add_ac)

lemma unat_within:
  assumes "unat p + n \<le> 2 ^ 32" and "i < n"
  shows "unat (p + of_nat i :: u32) = unat p + i"
  using assms by (intro unat_plus_of_nat32) simp

lemma unat_from: "i < 2 ^ 32 \<Longrightarrow> unat (p + of_nat i - p :: u32) = i"
  by (simp add: unat_of_nat32)

lemma outside_block:
  assumes "unat p + n \<le> 2 ^ 32" and "unat a < unat p \<or> unat p + n \<le> unat a" and "i < n"
  shows "p + of_nat i \<noteq> (a :: u32)"
  using assms unat_within [OF assms(1,3)] by auto

lemma bytes_at_outside:
  assumes "unat p + n \<le> 2 ^ 32" and "unat a < unat p \<or> unat p + n \<le> unat a"
  shows "bytes_at (m(a := v)) p n = bytes_at m p n"
  using outside_block [OF assms] by (intro bytes_at_eqI) simp

lemma unat_suc: "unat (p :: u32) + 1 < 2 ^ 32 \<Longrightarrow> unat (p + 1) = unat p + 1"
  using unat_plus_of_nat32 [of p 1] by simp

section \<open>Copying blocks\<close>

lemma copy_forward:
  assumes "unat src + n \<le> 2 ^ 32" and "unat dst + n \<le> 2 ^ 32"
    and "unat dst < unat src \<or> unat src + n \<le> unat dst"
  shows "memcpy_loop m dst src n = store m dst (bytes_at m src n)"
  using assms
proof (induction n arbitrary: m dst src)
  case (Suc n)
  show ?case
  proof (cases "n = 0")
    case False
    then have s: "unat (src + 1) = unat src + 1" "unat (dst + 1) = unat dst + 1"
      using Suc.prems by (simp_all add: unat_suc)
    have "bytes_at (m(dst := m src)) (src + 1) n = bytes_at m (src + 1) n"
      using Suc.prems s by (intro bytes_at_outside) auto
    then show ?thesis
      using Suc.IH [of "src + 1" "dst + 1" "m(dst := m src)"] Suc.prems s by (auto simp: bytes_at_Suc simp del: fun_upd_apply)
  qed (simp add: bytes_at_Suc)
qed simp

lemma copy_backward:
  assumes "unat src + n \<le> 2 ^ 32" and "unat dst + n \<le> 2 ^ 32" and "unat src \<le> unat dst"
  shows "memmove_back m (dst + of_nat n) (src + of_nat n) n = store m dst (bytes_at m src n)"
  using assms
proof (induction n arbitrary: m)
  case (Suc n)
  let ?m = "m(dst + of_nat n := m (src + of_nat n))"
  have d: "unat (dst + of_nat n) = unat dst + n"
    using Suc.prems by (intro unat_plus_of_nat32) simp
  have "bytes_at ?m src n = bytes_at m src n"
    using Suc.prems d by (intro bytes_at_outside) auto
  then have "memmove_back m (dst + of_nat (Suc n)) (src + of_nat (Suc n)) (Suc n) = store ?m dst (bytes_at m src n)"
    using Suc.IH [of ?m] Suc.prems by (simp add: add_diff_eq del: fun_upd_apply)
  also have "\<dots> = (store m dst (bytes_at m src n))(dst + of_nat n := m (src + of_nat n))"
    using Suc.prems by (intro ext) (auto simp: store_eq unat_of_nat32)
  also have "\<dots> = store m dst (bytes_at m src (Suc n))"
    using Suc.prems by (simp add: bytes_at_snoc store_append)
  finally show ?case .
qed simp


lemma memcpy_eq:
  assumes "dst \<noteq> 0" and "src \<noteq> 0" and "unat src + unat n \<le> 2 ^ 32" and "unat dst + unat n \<le> 2 ^ 32"
    and "unat dst + unat n \<le> unat src \<or> unat src + unat n \<le> unat dst"
  shows "memcpy m dst src n = Some (dst, store m dst (bytes_at m src (unat n)))"
proof (cases "n = 0")
  case False
  then have "0 < unat n"
    by (simp add: unat_gt_0)
  then show ?thesis
    using assms copy_forward [of src "unat n" dst m] by (auto simp: memcpy_def)
qed (simp add: memcpy_def)

text \<open>
  \<open>memmove\<close> copies blocks that overlap either way.  Its result is the destination only when it copied from
  the end; after copying from the front it is the end of the destination.
\<close>

lemma memmove_eq:
  assumes "dst \<noteq> 0" and "src \<noteq> 0" and "unat src + unat n \<le> 2 ^ 32" and "unat dst + unat n \<le> 2 ^ 32"
  shows "memmove m dst src n = Some (if dst < src then dst + n else dst, store m dst (bytes_at m src (unat n)))"
  using assms copy_forward [of src "unat n" dst m] copy_backward [of src "unat n" dst m]
  by (auto simp: memmove_def word_less_nat_alt not_less)

lemma memset_loop_eq: "memset_loop m dst v n = store m dst (replicate n v)"
  by (induction n arbitrary: m dst) simp_all

text \<open>Two blocks of the same length are compared byte by byte.\<close>

fun bytes_cmp :: "u8 list \<Rightarrow> u8 list \<Rightarrow> int" where
  "bytes_cmp (x # xs) (y # ys) = (if x \<noteq> y then (if x > y then 1 else -1) else bytes_cmp xs ys)"
| "bytes_cmp xs ys = 0"

lemma memcmp_loop_eq: "memcmp_loop m a b n = bytes_cmp (bytes_at m a n) (bytes_at m b n)"
  by (induction n arbitrary: a b) (simp_all add: bytes_at_Suc)

lemma bytes_cmp_sym: "length a = length b \<Longrightarrow> bytes_cmp a b = - bytes_cmp b a"
  by (induction a b rule: list_induct2) (auto simp: not_less)

lemma bytes_cmp_trans:
  assumes "length a = length b" and "length b = length c" and "bytes_cmp a b \<le> 0" and "bytes_cmp b c \<le> 0"
  shows "bytes_cmp a c \<le> 0"
  using assms by (induction a b c rule: list_induct3) (auto split: if_splits)

lemma bytes_cmp_zero: "length a = length b \<Longrightarrow> bytes_cmp a b = 0 \<longleftrightarrow> a = b"
  by (induction a b rule: list_induct2) auto

lemma memchr_loop_eq:
  "memchr_loop m p c n = (if c \<in> set (bytes_at m p n) then p + of_nat (length (takeWhile (\<lambda>b. b \<noteq> c) (bytes_at m p n))) else 0)"
  by (induction n arbitrary: p) (auto simp: bytes_at_Suc add_ac)

section \<open>What the string functions find\<close>

lemma strlen_loop_at: "str_at m p cs \<Longrightarrow> strlen_loop m p = Some (p + of_nat (length cs))"
  by (induction cs arbitrary: p) (simp_all add: strlen_loop.simps [of m] add_ac)

lemma strlen_at: "str_at m p cs \<Longrightarrow> p \<noteq> 0 \<Longrightarrow> strlen m p = Some (of_nat (length cs))"
  by (simp add: strlen_def strlen_loop_at)

text \<open>Strings are compared like words in a dictionary, with the end of a string before every character.\<close>

fun str_cmp :: "u8 list \<Rightarrow> u8 list \<Rightarrow> int" where
  "str_cmp [] [] = 0"
| "str_cmp [] (y # ys) = -1"
| "str_cmp (x # xs) [] = 1"
| "str_cmp (x # xs) (y # ys) = (if x < y then -1 else if x > y then 1 else str_cmp xs ys)"

lemma strcmp_loop_at:
  "str_at m a as \<Longrightarrow> str_at m b bs \<Longrightarrow> strcmp_loop m a b = Some (str_cmp as bs)"
proof (induction as bs arbitrary: a b rule: str_cmp.induct)
  case (2 y ys)
  then show ?case
    by (simp add: strcmp_loop.simps [of m a b] word_gt_0)
next
  case (3 x xs)
  then show ?case
    by (simp add: strcmp_loop.simps [of m a b] word_gt_0)
next
  case (4 x xs y ys)
  then show ?case
    by (cases "x = y") (auto simp: strcmp_loop.simps [of m a b])
qed (simp add: strcmp_loop.simps)

lemma strcmp_at:
  assumes "str_at m a as" and "str_at m b bs" and "a \<noteq> 0" and "b \<noteq> 0"
  shows "strcmp m a b = Some (str_cmp as bs)"
  using assms by (simp add: strcmp_def strcmp_loop_at)

lemma str_cmp_zero: "str_cmp as bs = 0 \<longleftrightarrow> as = bs"
  by (induction as bs rule: str_cmp.induct) auto

lemma strchr_loop_at:
  assumes "str_at m p cs"
  shows "strchr_loop m p c =
    Some (if c = 0 \<or> c \<in> set cs then p + of_nat (length (takeWhile (\<lambda>b. b \<noteq> c) cs)) else 0)"
  using assms by (induction cs arbitrary: p) (auto simp: strchr_loop.simps [of m] add_ac)

lemma str_at_no_null: "str_at m p cs \<Longrightarrow> 0 \<notin> set cs"
  by (induction cs arbitrary: p) auto

text \<open>The address of a character of a string that does not reach past the end of memory is not null.\<close>

lemma strchr_found:
  assumes "str_at m p cs" and "p \<noteq> 0" and "unat p + length cs < 2 ^ 32"
  shows "\<exists>q. strchr m p c = Some q \<and> (q \<noteq> 0 \<longleftrightarrow> c = 0 \<or> c \<in> set cs)"
proof -
  define k where "k = length (takeWhile (\<lambda>b. b \<noteq> c) cs)"
  have "k \<le> length cs"
    by (simp add: k_def length_takeWhile_le)
  then have "unat (p + of_nat k) = unat p + k"
    using assms(3) by (intro unat_plus_of_nat32) simp
  then have "p + of_nat k \<noteq> 0"
    using assms(2) by (metis add_is_0 unat_0 unat_eq_zero)
  then show ?thesis
    using assms(1,2) strchr_loop_at [OF assms(1), of c] by (simp add: strchr_def k_def)
qed

lemma strrchr_loop_none: "str_at m p cs \<Longrightarrow> c \<notin> set cs \<Longrightarrow> strrchr_loop m p c q = Some q"
proof (induction cs arbitrary: p)
  case (Cons d cs)
  then show ?case
    by (auto simp: strrchr_loop.simps [of m p])
qed (simp add: strrchr_loop.simps)

lemma strrchr_loop_last:
  "str_at m p (as @ c # cs) \<Longrightarrow> c \<notin> set cs \<Longrightarrow> strrchr_loop m p c q = Some (p + of_nat (length as))"
proof (induction as arbitrary: p q)
  case Nil
  then show ?case
    by (auto simp: strrchr_loop.simps [of m p] intro: strrchr_loop_none)
next
  case (Cons a as)
  then show ?case
    using Cons.IH [of "p + 1"] by (auto simp: strrchr_loop.simps [of m p] add_ac)
qed

lemma str_at_append: "str_at m p (as @ cs) \<Longrightarrow> str_at m (p + of_nat (length as)) cs"
proof (induction as arbitrary: p)
  case (Cons a as)
  then show ?case
    using Cons.IH [of "p + 1"] by (simp add: add_ac)
qed simp

lemma str_at_step: "str_at m p (as @ c # cs) \<Longrightarrow> m (p + of_nat (length as)) = c \<and> c \<noteq> 0"
  using str_at_append [of m p as "c # cs"] by simp

lemma spn_loop_at:
  assumes "str_at m p (as @ cs)" and "str_at m t ds" and "t \<noteq> 0" and "unat t + length ds < 2 ^ 32"
  shows "strspn_loop m p t (of_nat (length as)) = Some (of_nat (length as + length (takeWhile (\<lambda>c. c \<in> set ds) cs)))"
    and "strcspn_loop m p t (of_nat (length as)) = Some (of_nat (length as + length (takeWhile (\<lambda>c. c \<notin> set ds) cs)))"
  using assms(1)
proof (induction cs arbitrary: as)
  case Nil
  {
    case 1
    then show ?case
      using str_at_append [of m p as "[]"] by (simp add: strspn_loop.simps)
  next
    case 2
    then show ?case
      using str_at_append [of m p as "[]"] by (simp add: strcspn_loop.simps)
  }
next
  case (Cons c cs)
  obtain q where q: "strchr m t c = Some q" "q \<noteq> 0 \<longleftrightarrow> c = 0 \<or> c \<in> set ds"
    using strchr_found [OF assms(2-4)] by blast
  have a: "(of_nat (length (as @ [c])) :: u32) = of_nat (length as) + 1"
    by simp
  {
    case 1
    then show ?case
      using Cons.IH(1) [of "as @ [c]"] q str_at_step [of m p as c cs]
      by (cases "c \<in> set ds") (simp_all add: strspn_loop.simps [of m p t "of_nat (length as)"] add_ac)
  next
    case 2
    then show ?case
      using Cons.IH(2) [of "as @ [c]"] q str_at_step [of m p as c cs]
      by (cases "c \<in> set ds") (simp_all add: strcspn_loop.simps [of m p t "of_nat (length as)"] add_ac)
  }
qed


section \<open>Copying strings\<close>

lemma bytes_at_str: "str_at m p cs \<Longrightarrow> n \<le> length cs \<Longrightarrow> bytes_at m p n = take n cs"
proof (induction n arbitrary: p cs)
  case (Suc n)
  then obtain c cs' where "cs = c # cs'"
    by (cases cs) auto
  then show ?case
    using Suc by (auto simp: bytes_at_Suc)
qed simp

lemma str_at_bytes: "0 \<notin> set cs \<Longrightarrow> bytes_at m p (Suc (length cs)) = cs @ [0] \<Longrightarrow> str_at m p cs"
  by (induction cs arbitrary: p) (simp_all add: bytes_at_Suc)

lemma bytes_at_store: "length bs \<le> 2 ^ 32 \<Longrightarrow> bytes_at (store m p bs) p (length bs) = bs"
  by (rule nth_equalityI) (simp_all add: store_eq unat_of_nat32)

lemma str_at_store:
  assumes "0 \<notin> set cs" and "length cs < 2 ^ 32"
  shows "str_at (store m p (cs @ [0])) p cs"
  using bytes_at_store [of "cs @ [0]" m p] assms by (intro str_at_bytes) simp_all

lemma store_snoc:
  assumes "length bs < 2 ^ 32"
  shows "(store m p bs)(p + of_nat (length bs) := b) = store m p (bs @ [b])"
  using assms by (simp add: store_append)

text \<open>\<open>strlcpy\<close> writes the string cut to the room there is, always with a null byte, and nothing else.\<close>

lemma strlcpy_at:
  assumes "str_at m src cs" and "src \<noteq> 0" and "dst \<noteq> 0" and "sz \<noteq> 0"
    and "unat src + length cs < 2 ^ 32" and "unat dst + unat sz \<le> 2 ^ 32"
    and "unat dst + unat sz \<le> unat src \<or> unat src + length cs < unat dst"
  shows "strlcpy m dst src sz = Some (of_nat (length cs), store m dst (take (unat sz - 1) cs @ [0]))"
proof -
  define n where "n = min (length cs) (unat sz - 1)"
  have sz: "0 < unat sz" "0 < sz"
    using assms(4) by (simp_all add: unat_gt_0 word_gt_0)
  have cs: "unat (of_nat (length cs) :: u32) = length cs"
    using assms(5) by (intro unat_of_nat32) simp
  have n: "unat (if of_nat (length cs) < sz - 1 then of_nat (length cs) else sz - 1) = n"
    using sz assms(4) by (simp add: n_def word_less_nat_alt cs unat_minus_one)
  then have n': "(if of_nat (length cs) < sz - 1 then of_nat (length cs) else sz - 1) = of_nat n"
    by (rule of_nat_eqI32)
  have un: "unat (of_nat n :: u32) = n"
    using n n' by simp
  have room: "n < unat sz" "n \<le> length cs"
    using sz by (auto simp: n_def)
  have bytes: "bytes_at m src n = take (unat sz - 1) cs" "length (take (unat sz - 1) cs) = n"
    using bytes_at_str [OF assms(1) room(2)] by (auto simp: n_def min_def)
  have "memcpy m dst src (of_nat n) = Some (dst, store m dst (take (unat sz - 1) cs))"
    using memcpy_eq [of dst src "of_nat n" m] assms room by (auto simp: un bytes)
  moreover have "(store m dst (take (unat sz - 1) cs))(dst + of_nat n := 0) = store m dst (take (unat sz - 1) cs @ [0])"
    using store_snoc [of "take (unat sz - 1) cs" m dst 0] bytes(2) room(2) assms(5) by simp
  ultimately show ?thesis
    using sz assms(2,3) strlen_at [OF assms(1,2)] by (simp add: strlcpy_def Let_def n' del: fun_upd_apply)
qed

section \<open>Tokens\<close>

lemma skip_delims_at:
  assumes "str_at m p cs" and "str_at m t ds" and "t \<noteq> 0" and "unat t + length ds < 2 ^ 32"
  shows "skip_delims m t p =
    Some (dropWhile (\<lambda>c. c \<in> set ds) cs = [], p + of_nat (length (takeWhile (\<lambda>c. c \<in> set ds) cs)))"
  using assms(1)
proof (induction cs arbitrary: p)
  case Nil
  obtain q where "strchr m t 0 = Some q" "q \<noteq> 0"
    using strchr_found [OF assms(2-4), of 0] by blast
  then show ?case
    using Nil by (simp add: skip_delims.simps [of m t p])
next
  case (Cons c cs)
  obtain q where "strchr m t c = Some q" "q \<noteq> 0 \<longleftrightarrow> c = 0 \<or> c \<in> set ds"
    using strchr_found [OF assms(2-4)] by blast
  then show ?case
    using Cons.IH [of "p + 1"] Cons.prems
    by (cases "c \<in> set ds") (simp_all add: skip_delims.simps [of m t p] add_ac)
qed

lemma skip_token_at:
  assumes "str_at m p cs" and "str_at m t ds" and "t \<noteq> 0" and "unat t + length ds < 2 ^ 32"
  shows "skip_token m t p = Some (p + of_nat (length (takeWhile (\<lambda>c. c \<notin> set ds) cs)))"
  using assms(1)
proof (induction cs arbitrary: p)
  case Nil
  obtain q where "strchr m t 0 = Some q" "q \<noteq> 0"
    using strchr_found [OF assms(2-4), of 0] by blast
  then show ?case
    using Nil by (simp add: skip_token.simps [of m t p])
next
  case (Cons c cs)
  obtain q where "strchr m t c = Some q" "q \<noteq> 0 \<longleftrightarrow> c = 0 \<or> c \<in> set ds"
    using strchr_found [OF assms(2-4)] by blast
  then show ?case
    using Cons.IH [of "p + 1"] Cons.prems
    by (cases "c \<in> set ds") (simp_all add: skip_token.simps [of m t p] add_ac)
qed

lemma str_at_cong:
  assumes "str_at m p cs" and "\<And>i. i \<le> length cs \<Longrightarrow> m' (p + of_nat i) = m (p + of_nat i)"
  shows "str_at m' p cs"
  using assms
proof (induction cs arbitrary: p)
  case Nil
  then show ?case
    using Nil.prems(2) [of 0] by simp
next
  case (Cons c cs)
  have "m' (p + 1 + of_nat i) = m (p + 1 + of_nat i)" if "i \<le> length cs" for i
    using Cons.prems(2) [of "Suc i"] that by (simp add: add_ac)
  then show ?case
    using Cons.IH [of "p + 1"] Cons.prems(1) Cons.prems(2) [of 0] by simp
qed

text \<open>Writing a null byte at a character ends the string there and leaves the rest after it.\<close>

lemma str_at_cut:
  assumes "str_at m p (as @ c # cs)" and "unat p + length (as @ c # cs) < 2 ^ 32"
  defines "q \<equiv> p + of_nat (length as)"
  shows "str_at (m(q := 0)) p as" and "str_at (m(q := 0)) (q + 1) cs"
proof -
  have q: "unat q = unat p + length as"
    unfolding q_def using assms(2) by (intro unat_plus_of_nat32) simp
  have low: "p + of_nat i \<noteq> q" if "i < length as" for i
    using q unat_plus_of_nat32 [of p i] that assms(2) by auto
  show "str_at (m(q := 0)) p as"
    using assms(1) low unfolding q_def
  proof (induction as arbitrary: p)
    case (Cons a as)
    have "p \<noteq> p + of_nat (length (a # as))"
      using Cons.prems(2) [of 0] by simp
    moreover have "str_at (m(p + 1 + of_nat (length as) := 0)) (p + 1) as"
      using Cons.prems(1) Cons.prems(2) [of "Suc _"] by (intro Cons.IH) (auto simp: add_ac)
    ultimately show ?case
      using Cons.prems(1) by (simp add: add_ac fun_upd_def)
  qed simp
  have "str_at m (q + 1) cs"
    using str_at_append [OF assms(1)] by (simp add: q_def)
  moreover have "q + 1 + of_nat i \<noteq> q" if "i \<le> length cs" for i
  proof -
    have "unat (q + of_nat (Suc i)) = unat q + Suc i"
      using that assms(2) q by (intro unat_plus_of_nat32) simp
    then have "q + of_nat (Suc i) \<noteq> q"
      by auto
    then show ?thesis
      by (simp add: add_ac)
  qed
  ultimately show "str_at (m(q := 0)) (q + 1) cs"
    by (elim str_at_cong) simp
qed


lemma takeWhile_dropWhile_split:
  assumes "dropWhile P xs = c # cs"
  shows "xs = takeWhile P xs @ c # cs"
  using takeWhile_dropWhile_id [of P xs] assms by simp

text \<open>
  One call cuts off the next token: what follows the delimiters at the front, up to the next delimiter or the end of
  the string.  The saved pointer is then at the rest of the string.
\<close>

lemma strtok_r_none:
  assumes "str_at m s cs" and "s \<noteq> 0" and "str_at m t ds" and "t \<noteq> 0" and "unat t + length ds < 2 ^ 32"
    and "set cs \<subseteq> set ds"
  shows "strtok_r m s t save = Some (0, s + of_nat (length cs), m)"
proof -
  have "dropWhile (\<lambda>c. c \<in> set ds) cs = []" "takeWhile (\<lambda>c. c \<in> set ds) cs = cs"
    using assms(6) by (auto simp: takeWhile_eq_all_conv)
  then have "skip_delims m t s = Some (True, s + of_nat (length cs))"
    using skip_delims_at [OF assms(1,3-5)] by (simp only: simp_thms)
  then show ?thesis
    using assms(2,4) by (simp add: strtok_r_def)
qed

lemma strtok_r_token:
  assumes "str_at m s cs" and "s \<noteq> 0" and "unat s + length cs < 2 ^ 32"
    and "str_at m t ds" and "t \<noteq> 0" and "unat t + length ds < 2 ^ 32"
    and cs: "cs = pre @ tok @ post" and pre: "set pre \<subseteq> set ds"
    and tok: "set tok \<inter> set ds = {}" "tok \<noteq> []" and post: "post = [] \<or> hd post \<in> set ds"
  obtains m' save' where "strtok_r m s t save = Some (s + of_nat (length pre), save', m')"
    and "str_at m' (s + of_nat (length pre)) tok" and "str_at m' save' (tl post)"
    and "unat save' = unat s + length pre + length tok + (if post = [] then 0 else 1)"
    and "\<And>a. unat a < unat s + length pre + length tok \<or> unat s + length cs \<le> unat a \<Longrightarrow> m' a = m a"
proof -
  have drop: "dropWhile (\<lambda>c. c \<in> set ds) cs = tok @ post" "takeWhile (\<lambda>c. c \<in> set ds) cs = pre"
    using pre tok unfolding cs by (auto simp: dropWhile_append takeWhile_append dropWhile_eq_self_iff neq_Nil_conv)
  have take: "takeWhile (\<lambda>c. c \<notin> set ds) (tok @ post) = tok"
    using tok post by (cases post) (auto simp: takeWhile_append)
  define p q where "p = s + of_nat (length pre)" and "q = p + of_nat (length tok)"
  have p: "str_at m p (tok @ post)"
    using str_at_append [of m s pre "tok @ post"] assms(1) by (simp add: cs p_def)
  have up: "unat p = unat s + length pre"
    unfolding p_def using assms(3) by (intro unat_plus_of_nat32) (simp add: cs)
  have uq: "unat q = unat p + length tok"
    unfolding q_def using assms(3) up by (intro unat_plus_of_nat32) (simp add: cs)
  have run: "skip_delims m t s = Some (False, p)" "skip_token m t p = Some q"
    using skip_delims_at [OF assms(1,4-6)] skip_token_at [OF p assms(4-6)] tok(2)
    by (simp_all add: drop take p_def q_def)
  have save: "strtok_r m s t save = (if m q \<noteq> 0 then Some (p, q + 1, m(q := 0)) else Some (p, q, m))"
    using assms(2,5) run by (simp add: strtok_r_def)
  show thesis
  proof (cases post)
    case Nil
    then have "m q = 0" "str_at m q []"
      using str_at_append [of m p tok "[]"] p by (simp_all add: q_def)
    then show thesis
      using that [of q m] save p Nil up uq by (simp add: p_def)
  next
    case (Cons c rest)
    have "m q = c" "c \<noteq> 0"
      using str_at_step [of m p tok c rest] p Cons by (simp_all add: q_def)
    then have ok: "strtok_r m s t save = Some (p, q + 1, m(q := 0))"
      using save by simp
    have room: "unat p + length (tok @ c # rest) < 2 ^ 32"
      using assms(3) up by (simp add: cs Cons)
    have "unat (q + 1) = unat q + 1"
      using room uq by (intro unat_suc) simp
    moreover have "(m(q := 0)) a = m a" if "unat a < unat s + length pre + length tok \<or> unat s + length cs \<le> unat a" for a
      using that up uq by (auto simp: cs Cons)
    ultimately show thesis
      using that [of "q + 1" "m(q := 0)"] ok str_at_cut [of m p tok c rest] p room up uq
      unfolding p_def [symmetric] q_def [symmetric] Cons by simp
  qed
qed

end
