(* ===== verification/Lib_Stdlib.thy ===== *)
theory Lib_Stdlib
  imports Lib_String "HOL-Library.Multiset"
begin

text \<open>
  Sorting, searching and reading numbers (\<open>lib/stdlib.c\<close>).  An array is the list of its bytes, \<open>cnt * sz\<close> of them, and
  the elements have the one-based indices of the code.  The comparison is a function of two elements, with
  what \<open>aux\<close> carries inside it; an index is a natural number, which is exact for arrays of fewer than \<open>2 ^ 31\<close>
  elements.
\<close>

section \<open>Numbers\<close>

definition isspace :: "u8 \<Rightarrow> bool" where
  "isspace c \<longleftrightarrow> c = 32 \<or> c = 12 \<or> c = 10 \<or> c = 13 \<or> c = 9 \<or> c = 11"

definition isdigit :: "u8 \<Rightarrow> bool" where
  "isdigit c \<longleftrightarrow> c \<ge> 48 \<and> c \<le> 57"

text \<open>The results of \<open>int\<close> arithmetic that fit into 32 bits; any other is an overflow.\<close>

definition int_ok :: "int \<Rightarrow> int option" where
  "int_ok v = (if - (2 ^ 31) \<le> v \<and> v < 2 ^ 31 then Some v else None)"

fun atoi_digits :: "int \<Rightarrow> u8 list \<Rightarrow> int option" where
  "atoi_digits v [] = Some v"
| "atoi_digits v (c # cs) =
     (if isdigit c then do {
        v10 \<leftarrow> int_ok (v * 10);
        v' \<leftarrow> int_ok (v10 - (uint c - 48));
        atoi_digits v' cs
      } else Some v)"

definition atoi :: "u8 list \<Rightarrow> int option" where
  "atoi s = (
     let s = dropWhile isspace s;
         (negative, s) = (case s of [] \<Rightarrow> (False, s)
                          | c # cs \<Rightarrow> if c = 43 then (False, cs) else if c = 45 then (True, cs) else (False, s))
     in do {
       v \<leftarrow> atoi_digits 0 s;
       if \<not> negative then int_ok (- v) else Some v
     })"

section \<open>Sorting\<close>

definition do_swap :: "u8 list \<Rightarrow> nat \<Rightarrow> nat \<Rightarrow> nat \<Rightarrow> u8 list" where
  "do_swap array a_idx b_idx sz =
     fold (\<lambda>i arr. let a = (a_idx - 1) * sz + i; b = (b_idx - 1) * sz + i; t = arr ! a
                   in arr[a := arr ! b, b := t]) [0..<sz] array"

definition do_compare ::
  "u8 list \<Rightarrow> nat \<Rightarrow> nat \<Rightarrow> nat \<Rightarrow> (u8 list \<Rightarrow> u8 list \<Rightarrow> int) \<Rightarrow> int" where
  "do_compare array a_idx b_idx sz compare =
     compare (subbuf array ((a_idx - 1) * sz) sz) (subbuf array ((b_idx - 1) * sz) sz)"

definition max_child :: "u8 list \<Rightarrow> nat \<Rightarrow> nat \<Rightarrow> nat \<Rightarrow> (u8 list \<Rightarrow> u8 list \<Rightarrow> int) \<Rightarrow> nat" where
  "max_child array i cnt sz compare = (
     let left = 2 * i; right = 2 * i + 1;
         m = (if left \<le> cnt \<and> do_compare array left i sz compare > 0 then left else i)
     in if right \<le> cnt \<and> do_compare array right m sz compare > 0 then right else m)"

lemma max_child_cases:
  "max_child array i cnt sz compare = i \<or> (i < max_child array i cnt sz compare \<or> i = 0) \<and> max_child array i cnt sz compare \<le> cnt"
  by (auto simp: max_child_def Let_def)

function heapify :: "u8 list \<Rightarrow> nat \<Rightarrow> nat \<Rightarrow> nat \<Rightarrow> (u8 list \<Rightarrow> u8 list \<Rightarrow> int) \<Rightarrow> u8 list" where
  "heapify array i cnt sz compare = (
     let m = max_child array i cnt sz compare
     in if m = i then array else heapify (do_swap array i m sz) m cnt sz compare)"
  by auto
termination
  by (relation "measure (\<lambda>(array, i, cnt, sz, compare). Suc cnt - i)")
    (simp, auto simp: max_child_def Let_def split: if_splits)

declare heapify.simps [simp del]

definition compare_thunk :: "(u8 list \<Rightarrow> u8 list \<Rightarrow> int) \<Rightarrow> u8 list \<Rightarrow> u8 list \<Rightarrow> int" where
  "compare_thunk compare a b = compare a b"

fun build_heap :: "u8 list \<Rightarrow> nat \<Rightarrow> nat \<Rightarrow> nat \<Rightarrow> (u8 list \<Rightarrow> u8 list \<Rightarrow> int) \<Rightarrow> u8 list" where
  "build_heap array 0 cnt sz compare = array"
| "build_heap array (Suc i) cnt sz compare = build_heap (heapify array (Suc i) cnt sz compare) i cnt sz compare"

text \<open>The second loop, from \<open>i\<close> down to 2.\<close>

fun sort_heap :: "u8 list \<Rightarrow> nat \<Rightarrow> nat \<Rightarrow> (u8 list \<Rightarrow> u8 list \<Rightarrow> int) \<Rightarrow> u8 list" where
  "sort_heap array 0 sz compare = array"
| "sort_heap array (Suc i) sz compare =
     (if i > 0 then sort_heap (heapify (do_swap array 1 (Suc i) sz) 1 i sz compare) i sz compare else array)"

definition sort_array :: "u8 list \<Rightarrow> nat \<Rightarrow> nat \<Rightarrow> (u8 list \<Rightarrow> u8 list \<Rightarrow> int) \<Rightarrow> u8 list option" where
  "sort_array array cnt sz compare = do {
     ASSERT (sz > 0);
     Some (sort_heap (build_heap array (cnt div 2) cnt sz compare) cnt sz compare)
   }"

definition qsort :: "u8 list \<Rightarrow> nat \<Rightarrow> nat \<Rightarrow> (u8 list \<Rightarrow> u8 list \<Rightarrow> int) \<Rightarrow> u8 list option" where
  "qsort array cnt sz compare = sort_array array cnt sz (compare_thunk compare)"

section \<open>Searching\<close>

text \<open>The pointers \<open>first\<close> and \<open>last\<close> are offsets into the array, the result is the offset of the match.\<close>

lemma middle_less:
  assumes "f < l" and "0 < sz"
  shows "(l - f) div sz div 2 * sz < l - (f :: nat)"
proof -
  have "(l - f) div sz div 2 * sz = (l - f) div 2 div sz * sz"
    by (simp only: div_mult2_eq [symmetric] mult.commute)
  also have "\<dots> \<le> (l - f) div 2"
    by simp
  finally show ?thesis
    using assms(1) by linarith
qed

function search_loop :: "u8 list \<Rightarrow> u8 list \<Rightarrow> nat \<Rightarrow> nat \<Rightarrow> nat \<Rightarrow> (u8 list \<Rightarrow> u8 list \<Rightarrow> int) \<Rightarrow> nat option" where
  "search_loop key array first last' sz compare =
     (if first < last' \<and> sz > 0 then
        let range = (last' - first) div sz;
            middle = first + range div 2 * sz;
            cmp = compare key (subbuf array middle sz)
        in if cmp < 0 then search_loop key array first middle sz compare
           else if cmp > 0 then search_loop key array (middle + sz) last' sz compare
           else Some middle
      else None)"
  by auto
termination
  by (relation "measure (\<lambda>(key, array, first, last', sz, compare). last' - first)") (auto simp: middle_less)

declare search_loop.simps [simp del]

definition binary_search :: "u8 list \<Rightarrow> u8 list \<Rightarrow> nat \<Rightarrow> nat \<Rightarrow> (u8 list \<Rightarrow> u8 list \<Rightarrow> int) \<Rightarrow> nat option" where
  "binary_search key array cnt sz compare = search_loop key array 0 (sz * cnt) sz compare"

definition bsearch :: "u8 list \<Rightarrow> u8 list \<Rightarrow> nat \<Rightarrow> nat \<Rightarrow> (u8 list \<Rightarrow> u8 list \<Rightarrow> int) \<Rightarrow> nat option" where
  "bsearch key array cnt sz compare = binary_search key array cnt sz (compare_thunk compare)"


section \<open>Reading decimal numbers\<close>

fun decimal :: "nat \<Rightarrow> nat list \<Rightarrow> nat" where
  "decimal a [] = a"
| "decimal a (d # ds) = decimal (10 * a + d) ds"

definition digit_chars :: "nat list \<Rightarrow> u8 list" where
  "digit_chars ds = map (\<lambda>d. of_nat (48 + d)) ds"

lemma decimal_ge: "a \<le> decimal a ds"
proof (induction ds arbitrary: a)
  case (Cons d ds)
  have "10 * a + d \<le> decimal (10 * a + d) ds"
    by (rule Cons.IH)
  then show ?case
    by simp
qed simp

lemma digit_char:
  assumes "d < 10"
  shows "isdigit (of_nat (48 + d))" and "uint (of_nat (48 + d) :: u8) = 48 + int d"
proof -
  have "unat (of_nat (48 + d) :: u8) = 48 + d"
    using assms by (simp add: unat_of_nat take_bit_nat_eq_self del: of_nat_add)
  then show "isdigit (of_nat (48 + d))" "uint (of_nat (48 + d) :: u8) = 48 + int d"
    using assms by (simp_all add: isdigit_def word_le_nat_alt uint_nat del: of_nat_add)
qed

lemma atoi_digits_decimal:
  assumes "\<forall>d \<in> set ds. d < 10" and "decimal a ds \<le> 2 ^ 31"
  shows "atoi_digits (- int a) (digit_chars ds) = Some (- int (decimal a ds))"
  using assms
proof (induction ds arbitrary: a)
  case (Cons d ds)
  have "10 * a + d \<le> decimal a (d # ds)"
    using decimal_ge [of "10 * a + d" ds] by simp
  then have "10 * a + d \<le> 2 ^ 31"
    using Cons.prems(2) by simp
  moreover have "atoi_digits (- int (10 * a + d)) (digit_chars ds) = Some (- int (decimal (10 * a + d) ds))"
    using Cons.prems by (intro Cons.IH) simp_all
  moreover have eq: "- (int a * 10) - int d = - int (10 * a + d)"
    by simp
  ultimately show ?case
    using digit_char [of d] Cons.prems(1) by (simp add: digit_chars_def int_ok_def eq del: of_nat_add)
qed (simp add: digit_chars_def)

text \<open>Decimal digits, with a minus sign or without, are read as their value as long as it fits into an \<open>int\<close>.\<close>

lemma atoi_decimal:
  assumes "\<forall>d \<in> set ds. d < 10" and "ds \<noteq> []" and "decimal 0 ds < 2 ^ 31"
  shows "atoi (digit_chars ds) = Some (int (decimal 0 ds))"
    and "atoi (45 # digit_chars ds) = Some (- int (decimal 0 ds))"
proof -
  have run: "atoi_digits 0 (digit_chars ds) = Some (- int (decimal 0 ds))"
    using atoi_digits_decimal [OF assms(1), of 0] assms(3) by simp
  obtain d es where ds: "ds = d # es"
    using assms(2) by (cases ds) auto
  define c :: u8 where "c = of_nat (48 + d)"
  have "isdigit c"
    using digit_char(1) [of d] assms(1) ds by (simp add: c_def)
  then have "\<not> isspace c" "c \<noteq> 43" "c \<noteq> 45"
    by (auto simp: isdigit_def isspace_def)
  moreover have "digit_chars ds = c # digit_chars es"
    by (simp add: ds digit_chars_def c_def)
  ultimately show "atoi (digit_chars ds) = Some (int (decimal 0 ds))"
    using run assms(3) by (simp add: atoi_def int_ok_def)
  show "atoi (45 # digit_chars ds) = Some (- int (decimal 0 ds))"
    using run by (simp add: atoi_def isspace_def)
qed

section \<open>Elements of an array\<close>

definition element :: "u8 list \<Rightarrow> nat \<Rightarrow> nat \<Rightarrow> u8 list" where
  "element array sz k = subbuf array ((k - 1) * sz) sz"

definition elements :: "u8 list \<Rightarrow> nat \<Rightarrow> nat \<Rightarrow> u8 list list" where
  "elements array sz cnt = map (element array sz) [1..<Suc cnt]"

lemma do_compare_eq: "do_compare A a b sz compare = compare (element A sz a) (element A sz b)"
  by (simp add: do_compare_def element_def)

definition swapped :: "nat \<Rightarrow> nat \<Rightarrow> nat \<Rightarrow> nat" where
  "swapped a b k = (if k = a then b else if k = b then a else k)"

lemma swap_bytes:
  assumes "a + n \<le> length A" and "b + n \<le> length A" and "a = b \<or> a + n \<le> b \<or> b + n \<le> a"
  defines "A' \<equiv> fold (\<lambda>i arr. let t = arr ! (a + i) in arr[a + i := arr ! (b + i), b + i := t]) [0..<n] A"
  shows "length A' = length A \<and> (\<forall>j < length A. A' ! j =
    A ! (if a \<le> j \<and> j < a + n then b + (j - a) else if b \<le> j \<and> j < b + n then a + (j - b) else j))"
  using assms(1-3) unfolding A'_def
proof (induction n)
  case (Suc n)
  let ?f = "fold (\<lambda>i arr. let t = arr ! (a + i) in arr[a + i := arr ! (b + i), b + i := t]) [0..<n] A"
  have ih: "length ?f = length A" "\<forall>j < length A. ?f ! j =
    A ! (if a \<le> j \<and> j < a + n then b + (j - a) else if b \<le> j \<and> j < b + n then a + (j - b) else j)"
    using Suc by auto
  have "?f ! (a + n) = A ! (a + n)" "?f ! (b + n) = A ! (b + n)"
    using ih Suc.prems by auto
  then show ?case
    using ih Suc.prems by (auto simp: Let_def nth_list_update less_Suc_eq)
qed auto

lemma slot_bounds:
  assumes "1 \<le> k" and "k \<le> cnt"
  shows "(k - 1) * sz + sz \<le> cnt * (sz :: nat)"
proof -
  have "(k - 1) * sz + sz = k * sz"
    using assms(1) by (cases k) simp_all
  then show ?thesis
    using assms(2) by simp
qed

lemma slots_apart:
  assumes "1 \<le> a" and "1 \<le> b"
  shows "(a - 1) * sz = (b - 1) * sz \<and> a = b \<or> (a - 1) * sz + sz \<le> (b - 1) * sz \<or> (b - 1) * sz + sz \<le> (a - 1) * (sz :: nat)"
  using slot_bounds [of a "b - 1" sz] slot_bounds [of b "a - 1" sz] assms by (cases a b rule: linorder_cases) auto

lemma do_swap_elements:
  assumes "length A = cnt * sz" and "1 \<le> a" "a \<le> cnt" and "1 \<le> b" "b \<le> cnt"
  shows "length (do_swap A a b sz) = length A"
    and "1 \<le> k \<Longrightarrow> k \<le> cnt \<Longrightarrow> element (do_swap A a b sz) sz k = element A sz (swapped a b k)"
proof -
  let ?o = "\<lambda>k. (k - 1) * sz"
  note bounds = slot_bounds [of _ cnt sz]
  have swap: "length (do_swap A a b sz) = length A \<and> (\<forall>j < length A. do_swap A a b sz ! j =
    A ! (if ?o a \<le> j \<and> j < ?o a + sz then ?o b + (j - ?o a) else if ?o b \<le> j \<and> j < ?o b + sz then ?o a + (j - ?o b) else j))"
    unfolding do_swap_def Let_def
    by (rule swap_bytes [unfolded Let_def]) (use assms bounds slots_apart [of a b sz] in auto)
  then show "length (do_swap A a b sz) = length A"
    by simp
  assume k: "1 \<le> k" "k \<le> cnt"
  have "swapped a b k \<ge> 1" "swapped a b k \<le> cnt"
    using k assms by (auto simp: swapped_def)
  then have room: "?o (swapped a b k) + sz \<le> length A" "?o k + sz \<le> length A"
    using k bounds assms(1) by auto
  show "element (do_swap A a b sz) sz k = element A sz (swapped a b k)"
    unfolding element_def
  proof (rule nth_equalityI)
    fix i
    assume "i < length (subbuf (do_swap A a b sz) (?o k) sz)"
    then have i: "i < sz" "?o k + i < length A"
      using swap room by simp_all
    have "do_swap A a b sz ! (?o k + i) = A ! (?o (swapped a b k) + i)"
      unfolding swap [THEN conjunct2, rule_format, OF i(2)]
      using i(1) slots_apart [of a k sz] slots_apart [of b k sz] assms k by (auto simp: swapped_def)
    then show "subbuf (do_swap A a b sz) (?o k) sz ! i = subbuf A (?o (swapped a b k)) sz ! i"
      using i(1) swap room by simp
  qed (use swap room in simp)
qed

text \<open>Elements of no bytes aside, an element has \<open>sz\<close> bytes.\<close>

lemma length_element:
  assumes "length A = cnt * sz" and "1 \<le> k" "k \<le> cnt"
  shows "length (element A sz k) = sz"
  using slot_bounds [OF assms(2,3), of sz] assms(1) by (simp add: element_def)

lemma swap_mset:
  assumes "1 \<le> a" "a \<le> n" and "1 \<le> b" "b \<le> n"
  shows "mset (map (\<lambda>k. f (swapped a b k)) [1..<Suc n]) = mset (map f [1..<Suc n])"
proof -
  have "bij_betw (swapped a b) {1..n} {1..n}"
    using assms by (intro bij_betw_byWitness [where f' = "swapped a b"]) (auto simp: swapped_def)
  then have "image_mset (swapped a b) (mset_set {1..n}) = mset_set {1..n}"
    by (simp add: bij_betw_def image_mset_mset_set)
  then have "image_mset f (image_mset (swapped a b) (mset_set {1..n})) = image_mset f (mset_set {1..n})"
    by simp
  moreover have "mset [1..<Suc n] = mset_set {1..n}"
    by (simp only: mset_upt atLeastLessThanSuc_atLeastAtMost)
  ultimately show ?thesis
    by (simp add: multiset.map_comp comp_def del: upt_Suc)
qed


text \<open>Sifting an element down keeps the elements of the heap, as a multiset, and all that lie behind it.\<close>

lemma heapify_frame:
  assumes "length A = cnt * sz" and "1 \<le> i" and "i \<le> n" and "n \<le> cnt"
  shows "length (heapify A i n sz compare) = length A \<and>
    (\<forall>k. n < k \<and> k \<le> cnt \<longrightarrow> element (heapify A i n sz compare) sz k = element A sz k) \<and>
    mset (elements (heapify A i n sz compare) sz n) = mset (elements A sz n)"
  using assms
proof (induction A i n sz compare rule: heapify.induct)
  case (1 A i n sz compare)
  define m where "m = max_child A i n sz compare"
  show ?case
  proof (cases "m = i")
    case True
    then show ?thesis
      by (simp add: heapify.simps m_def)
  next
    case False
    then have m: "1 \<le> m" "m \<le> n"
      using 1(3) max_child_cases [of A i n sz compare] by (auto simp: m_def)
    note swap = do_swap_elements [OF 1(2) 1(3) _ m(1)]
    have len: "length (do_swap A i m sz) = length A"
      using swap(1) m 1 by simp
    have "elements (do_swap A i m sz) sz n = map (\<lambda>k. element A sz (swapped i m k)) [1..<Suc n]"
      unfolding elements_def using swap(2) m 1(4,5) by (intro map_cong refl) (simp del: upt_Suc)
    then have "mset (elements (do_swap A i m sz) sz n) = mset (elements A sz n)"
      using swap_mset [OF 1(3,4) m, of "element A sz"] by (simp only: elements_def)
    moreover have "element (do_swap A i m sz) sz k = element A sz k" if "n < k" "k \<le> cnt" for k
      using swap(2) [of k] that m 1(3-5) by (simp add: swapped_def)
    moreover have "heapify A i n sz compare = heapify (do_swap A i m sz) m n sz compare"
      using False by (simp add: heapify.simps [of A] m_def Let_def)
    ultimately show ?thesis
      using 1(1) [OF m_def] False m 1(2,5) len by simp
  qed
qed

lemma elements_split:
  assumes "n \<le> cnt"
  shows "elements A sz cnt = elements A sz n @ map (element A sz) [Suc n..<Suc cnt]"
  using upt_add_eq_append [of 1 "Suc n" "cnt - n"] assms by (simp add: elements_def del: upt_Suc)

lemma heapify_mset:
  assumes "length A = cnt * sz" and "1 \<le> i" and "i \<le> n" and "n \<le> cnt"
  shows "mset (elements (heapify A i n sz compare) sz cnt) = mset (elements A sz cnt)"
proof -
  have "map (element (heapify A i n sz compare) sz) [Suc n..<Suc cnt] = map (element A sz) [Suc n..<Suc cnt]"
    using heapify_frame [OF assms, of compare] by (intro map_cong refl) (simp del: upt_Suc)
  then show ?thesis
    using heapify_frame [OF assms, of compare] by (simp only: elements_split [OF assms(4)] mset_append)
qed

lemma do_swap_mset:
  assumes "length A = cnt * sz" and "1 \<le> a" "a \<le> cnt" and "1 \<le> b" "b \<le> cnt"
  shows "mset (elements (do_swap A a b sz) sz cnt) = mset (elements A sz cnt)"
proof -
  have "elements (do_swap A a b sz) sz cnt = map (\<lambda>k. element A sz (swapped a b k)) [1..<Suc cnt]"
    unfolding elements_def using do_swap_elements(2) [OF assms] by (intro map_cong refl) (simp del: upt_Suc)
  then show ?thesis
    using swap_mset [OF assms(2-), of "element A sz"] by (simp only: elements_def)
qed

section \<open>Heaps\<close>

text \<open>
  No child is larger than its parent, for the parents from \<open>lo\<close> on; and the same with the exception of the children of
  \<open>i\<close>, which are still not larger than the parent of \<open>i\<close>.
\<close>

definition heap_order :: "(u8 list \<Rightarrow> u8 list \<Rightarrow> int) \<Rightarrow> u8 list \<Rightarrow> nat \<Rightarrow> nat \<Rightarrow> nat \<Rightarrow> bool" where
  "heap_order compare A sz lo n \<longleftrightarrow>
     (\<forall>c \<le> n. lo \<le> c div 2 \<longrightarrow> compare (element A sz c) (element A sz (c div 2)) \<le> 0)"

definition heap_but :: "(u8 list \<Rightarrow> u8 list \<Rightarrow> int) \<Rightarrow> u8 list \<Rightarrow> nat \<Rightarrow> nat \<Rightarrow> nat \<Rightarrow> nat \<Rightarrow> bool" where
  "heap_but compare A sz lo n i \<longleftrightarrow>
     (\<forall>c \<le> n. lo \<le> c div 2 \<and> c div 2 \<noteq> i \<longrightarrow> compare (element A sz c) (element A sz (c div 2)) \<le> 0) \<and>
     (\<forall>c \<le> n. c div 2 = i \<and> lo \<le> i div 2 \<longrightarrow> compare (element A sz c) (element A sz (i div 2)) \<le> 0)"

text \<open>What the library expects of a comparison: \<open>strcmp\<close>-type results on elements of the array.\<close>

locale comparator =
  fixes compare :: "u8 list \<Rightarrow> u8 list \<Rightarrow> int" and sz :: nat
  assumes compare_sym: "length a = sz \<Longrightarrow> length b = sz \<Longrightarrow> compare a b > 0 \<longleftrightarrow> compare b a < 0"
    and compare_trans: "length a = sz \<Longrightarrow> length b = sz \<Longrightarrow> length c = sz \<Longrightarrow>
      compare a b \<le> 0 \<Longrightarrow> compare b c \<le> 0 \<Longrightarrow> compare a c \<le> 0"
begin

lemma compare_refl: "length a = sz \<Longrightarrow> compare a a \<le> 0"
  using compare_sym [of a a] by linarith

lemma compare_total: "length a = sz \<Longrightarrow> length b = sz \<Longrightarrow> \<not> compare a b > 0 \<longleftrightarrow> compare a b \<le> 0"
  by linarith

lemma compare_gt: "length a = sz \<Longrightarrow> length b = sz \<Longrightarrow> compare a b > 0 \<Longrightarrow> compare b a \<le> 0"
  using compare_sym [of a b] by linarith

lemma max_child_max:
  assumes "length A = cnt * sz" and "1 \<le> i" and "i \<le> n" and "n \<le> cnt"
  defines "m \<equiv> max_child A i n sz compare"
  shows "m = i \<or> m = 2 * i \<or> m = 2 * i + 1" and "m \<le> n"
    and "compare (element A sz i) (element A sz m) \<le> 0"
    and "c \<le> n \<Longrightarrow> c div 2 = i \<Longrightarrow> compare (element A sz c) (element A sz m) \<le> 0"
proof -
  have len: "length (element A sz k) = sz" if "1 \<le> k" "k \<le> n" for k
    using that assms(4) by (intro length_element [OF assms(1)]) auto
  show "m = i \<or> m = 2 * i \<or> m = 2 * i + 1" "m \<le> n"
    using assms(3) by (auto simp: m_def max_child_def Let_def)
  define l where "l = (if 2 * i \<le> n \<and> compare (element A sz (2 * i)) (element A sz i) > 0 then 2 * i else i)"
  have l: "1 \<le> l" "l \<le> n" "compare (element A sz i) (element A sz l) \<le> 0"
    "2 * i \<le> n \<Longrightarrow> compare (element A sz (2 * i)) (element A sz l) \<le> 0"
    using assms(2,3) len compare_gt compare_refl by (auto simp: l_def)
  have m: "m = (if 2 * i + 1 \<le> n \<and> compare (element A sz (2 * i + 1)) (element A sz l) > 0 then 2 * i + 1 else l)"
    by (simp add: m_def max_child_def Let_def l_def do_compare_eq)
  have up: "compare (element A sz l) (element A sz m) \<le> 0"
    using l len compare_gt compare_refl by (auto simp: m)
  have m_ok: "1 \<le> m" "m \<le> n"
    using l by (auto simp: m)
  show "compare (element A sz i) (element A sz m) \<le> 0"
    using compare_trans [OF _ _ _ l(3) up] len l m_ok assms(2,3) by simp
  assume c: "c \<le> n" "c div 2 = i"
  then consider "c = 2 * i" | "c = 2 * i + 1"
    by linarith
  then show "compare (element A sz c) (element A sz m) \<le> 0"
  proof cases
    case 1
    then show ?thesis
      using compare_trans [OF _ _ _ l(4) up] len l m_ok assms(2) c by simp
  next
    case 2
    then show ?thesis
      using len compare_refl c by (auto simp: m)
  qed
qed

lemma sift_step:
  assumes "length A = cnt * sz" and "1 \<le> lo" and "lo \<le> i" and "i \<le> n" and "n \<le> cnt"
    and but: "heap_but compare A sz lo n i"
  defines "m \<equiv> max_child A i n sz compare"
  shows "m = i \<Longrightarrow> heap_order compare A sz lo n"
    and "m \<noteq> i \<Longrightarrow> heap_but compare (do_swap A i m sz) sz lo n m"
proof -
  note m = max_child_max [OF assms(1) _ assms(4,5), folded m_def]
  have i: "1 \<le> i"
    using assms(2,3) by simp
  show "heap_order compare A sz lo n" if "m = i"
    using but m(4) [OF i] that unfolding heap_order_def heap_but_def by auto
  assume "m \<noteq> i"
  then have par: "m div 2 = i" "i < m"
    using m(1) [OF i] i by auto
  let ?B = "do_swap A i m sz"
  have B: "element ?B sz k = element A sz (swapped i m k)" if "1 \<le> k" "k \<le> n" for k
    using do_swap_elements(2) [OF assms(1) i _ _ _ that(1)] m(2) [OF i] assms(4,5) i par that by simp
  show "heap_but compare ?B sz lo n m"
    unfolding heap_but_def
  proof (intro conjI allI impI)
    fix c
    assume c: "c \<le> n" "lo \<le> c div 2 \<and> c div 2 \<noteq> m"
    then have "1 \<le> c" "1 \<le> c div 2" "c div 2 \<le> n" "c \<noteq> c div 2"
      using assms(2) by auto
    then show "compare (element ?B sz c) (element ?B sz (c div 2)) \<le> 0"
      using B [of c] B [of "c div 2"] c but m(3) [OF i] m(4) [OF i c(1)] m(2) [OF i] par
      unfolding heap_but_def swapped_def by auto
  next
    fix c
    assume c: "c \<le> n" "c div 2 = m \<and> lo \<le> m div 2"
    then have "1 \<le> c" "c \<noteq> m" "c \<noteq> i"
      using par i by auto
    then have "element ?B sz c = element A sz c" "element ?B sz (m div 2) = element A sz m"
      using B [of c] B [of i] c par i assms(4) by (auto simp: swapped_def)
    then show "compare (element ?B sz c) (element ?B sz (m div 2)) \<le> 0"
      using but c par assms(3) unfolding heap_but_def by auto
  qed
qed

lemma heapify_heap:
  assumes "length A = cnt * sz" and "1 \<le> lo" and "lo \<le> i" and "i \<le> n" and "n \<le> cnt"
    and "heap_but compare A sz lo n i"
  shows "heap_order compare (heapify A i n sz compare) sz lo n"
  using assms
proof (induction "Suc n - i" arbitrary: A i rule: less_induct)
  case less
  define m where "m = max_child A i n sz compare"
  note step = sift_step [OF less.prems, folded m_def]
  show ?case
  proof (cases "m = i")
    case True
    then show ?thesis
      using step(1) by (simp add: heapify.simps m_def)
  next
    case False
    then have m: "i < m" "m \<le> n"
      using max_child_cases [of A i n sz compare] less.prems(2,3) by (auto simp: m_def)
    then have "length (do_swap A i m sz) = cnt * sz"
      using do_swap_elements(1) [OF less.prems(1), of i m] less.prems by simp
    then have "heap_order compare (heapify (do_swap A i m sz) m n sz compare) sz lo n"
      using less.hyps [of m "do_swap A i m sz"] less.prems m step(2) [OF False] by simp
    then show ?thesis
      using False by (simp add: heapify.simps [of A] m_def Let_def)
  qed
qed

lemma build_heap_heap:
  assumes "length A = cnt * sz" and "i \<le> cnt" and "heap_order compare A sz (Suc i) cnt"
  shows "length (build_heap A i cnt sz compare) = length A \<and>
    heap_order compare (build_heap A i cnt sz compare) sz 1 cnt \<and>
    mset (elements (build_heap A i cnt sz compare) sz cnt) = mset (elements A sz cnt)"
  using assms
proof (induction i arbitrary: A)
  case (Suc i)
  let ?B = "heapify A (Suc i) cnt sz compare"
  have "heap_but compare A sz (Suc i) cnt (Suc i)"
    using Suc.prems(3) by (auto simp: heap_order_def heap_but_def)
  then have "heap_order compare ?B sz (Suc i) cnt"
    using Suc.prems by (intro heapify_heap [OF Suc.prems(1)]) auto
  moreover have "length ?B = length A" "mset (elements ?B sz cnt) = mset (elements A sz cnt)"
    using heapify_frame [OF Suc.prems(1), of "Suc i" cnt compare] Suc.prems(2) by auto
  ultimately show ?case
    using Suc.IH [of ?B] Suc.prems by simp
qed simp

lemma root_is_max:
  assumes "length A = cnt * sz" and "heap_order compare A sz 1 n" and "n \<le> cnt" and "1 \<le> k" and "k \<le> n"
  shows "compare (element A sz k) (element A sz 1) \<le> 0"
  using assms(4,5)
proof (induction k rule: less_induct)
  case (less k)
  have len: "length (element A sz j) = sz" if "1 \<le> j" "j \<le> n" for j
    using that assms(3) by (intro length_element [OF assms(1)]) auto
  show ?case
  proof (cases "k = 1")
    case True
    then show ?thesis
      using compare_refl len less.prems by simp
  next
    case False
    then have half: "1 \<le> k div 2" "k div 2 < k"
      using less.prems by auto
    then have "compare (element A sz k) (element A sz (k div 2)) \<le> 0"
      using assms(2) less.prems by (simp add: heap_order_def)
    moreover have "compare (element A sz (k div 2)) (element A sz 1) \<le> 0"
      using half less by simp
    ultimately show ?thesis
      using compare_trans len less.prems half by (meson le_trans less_or_eq_imp_le order_refl)
  qed
qed

lemma sort_heap_step:
  assumes "length A = cnt * sz" and "heap_order compare A sz 1 (Suc i)" and "0 < i" and "Suc i \<le> cnt"
    and le: "\<And>k j. 1 \<le> k \<Longrightarrow> k \<le> Suc i \<Longrightarrow> Suc i < j \<Longrightarrow> j \<le> cnt \<Longrightarrow> compare (element A sz k) (element A sz j) \<le> 0"
    and up: "\<And>k j. Suc i < k \<Longrightarrow> k < j \<Longrightarrow> j \<le> cnt \<Longrightarrow> compare (element A sz k) (element A sz j) \<le> 0"
  defines "B \<equiv> do_swap A 1 (Suc i) sz"
  defines "C \<equiv> heapify B 1 i sz compare"
  shows "length C = cnt * sz" and "heap_order compare C sz 1 i"
    and "1 \<le> k \<Longrightarrow> k \<le> i \<Longrightarrow> i < j \<Longrightarrow> j \<le> cnt \<Longrightarrow> compare (element C sz k) (element C sz j) \<le> 0"
    and "i < k \<Longrightarrow> k < j \<Longrightarrow> j \<le> cnt \<Longrightarrow> compare (element C sz k) (element C sz j) \<le> 0"
proof -
  have B: "length B = cnt * sz"
    "\<And>k. 1 \<le> k \<Longrightarrow> k \<le> cnt \<Longrightarrow> element B sz k = element A sz (swapped 1 (Suc i) k)"
    using do_swap_elements [OF assms(1), of 1 "Suc i"] assms(1,4) by (simp_all add: B_def)
  have "heap_but compare B sz 1 i 1"
    unfolding heap_but_def
    using assms(2,4) by (auto simp: heap_order_def B(2) swapped_def)
  then show "heap_order compare C sz 1 i"
    unfolding C_def using assms(3,4) by (intro heapify_heap [OF B(1)]) auto
  note frame = heapify_frame [OF B(1), of 1 i compare, folded C_def]
  show "length C = cnt * sz"
    using frame assms(3,4) B(1) by simp
  have beyond: "element C sz j = element A sz (if j = Suc i then 1 else j)" if "i < j" "j \<le> cnt" for j
    using frame that assms(3,4) B(2) [of j] by (auto simp: swapped_def)
  have inside: "\<exists>k'. 1 \<le> k' \<and> k' \<le> Suc i \<and> element C sz k = element A sz k'" if "1 \<le> k" "k \<le> i" for k
  proof -
    have "set (elements C sz i) = set (elements B sz i)"
      using frame assms(3,4) by (intro mset_eq_setD) simp
    moreover have "element C sz k \<in> set (elements C sz i)"
      using that by (auto simp: elements_def simp del: upt_Suc)
    ultimately have "element C sz k \<in> set (elements B sz i)"
      by simp
    then obtain k' where k': "1 \<le> k'" "k' \<le> i" "element C sz k = element B sz k'"
      by (auto simp: elements_def simp del: upt_Suc)
    then show ?thesis
      using B(2) [of k'] assms(3,4) by (intro exI [of _ "swapped 1 (Suc i) k'"]) (auto simp: swapped_def)
  qed
  show "compare (element C sz k) (element C sz j) \<le> 0" if k: "1 \<le> k" "k \<le> i" and j: "i < j" "j \<le> cnt"
  proof -
    obtain k' where "1 \<le> k'" "k' \<le> Suc i" "element C sz k = element A sz k'"
      using inside [OF k] by blast
    then show ?thesis
      using beyond [OF j] le [of k' j] root_is_max [OF assms(1,2,4), of k'] j by auto
  qed
  show "compare (element C sz k) (element C sz j) \<le> 0" if "i < k" "k < j" "j \<le> cnt"
    using that beyond [of k] beyond [of j] up [of k j] le [of 1 j] by auto
qed

lemma elements_sorted:
  assumes "\<And>k j. 1 \<le> k \<Longrightarrow> k < j \<Longrightarrow> j \<le> cnt \<Longrightarrow> compare (element A sz k) (element A sz j) \<le> 0"
  shows "sorted_wrt (\<lambda>a b. compare a b \<le> 0) (elements A sz cnt)"
  using assms by (simp add: elements_def sorted_wrt_map sorted_wrt_iff_nth_less del: upt_Suc)

lemma sort_heap_sorts:
  assumes "length A = cnt * sz" and "heap_order compare A sz 1 i" and "i \<le> cnt"
    and "\<And>k j. 1 \<le> k \<Longrightarrow> k \<le> i \<Longrightarrow> i < j \<Longrightarrow> j \<le> cnt \<Longrightarrow> compare (element A sz k) (element A sz j) \<le> 0"
    and "\<And>k j. i < k \<Longrightarrow> k < j \<Longrightarrow> j \<le> cnt \<Longrightarrow> compare (element A sz k) (element A sz j) \<le> 0"
  shows "length (sort_heap A i sz compare) = cnt * sz \<and>
    sorted_wrt (\<lambda>a b. compare a b \<le> 0) (elements (sort_heap A i sz compare) sz cnt) \<and>
    mset (elements (sort_heap A i sz compare) sz cnt) = mset (elements A sz cnt)"
  using assms
proof (induction i arbitrary: A)
  case 0
  then show ?case
    using elements_sorted [of cnt A] by simp
next
  case (Suc i)
  show ?case
  proof (cases "i = 0")
    case True
    have "compare (element A sz k) (element A sz j) \<le> 0" if "1 \<le> k" "k < j" "j \<le> cnt" for k j
      using Suc.prems(4,5) [of k j] that True by (cases "k = 1") auto
    then show ?thesis
      using elements_sorted [of cnt A] Suc.prems(1) True by simp
  next
    case False
    let ?C = "heapify (do_swap A 1 (Suc i) sz) 1 i sz compare"
    note step = sort_heap_step [OF Suc.prems(1,2) _ Suc.prems(3-5)]
    have "mset (elements ?C sz cnt) = mset (elements A sz cnt)"
      using heapify_mset [of "do_swap A 1 (Suc i) sz" cnt sz 1 i compare] do_swap_mset [OF Suc.prems(1), of 1 "Suc i"]
        do_swap_elements(1) [OF Suc.prems(1), of 1 "Suc i"] Suc.prems(1,3) False by simp
    moreover have "length (sort_heap ?C i sz compare) = cnt * sz \<and>
        sorted_wrt (\<lambda>a b. compare a b \<le> 0) (elements (sort_heap ?C i sz compare) sz cnt) \<and>
        mset (elements (sort_heap ?C i sz compare) sz cnt) = mset (elements ?C sz cnt)"
      by (rule Suc.IH) (use step False Suc.prems(3) in auto)
    ultimately show ?thesis
      using False by simp
  qed
qed

lemma sort_array_sorts:
  assumes "length A = cnt * sz" and "0 < sz"
  obtains B where "sort_array A cnt sz compare = Some B" and "length B = cnt * sz"
    and "sorted_wrt (\<lambda>a b. compare a b \<le> 0) (elements B sz cnt)"
    and "mset (elements B sz cnt) = mset (elements A sz cnt)"
proof -
  let ?H = "build_heap A (cnt div 2) cnt sz compare"
  have "heap_order compare A sz (Suc (cnt div 2)) cnt"
    by (auto simp: heap_order_def dest: div_le_mono [of _ _ 2])
  then have H: "length ?H = cnt * sz" "heap_order compare ?H sz 1 cnt" "mset (elements ?H sz cnt) = mset (elements A sz cnt)"
    using build_heap_heap [OF assms(1), of "cnt div 2"] assms(1) by simp_all
  show thesis
    using that [of "sort_heap ?H cnt sz compare"] sort_heap_sorts [OF H(1,2)] H(3) assms(2)
    by (simp add: sort_array_def)
qed

text \<open>The order around a key in a sorted array.\<close>

lemma compare_less_trans:
  assumes "length k = sz" "length a = sz" "length b = sz"
  shows "compare k a < 0 \<Longrightarrow> compare a b \<le> 0 \<Longrightarrow> compare k b < 0"
    and "compare k b > 0 \<Longrightarrow> compare a b \<le> 0 \<Longrightarrow> compare k a > 0"
proof -
  show "compare k b < 0" if "compare k a < 0" "compare a b \<le> 0"
    using that compare_trans [of a b k] compare_sym [of a k] compare_sym [of b k] assms by linarith
  show "compare k a > 0" if "compare k b > 0" "compare a b \<le> 0"
    using that compare_trans [of k a b] assms by linarith
qed

lemma search_loop_finds:
  assumes "length A = cnt * sz" and "0 < sz" and "length key = sz"
    and sorted: "\<And>k j. 1 \<le> k \<Longrightarrow> k < j \<Longrightarrow> j \<le> cnt \<Longrightarrow> compare (element A sz k) (element A sz j) \<le> 0"
    and "f \<le> l" and "l \<le> cnt"
    and "\<And>k. 1 \<le> k \<Longrightarrow> k \<le> f \<Longrightarrow> compare key (element A sz k) > 0"
    and "\<And>k. l < k \<Longrightarrow> k \<le> cnt \<Longrightarrow> compare key (element A sz k) < 0"
  shows "case search_loop key A (f * sz) (l * sz) sz compare of
      None \<Rightarrow> \<forall>k. 1 \<le> k \<and> k \<le> cnt \<longrightarrow> compare key (element A sz k) \<noteq> 0
    | Some p \<Rightarrow> \<exists>k < cnt. p = k * sz \<and> compare key (element A sz (Suc k)) = 0"
  using assms(5-)
proof (induction "l - f" arbitrary: f l rule: less_induct)
  case less
  have len: "length (element A sz k) = sz" if "1 \<le> k" "k \<le> cnt" for k
    using that by (intro length_element [OF assms(1)]) auto
  show ?case
  proof (cases "f < l")
    case False
    then have "compare key (element A sz k) \<noteq> 0" if "1 \<le> k" "k \<le> cnt" for k
      using less.prems(1) less.prems(3,4) [of k] that by (cases "k \<le> f") fastforce+
    then show ?thesis
      using False by (simp add: search_loop.simps)
  next
    case True
    define mid where "mid = f + (l - f) div 2"
    have mid: "f \<le> mid" "mid < l" "Suc mid \<le> cnt"
      using True less.prems(2) by (simp_all add: mid_def)
    have "(l * sz - f * sz) div sz = l - f"
      using assms(2) by (simp flip: diff_mult_distrib)
    then have offset: "f * sz + (l * sz - f * sz) div sz div 2 * sz = mid * sz"
      by (simp add: mid_def add_mult_distrib)
    have elem: "subbuf A (mid * sz) sz = element A sz (Suc mid)"
      by (simp add: element_def)
    let ?c = "compare key (element A sz (Suc mid))"
    have run: "search_loop key A (f * sz) (l * sz) sz compare =
        (if ?c < 0 then search_loop key A (f * sz) (mid * sz) sz compare
         else if ?c > 0 then search_loop key A (Suc mid * sz) (l * sz) sz compare else Some (mid * sz))"
      using True assms(2) by (simp add: search_loop.simps [of key A "f * sz"] Let_def offset elem add.commute)
    consider "?c < 0" | "?c > 0" | "?c = 0"
      by linarith
    then show ?thesis
    proof cases
      case 1
      have "compare key (element A sz k) < 0" if "mid < k" "k \<le> cnt" for k
        using that 1 compare_less_trans(1) [OF assms(3) len len, of "Suc mid" k] sorted [of "Suc mid" k]
        by (cases "k = Suc mid") auto
      then show ?thesis
        unfolding run if_P [OF 1] using less.hyps [of mid f] less.prems mid True by simp
    next
      case 2
      have "compare key (element A sz k) > 0" if "1 \<le> k" "k \<le> Suc mid" for k
        using that 2 mid compare_less_trans(2) [OF assms(3) len len, of k "Suc mid"] sorted [of k "Suc mid"]
        by (cases "k = Suc mid") auto
      then have "case search_loop key A (Suc mid * sz) (l * sz) sz compare of
          None \<Rightarrow> \<forall>k. 1 \<le> k \<and> k \<le> cnt \<longrightarrow> compare key (element A sz k) \<noteq> 0
        | Some p \<Rightarrow> \<exists>k < cnt. p = k * sz \<and> compare key (element A sz (Suc k)) = 0"
        using less.prems mid True by (intro less.hyps) auto
      then show ?thesis
        using 2 unfolding run by simp
    next
      case 3
      then have "mid < cnt \<and> mid * sz = mid * sz \<and> ?c = 0"
        using mid by simp
      then show ?thesis
        unfolding run using 3 by (auto intro: exI [of _ mid])
    qed
  qed
qed

end

text \<open>Blocks of bytes are compared by \<open>memcmp\<close> as the library expects it.\<close>

interpretation memcmp_order: comparator bytes_cmp sz for sz :: nat
proof
  fix a b c :: "u8 list"
  assume len: "length a = sz" "length b = sz"
  then show "bytes_cmp a b > 0 \<longleftrightarrow> bytes_cmp b a < 0"
    using bytes_cmp_sym [of a b] by auto
  assume "length c = sz" "bytes_cmp a b \<le> 0" "bytes_cmp b c \<le> 0"
  then show "bytes_cmp a c \<le> 0"
    using len bytes_cmp_trans [of a b c] by simp
qed

lemma sorted_elements:
  assumes "sorted_wrt P (elements A sz cnt)" and "1 \<le> k" and "k < j" and "j \<le> cnt"
  shows "P (element A sz k) (element A sz j)"
  using sorted_wrt_nth_less [OF assms(1), of "k - 1" "j - 1"] assms(2-4) by (simp add: elements_def del: upt_Suc)

text \<open>C13: For a comparison with \<open>strcmp\<close>-type results, \<open>qsort\<close> leaves the elements of an array in order, each as often as
  it was there before; and \<open>bsearch\<close> on the sorted array returns a matching element, or null exactly when the
  original array had none.\<close>

theorem qsort_bsearch_correct:
  assumes "comparator compare sz" and "0 < sz" and "length A = cnt * sz"
  shows "\<exists>B. qsort A cnt sz compare = Some B \<and> length B = length A \<and>
    sorted_wrt (\<lambda>a b. compare a b \<le> 0) (elements B sz cnt) \<and>
    mset (elements B sz cnt) = mset (elements A sz cnt) \<and>
    (\<forall>key. length key = sz \<longrightarrow> (case bsearch key B cnt sz compare of
        None \<Rightarrow> \<forall>e \<in> set (elements A sz cnt). compare key e \<noteq> 0
      | Some p \<Rightarrow> \<exists>k < cnt. p = k * sz \<and> compare key (element B sz (Suc k)) = 0))"
proof -
  have thunk: "compare_thunk compare = compare"
    by (intro ext) (simp add: compare_thunk_def)
  obtain B where B: "sort_array A cnt sz compare = Some B" "length B = cnt * sz"
    "sorted_wrt (\<lambda>a b. compare a b \<le> 0) (elements B sz cnt)" "mset (elements B sz cnt) = mset (elements A sz cnt)"
    using comparator.sort_array_sorts [OF assms(1) assms(3,2)] by blast
  have set: "set (elements A sz cnt) = element B sz ` {1..cnt}"
    using mset_eq_setD [OF B(4)]
    by (simp only: elements_def set_map set_upt atLeastLessThanSuc_atLeastAtMost)
  have search: "case search_loop key B (0 * sz) (cnt * sz) sz compare of
      None \<Rightarrow> \<forall>k. 1 \<le> k \<and> k \<le> cnt \<longrightarrow> compare key (element B sz k) \<noteq> 0
    | Some p \<Rightarrow> \<exists>k < cnt. p = k * sz \<and> compare key (element B sz (Suc k)) = 0" if "length key = sz" for key
    using sorted_elements [OF B(3)] by (intro comparator.search_loop_finds [OF assms(1) B(2) assms(2) that]) auto
  have "case bsearch key B cnt sz compare of
        None \<Rightarrow> \<forall>e \<in> set (elements A sz cnt). compare key e \<noteq> 0
      | Some p \<Rightarrow> \<exists>k < cnt. p = k * sz \<and> compare key (element B sz (Suc k)) = 0" if "length key = sz" for key
    using search [OF that] by (auto simp: bsearch_def binary_search_def thunk set mult.commute split: option.splits)
  then show ?thesis
    using B assms(3) by (intro exI [of _ B]) (simp add: qsort_def thunk)
qed

text \<open>Four elements of two bytes.\<close>

definition sample_array :: "u8 list" where
  "sample_array = [2, 1, 0, 9, 2, 0, 1, 7]"

theorem qsort_bsearch_correct_witness:
  "qsort sample_array 4 2 bytes_cmp = Some [0, 9, 1, 7, 2, 0, 2, 1] \<and>
   (\<exists>B. qsort sample_array 4 2 bytes_cmp = Some B \<and> sorted_wrt (\<lambda>a b. bytes_cmp a b \<le> 0) (elements B 2 4) \<and>
        mset (elements B 2 4) = mset (elements sample_array 2 4) \<and>
        (case bsearch [2, 0] B 4 2 bytes_cmp of
           None \<Rightarrow> \<forall>e \<in> set (elements sample_array 2 4). bytes_cmp [2, 0] e \<noteq> 0
         | Some p \<Rightarrow> \<exists>k < 4. p = k * 2 \<and> bytes_cmp [2, 0] (element B 2 (Suc k)) = 0))"
proof
  show "qsort sample_array 4 2 bytes_cmp = Some [0, 9, 1, 7, 2, 0, 2, 1]"
    by code_simp
  have two: "length [2, 0 :: u8] = 2" and len: "length sample_array = 4 * 2"
    by (simp_all add: sample_array_def)
  show "\<exists>B. qsort sample_array 4 2 bytes_cmp = Some B \<and> sorted_wrt (\<lambda>a b. bytes_cmp a b \<le> 0) (elements B 2 4) \<and>
        mset (elements B 2 4) = mset (elements sample_array 2 4) \<and>
        (case bsearch [2, 0] B 4 2 bytes_cmp of
           None \<Rightarrow> \<forall>e \<in> set (elements sample_array 2 4). bytes_cmp [2, 0] e \<noteq> 0
         | Some p \<Rightarrow> \<exists>k < 4. p = k * 2 \<and> bytes_cmp [2, 0] (element B 2 (Suc k)) = 0)"
  proof -
    have "\<exists>B. qsort sample_array 4 2 bytes_cmp = Some B \<and> length B = length sample_array \<and>
        sorted_wrt (\<lambda>a b. bytes_cmp a b \<le> 0) (elements B 2 4) \<and>
        mset (elements B 2 4) = mset (elements sample_array 2 4) \<and>
        (\<forall>key. length key = 2 \<longrightarrow> (case bsearch key B 4 2 bytes_cmp of
            None \<Rightarrow> \<forall>e \<in> set (elements sample_array 2 4). bytes_cmp key e \<noteq> 0
          | Some p \<Rightarrow> \<exists>k < 4. p = k * 2 \<and> bytes_cmp key (element B 2 (Suc k)) = 0))"
      by (rule qsort_bsearch_correct [OF memcmp_order.comparator_axioms _ len]) simp
    then show ?thesis
      using two by (elim exE conjE) (intro exI conjI; blast)
  qed
qed

end
