(* ===== verification/Lib_Random.thy ===== *)
theory Lib_Random
  imports Pintos_Prelude "HOL-Library.Multiset"
begin

text \<open>
  The pseudo-random number generator (\<open>lib/random.c\<close>): its static variables as a record, one function for each
  operation.  Bytes wrap around.
\<close>

record rng =
  s_box :: "u8 list"
  s_i :: u8
  s_j :: u8
  inited :: bool

definition swap_byte :: "u8 list \<Rightarrow> nat \<Rightarrow> nat \<Rightarrow> u8 list" where
  "swap_byte s a b = (let t = s ! a in s[a := s ! b, b := t])"

fun mix_seed :: "u8 list \<Rightarrow> u8 list \<Rightarrow> u8 \<Rightarrow> nat list \<Rightarrow> u8 list" where
  "mix_seed seedp s j [] = s"
| "mix_seed seedp s j (i # is) = (
     let j = j + (s ! i + seedp ! (i mod 4))
     in mix_seed seedp (swap_byte s i (unat j)) j is)"

definition random_init :: "rng \<Rightarrow> u32 \<Rightarrow> rng" where
  "random_init r seed = (
     let s = map of_nat [0..<256]
     in r\<lparr>s_box := mix_seed (enc32 seed) s 0 [0..<256], s_i := 0, s_j := 0, inited := True\<rparr>)"

definition random_byte :: "rng \<Rightarrow> u8 \<times> rng" where
  "random_byte r = (
     let i = s_i r + 1;
         j = s_j r + s_box r ! unat i;
         s = swap_byte (s_box r) (unat i) (unat j);
         k = s ! unat i + s ! unat j
     in (s ! unat k, r\<lparr>s_box := s, s_i := i, s_j := j\<rparr>))"

fun random_loop :: "rng \<Rightarrow> nat \<Rightarrow> u8 list \<times> rng" where
  "random_loop r 0 = ([], r)"
| "random_loop r (Suc n) = (let (b, r) = random_byte r; (bs, r) = random_loop r n in (b # bs, r))"

definition random_bytes :: "rng \<Rightarrow> nat \<Rightarrow> u8 list \<times> rng" where
  "random_bytes r n = random_loop (if inited r then r else random_init r 0) n"

definition random_ulong :: "rng \<Rightarrow> u32 \<times> rng" where
  "random_ulong r = (let (bs, r) = random_bytes r 4 in (dec32 bs, r))"

section \<open>The state is a permutation of the bytes\<close>

definition rng_ok :: "rng \<Rightarrow> bool" where
  "rng_ok r \<longleftrightarrow> mset (s_box r) = mset (map of_nat [0..<256])"

lemma swap_byte_mset: "a < length s \<Longrightarrow> b < length s \<Longrightarrow> mset (swap_byte s a b) = mset s"
  using mset_swap [of b s a] by (simp add: swap_byte_def Let_def list_update_swap)

lemma length_swap_byte [simp]: "length (swap_byte s a b) = length s"
  by (simp add: swap_byte_def Let_def)

lemma unat_byte: "unat (b :: u8) < 256"
  using unsigned_less [of b, where 'a = nat] by simp

lemma mix_seed_mset: "length s = 256 \<Longrightarrow> \<forall>i \<in> set is. i < 256 \<Longrightarrow> mset (mix_seed seedp s j is) = mset s"
  by (induction seedp s j "is" rule: mix_seed.induct) (simp_all add: Let_def swap_byte_mset unat_byte)

lemma random_init_ok: "rng_ok (random_init r seed)"
  by (simp add: rng_ok_def random_init_def mix_seed_mset)

lemma rng_ok_length: "rng_ok r \<Longrightarrow> length (s_box r) = 256"
  unfolding rng_ok_def by (drule mset_eq_length) simp

lemma random_byte_ok: "rng_ok r \<Longrightarrow> rng_ok (snd (random_byte r))"
  using rng_ok_length [of r] by (simp add: random_byte_def Let_def rng_ok_def swap_byte_mset unat_byte)

lemma random_loop_ok: "rng_ok r \<Longrightarrow> rng_ok (snd (random_loop r n)) \<and> length (fst (random_loop r n)) = n"
  by (induction n arbitrary: r) (auto simp: split_beta dest: random_byte_ok)

text \<open>Whatever is drawn, the generator's table holds every byte exactly once, so no index it uses is out of range.\<close>

lemma random_bytes_ok:
  assumes "inited r \<Longrightarrow> rng_ok r"
  shows "rng_ok (snd (random_bytes r n))" and "length (fst (random_bytes r n)) = n"
  using assms random_init_ok random_loop_ok by (auto simp: random_bytes_def)

end
