(* ===== verification/Userprog_Pagedir.thy ===== *)
theory Userprog_Pagedir
  imports Threads_Palloc
begin

text \<open>
  Page tables (\<open>threads/pte.h\<close>) and page directories (\<open>userprog/pagedir.c\<close>).

  The state holds the allocator with the contents of memory, the kernel's own page directory, the number of
  pages of physical memory and the register CR3.  Page directories and page tables are in memory, as 32-bit words;
  the kernel reaches physical memory at \<open>PHYS_BASE\<close>.  Re-activating a directory to clear the translation
  lookaside buffer stores the same value into CR3.
\<close>

record vm =
  alloc :: palloc_state
  init_page_dir :: ptr
  init_ram_pages :: u32
  cr3 :: u32

definition rd32 :: "(ptr \<Rightarrow> u8) \<Rightarrow> ptr \<Rightarrow> u32" where
  "rd32 mm p = dec32 (map (\<lambda>j. mm (p + of_nat j)) [0..<4])"

definition wr32 :: "(ptr \<Rightarrow> u8) \<Rightarrow> ptr \<Rightarrow> u32 \<Rightarrow> ptr \<Rightarrow> u8" where
  "wr32 mm p v = (\<lambda>a. if unat (a - p) < 4 then enc32 v ! unat (a - p) else mm a)"

abbreviation vmem :: "vm \<Rightarrow> ptr \<Rightarrow> u8" where
  "vmem s \<equiv> mem (alloc s)"

definition put32 :: "vm \<Rightarrow> ptr \<Rightarrow> u32 \<Rightarrow> vm" where
  "put32 s p v = s\<lparr>alloc := (alloc s)\<lparr>mem := wr32 (vmem s) p v\<rparr>\<rparr>"

section \<open>Page table entries\<close>

unbundle bit_operations_syntax

definition PTSHIFT :: nat where "PTSHIFT = PGBITS"
definition PTBITS :: nat where "PTBITS = 10"
definition PTMASK :: u32 where "PTMASK = BITMASK PTSHIFT PTBITS"
definition PDSHIFT :: nat where "PDSHIFT = PTSHIFT + PTBITS"

definition pt_no :: "ptr \<Rightarrow> u32" where
  "pt_no va = drop_bit PTSHIFT (va AND PTMASK)"

definition pd_no :: "ptr \<Rightarrow> u32" where
  "pd_no va = drop_bit PDSHIFT va"

definition PTE_ADDR :: u32 where "PTE_ADDR = 0xFFFFF000"
definition PTE_P :: u32 where "PTE_P = 0x1"
definition PTE_W :: u32 where "PTE_W = 0x2"
definition PTE_U :: u32 where "PTE_U = 0x4"
definition PTE_A :: u32 where "PTE_A = 0x20"
definition PTE_D :: u32 where "PTE_D = 0x40"

definition pde_create :: "ptr \<Rightarrow> u32 option" where
  "pde_create pt = do {
     ASSERT (pg_ofs pt = 0);
     a \<leftarrow> vtop pt;
     Some (a OR PTE_U OR PTE_P OR PTE_W)
   }"

definition pde_get_pt :: "u32 \<Rightarrow> ptr option" where
  "pde_get_pt pde = do { ASSERT (pde AND PTE_P \<noteq> 0); ptov (pde AND PTE_ADDR) }"

definition pte_create_kernel :: "ptr \<Rightarrow> bool \<Rightarrow> u32 option" where
  "pte_create_kernel page writable = do {
     ASSERT (pg_ofs page = 0);
     a \<leftarrow> vtop page;
     Some (a OR PTE_P OR (if writable then PTE_W else 0))
   }"

definition pte_create_user :: "ptr \<Rightarrow> bool \<Rightarrow> u32 option" where
  "pte_create_user page writable = do { e \<leftarrow> pte_create_kernel page writable; Some (e OR PTE_U) }"

definition pte_get_page :: "u32 \<Rightarrow> ptr option" where
  "pte_get_page pte = ptov (pte AND PTE_ADDR)"

section \<open>Page directories\<close>

text \<open>\<open>palloc_get_page\<close> and \<open>palloc_free_page\<close> on the allocator inside the state.\<close>

definition get_page :: "vm \<Rightarrow> palloc_flags \<Rightarrow> (ptr \<times> vm) option" where
  "get_page s flags = do { (p, a) \<leftarrow> palloc_get_page (alloc s) flags; Some (p, s\<lparr>alloc := a\<rparr>) }"

definition free_page :: "vm \<Rightarrow> ptr \<Rightarrow> vm option" where
  "free_page s p = do { a \<leftarrow> palloc_free_page (alloc s) p; Some (s\<lparr>alloc := a\<rparr>) }"

definition pagedir_create :: "vm \<Rightarrow> (ptr \<times> vm) option" where
  "pagedir_create s = do {
     (pd, s) \<leftarrow> get_page s \<lparr>PAL_ASSERT = False, PAL_ZERO = False, PAL_USER = False\<rparr>;
     if pd \<noteq> 0 then
       Some (pd, s\<lparr>alloc := (alloc s)\<lparr>mem := (\<lambda>a. if unat (a - pd) < PGSIZE then vmem s (init_page_dir s + (a - pd))
                                                  else vmem s a)\<rparr>\<rparr>)
     else Some (pd, s)
   }"

definition lookup_page :: "vm \<Rightarrow> ptr \<Rightarrow> ptr \<Rightarrow> bool \<Rightarrow> (ptr \<times> vm) option" where
  "lookup_page s pd vaddr create = do {
     ASSERT (pd \<noteq> 0);
     ASSERT (\<not> create \<or> is_user_vaddr vaddr);
     let pde = pd + 4 * pd_no vaddr;
     (found, s) \<leftarrow>
       (if rd32 (vmem s) pde = 0 then
          if create then do {
            (pt, s) \<leftarrow> get_page s \<lparr>PAL_ASSERT = False, PAL_ZERO = True, PAL_USER = False\<rparr>;
            if pt = 0 then Some (False, s)
            else do { e \<leftarrow> pde_create pt; Some (True, put32 s pde e) }
          } else Some (False, s)
        else Some (True, s));
     if found then do { pt \<leftarrow> pde_get_pt (rd32 (vmem s) pde); Some (pt + 4 * pt_no vaddr, s) }
     else Some (0, s)
   }"

definition pagedir_set_page :: "vm \<Rightarrow> ptr \<Rightarrow> ptr \<Rightarrow> ptr \<Rightarrow> bool \<Rightarrow> (bool \<times> vm) option" where
  "pagedir_set_page s pd upage kpage writable = do {
     ASSERT (pg_ofs upage = 0);
     ASSERT (pg_ofs kpage = 0);
     ASSERT (is_user_vaddr upage);
     a \<leftarrow> vtop kpage;
     ASSERT (drop_bit PTSHIFT a < init_ram_pages s);
     ASSERT (pd \<noteq> init_page_dir s);
     (pte, s) \<leftarrow> lookup_page s pd upage True;
     if pte \<noteq> 0 then do {
       ASSERT (rd32 (vmem s) pte AND PTE_P = 0);
       e \<leftarrow> pte_create_user kpage writable;
       Some (True, put32 s pte e)
     } else Some (False, s)
   }"

definition pagedir_get_page :: "vm \<Rightarrow> ptr \<Rightarrow> ptr \<Rightarrow> ptr option" where
  "pagedir_get_page s pd uaddr = do {
     ASSERT (is_user_vaddr uaddr);
     (pte, s) \<leftarrow> lookup_page s pd uaddr False;
     if pte \<noteq> 0 \<and> rd32 (vmem s) pte AND PTE_P \<noteq> 0 then do {
       page \<leftarrow> pte_get_page (rd32 (vmem s) pte);
       Some (page + pg_ofs uaddr)
     } else Some 0
   }"

definition pagedir_activate :: "vm \<Rightarrow> ptr \<Rightarrow> vm option" where
  "pagedir_activate s pd = do {
     a \<leftarrow> vtop (if pd = 0 then init_page_dir s else pd);
     Some (s\<lparr>cr3 := a\<rparr>)
   }"

definition active_pd :: "vm \<Rightarrow> ptr option" where
  "active_pd s = ptov (cr3 s)"

definition invalidate_pagedir :: "vm \<Rightarrow> ptr \<Rightarrow> vm option" where
  "invalidate_pagedir s pd = do {
     a \<leftarrow> active_pd s;
     if a = pd then pagedir_activate s pd else Some s
   }"

definition pagedir_clear_page :: "vm \<Rightarrow> ptr \<Rightarrow> ptr \<Rightarrow> vm option" where
  "pagedir_clear_page s pd upage = do {
     ASSERT (pg_ofs upage = 0);
     ASSERT (is_user_vaddr upage);
     (pte, s) \<leftarrow> lookup_page s pd upage False;
     if pte \<noteq> 0 \<and> rd32 (vmem s) pte AND PTE_P \<noteq> 0
     then invalidate_pagedir (put32 s pte (rd32 (vmem s) pte AND NOT PTE_P)) pd
     else Some s
   }"

text \<open>The dirty and the accessed bit are handled alike.\<close>

definition pagedir_bit :: "u32 \<Rightarrow> vm \<Rightarrow> ptr \<Rightarrow> ptr \<Rightarrow> bool option" where
  "pagedir_bit flag s pd vpage = do {
     (pte, s) \<leftarrow> lookup_page s pd vpage False;
     Some (pte \<noteq> 0 \<and> rd32 (vmem s) pte AND flag \<noteq> 0)
   }"

definition pagedir_set_bit :: "u32 \<Rightarrow> vm \<Rightarrow> ptr \<Rightarrow> ptr \<Rightarrow> bool \<Rightarrow> vm option" where
  "pagedir_set_bit flag s pd vpage b = do {
     (pte, s) \<leftarrow> lookup_page s pd vpage False;
     if pte \<noteq> 0 then
       if b then Some (put32 s pte (rd32 (vmem s) pte OR flag))
       else invalidate_pagedir (put32 s pte (rd32 (vmem s) pte AND NOT flag)) pd
     else Some s
   }"

definition pagedir_is_dirty :: "vm \<Rightarrow> ptr \<Rightarrow> ptr \<Rightarrow> bool option" where
  "pagedir_is_dirty = pagedir_bit PTE_D"

definition pagedir_set_dirty :: "vm \<Rightarrow> ptr \<Rightarrow> ptr \<Rightarrow> bool \<Rightarrow> vm option" where
  "pagedir_set_dirty = pagedir_set_bit PTE_D"

definition pagedir_is_accessed :: "vm \<Rightarrow> ptr \<Rightarrow> ptr \<Rightarrow> bool option" where
  "pagedir_is_accessed = pagedir_bit PTE_A"

definition pagedir_set_accessed :: "vm \<Rightarrow> ptr \<Rightarrow> ptr \<Rightarrow> bool \<Rightarrow> vm option" where
  "pagedir_set_accessed = pagedir_set_bit PTE_A"

text \<open>The two nested loops of \<open>pagedir_destroy\<close>, over the entries with the given indices.\<close>

fun free_frames :: "vm \<Rightarrow> ptr \<Rightarrow> nat list \<Rightarrow> vm option" where
  "free_frames s pt [] = Some s"
| "free_frames s pt (j # js) = do {
     let pte = rd32 (vmem s) (pt + of_nat (4 * j));
     s \<leftarrow> (if pte AND PTE_P \<noteq> 0 then do { page \<leftarrow> pte_get_page pte; free_page s page } else Some s);
     free_frames s pt js
   }"

fun free_tables :: "vm \<Rightarrow> ptr \<Rightarrow> nat list \<Rightarrow> vm option" where
  "free_tables s pd [] = Some s"
| "free_tables s pd (i # is) = do {
     let pde = rd32 (vmem s) (pd + of_nat (4 * i));
     s \<leftarrow> (if pde AND PTE_P \<noteq> 0 then do {
              pt \<leftarrow> pde_get_pt pde;
              s \<leftarrow> free_frames s pt [0..<PGSIZE div 4];
              free_page s pt
            } else Some s);
     free_tables s pd is
   }"

definition pagedir_destroy :: "vm \<Rightarrow> ptr \<Rightarrow> vm option" where
  "pagedir_destroy s pd =
     (if pd = 0 then Some s
      else do {
        ASSERT (pd \<noteq> init_page_dir s);
        s \<leftarrow> free_tables s pd [0..<unat (pd_no PHYS_BASE)];
        free_page s pd
      })"

end
