(* ===== verification/Userprog_Mapping.thy ===== *)
theory Userprog_Mapping
  imports Userprog_Pagedir
begin

text \<open>
  What a page directory means: a partial function from user pages to frames.  The entries of a page in memory
  are independent of each other and of those of other pages; a page directory is well formed when the pages it
  is made of (itself, its page tables and the frames they map) are allocated and all different.
\<close>

unbundle bit_operations_syntax

section \<open>Words in pages\<close>

lemma page_end: "pg_ofs p = 0 \<Longrightarrow> unat p + PGSIZE \<le> 2 ^ 32"
proof -
  assume "pg_ofs p = 0"
  then obtain k where k: "unat p = PGSIZE * k"
    by (auto simp: pg_ofs_0 elim: dvdE simp flip: dvd_eq_mod_eq_0)
  have "PGSIZE * k < PGSIZE * 1048576"
    using unat_bound32 [of p] k by simp
  then have "k < 1048576"
    by simp
  then show ?thesis
    by (simp add: k)
qed

lemma unat_in_page: "pg_ofs p = 0 \<Longrightarrow> x < PGSIZE \<Longrightarrow> unat (p + of_nat x) = unat p + x"
  using page_end [of p] by (intro unat_plus_of_nat32) simp

lemma unat_sub_less:
  assumes "unat r + n \<le> 2 ^ 32"
  shows "unat (a - r :: u32) < n \<longleftrightarrow> unat r \<le> unat a \<and> unat a < unat r + n"
    and "unat r \<le> unat a \<Longrightarrow> unat (a - r) = unat a - unat r"
proof -
  show ge: "unat (a - r) = unat a - unat r" if "unat r \<le> unat a"
    using that by (simp add: unat_sub word_le_nat_alt)
  show "unat (a - r) < n \<longleftrightarrow> unat r \<le> unat a \<and> unat a < unat r + n"
  proof (cases "unat r \<le> unat a")
    case True
    then show ?thesis
      using ge by auto
  next
    case False
    then have "unat (a - r) = 2 ^ 32 + unat a - unat r"
      using unat_bound32 [of r] unat_bound32 [of a] by (simp add: unat_sub_if' )
    then show ?thesis
      using False assms unat_bound32 [of r] by simp
  qed
qed

lemma other_page:
  assumes "pg_ofs p = 0" and "pg_ofs q = 0" and "p \<noteq> q" and "x < PGSIZE" and "y < PGSIZE"
  shows "unat p + x \<noteq> unat q + y"
proof
  assume eq: "unat p + x = unat q + y"
  have "unat p mod PGSIZE = 0" "unat q mod PGSIZE = 0"
    using assms(1,2) by (simp_all only: pg_ofs_0)
  then have "(unat p + x) div PGSIZE = unat p div PGSIZE" "(unat q + y) div PGSIZE = unat q div PGSIZE"
    using assms(4,5) by (simp_all add: div_add1_eq)
  then have "unat p div PGSIZE = unat q div PGSIZE"
    using eq by simp
  then have "unat p = unat q"
    using \<open>unat p mod PGSIZE = 0\<close> \<open>unat q mod PGSIZE = 0\<close> by (metis div_mod_decomp)
  then have "p = q"
    by (rule unsigned_word_eqI)
  then show False
    using assms(3) by simp
qed

definition entry :: "(ptr \<Rightarrow> u8) \<Rightarrow> ptr \<Rightarrow> nat \<Rightarrow> u32" where
  "entry mm p i = rd32 mm (p + of_nat (4 * i))"

lemma entry_cong:
  assumes "\<And>x. x < PGSIZE \<Longrightarrow> mm (p + of_nat x) = mm' (p + of_nat x)" and "i < 1024"
  shows "entry mm p i = entry mm' p i"
proof -
  have "mm (p + of_nat (4 * i) + of_nat j) = mm' (p + of_nat (4 * i) + of_nat j)" if "j < 4" for j
    using assms(1) [of "4 * i + j"] assms(2) that by (simp add: add.assoc)
  then show ?thesis
    unfolding entry_def rd32_def by (intro arg_cong [of _ _ dec32] map_cong refl) simp
qed

lemma entry_wr32:
  assumes "pg_ofs p = 0" and "pg_ofs q = 0" and "i < 1024" and "k < 1024"
  shows "entry (wr32 mm (p + of_nat (4 * i)) v) q k = (if q = p \<and> k = i then v else entry mm q k)"
proof -
  let ?m = "wr32 mm (p + of_nat (4 * i)) v"
  have pi: "unat (p + of_nat (4 * i)) = unat p + 4 * i"
    using assms by (intro unat_in_page) auto
  have room: "unat (p + of_nat (4 * i)) + 4 \<le> 2 ^ 32"
    using page_end [OF assms(1)] assms(3) pi by simp
  have at: "?m (q + of_nat (4 * k + j)) = (if q = p \<and> k = i then enc32 v ! j else mm (q + of_nat (4 * k + j)))" if "j < 4" for j
  proof -
    have a: "unat (q + of_nat (4 * k + j)) = unat q + (4 * k + j)"
      using assms that by (intro unat_in_page) auto
    have "unat p + (4 * i + l) \<noteq> unat q + (4 * k + j)" if "l < 4" "p \<noteq> q" for l
      using that \<open>j < 4\<close> assms by (intro other_page) auto
    then have out: "\<not> (unat p + 4 * i \<le> unat q + (4 * k + j) \<and> unat q + (4 * k + j) < unat p + 4 * i + 4)" if "p \<noteq> q"
      using that by (fastforce simp: add.assoc dest!: le_Suc_ex)
    define A B where "A = q + of_nat (4 * k + j)" and "B = p + of_nat (4 * i)"
    have AB: "unat A = unat q + (4 * k + j)" "unat B = unat p + 4 * i" "unat B + 4 \<le> 2 ^ 32"
      using a pi room by (simp_all only: A_def B_def)
    have "wr32 mm B v A = (if q = p \<and> k = i then enc32 v ! j else mm A)"
    proof (cases "p = q")
      case True
      then show ?thesis
        using unat_sub_less [OF AB(3), of A] that by (auto simp: wr32_def AB)
    next
      case False
      then show ?thesis
        using unat_sub_less(1) [OF AB(3), of A] out by (simp add: wr32_def AB)
    qed
    then show ?thesis
      by (simp only: A_def B_def)
  qed
  show ?thesis
  proof (cases "q = p \<and> k = i")
    case True
    then have "map (\<lambda>j. ?m (q + of_nat (4 * k) + of_nat j)) [0..<4] = map ((!) (enc32 v)) [0..<length (enc32 v)]"
      using at by (intro map_cong) (auto simp: add.assoc)
    then have "map (\<lambda>j. ?m (q + of_nat (4 * k) + of_nat j)) [0..<4] = enc32 v"
      by (simp only: map_nth)
    then show ?thesis
      using True unfolding entry_def rd32_def by (simp only: dec32_enc32 simp_thms if_True)
  next
    case False
    then have "map (\<lambda>j. ?m (q + of_nat (4 * k) + of_nat j)) [0..<4] = map (\<lambda>j. mm (q + of_nat (4 * k) + of_nat j)) [0..<4]"
      using at by (intro map_cong) (auto simp: add.assoc)
    then show ?thesis
      using False unfolding entry_def rd32_def by (simp only: if_False)
  qed
qed

lemma in_page:
  assumes "pg_ofs p = 0" and "pg_ofs q = 0" and "x < PGSIZE"
  shows "unat (q + of_nat x - p) < PGSIZE \<longleftrightarrow> p = q"
proof -
  have q: "unat (q + of_nat x) = unat q + x"
    using assms by (intro unat_in_page)
  have "unat p + y \<noteq> unat q + x" if "y < PGSIZE" "p \<noteq> q" for y
    using that assms by (intro other_page)
  then show ?thesis
    using unat_sub_less(1) [OF page_end [OF assms(1)], of "q + of_nat x"] assms(3)
    by (fastforce simp: q dest!: le_Suc_ex)
qed

lemma entry_memset:
  assumes "pg_ofs p = 0" and "pg_ofs q = 0" and "k < 1024"
  shows "entry (memset_mem mm p 0 PGSIZE) q k = (if p = q then 0 else entry mm q k)"
proof -
  have "memset_mem mm p 0 PGSIZE (q + of_nat (4 * k) + of_nat j) = (if p = q then 0 else mm (q + of_nat (4 * k) + of_nat j))"
    if "j < 4" for j
    using in_page [OF assms(1,2), of "4 * k + j"] assms(3) that by (simp add: memset_mem_def add.assoc)
  then have "map (\<lambda>j. memset_mem mm p 0 PGSIZE (q + of_nat (4 * k) + of_nat j)) [0..<4] =
      map (\<lambda>j. if p = q then 0 else mm (q + of_nat (4 * k) + of_nat j)) [0..<4]"
    by (intro map_cong refl) simp
  then show ?thesis
    by (auto simp: entry_def rd32_def dec32_def upt_rec numeral_nat)
qed


section \<open>Entries\<close>

definition target :: "u32 \<Rightarrow> ptr" where
  "target e = (e AND PTE_ADDR) + PHYS_BASE"

lemma PTE_ADDR_eq: "PTE_ADDR = NOT (mask PGBITS)"
  by (simp add: PTE_ADDR_def mask_eq_exp_minus_1)

lemma pg_ofs_base: "pg_ofs (p + PHYS_BASE) = pg_ofs p" "pg_ofs (p - PHYS_BASE) = pg_ofs p"
proof -
  have step: "pg_ofs (p + b) = pg_ofs p" if "unat b mod PGSIZE = 0" for b :: u32
  proof (rule unsigned_word_eqI [where 'a = nat])
    have "unat (p + b) mod PGSIZE = (unat p + unat b) mod PGSIZE"
      by (simp add: unat_word_ariths(1) mod_mod_cancel)
    also have "\<dots> = unat p mod PGSIZE"
      using that by (simp add: mod_add_eq [symmetric])
    finally show "unat (pg_ofs (p + b)) = unat (pg_ofs p)"
      by (simp only: unat_pg_ofs)
  qed
  show "pg_ofs (p + PHYS_BASE) = pg_ofs p"
    by (rule step) (simp add: PHYS_BASE_def)
  have minus: "p - PHYS_BASE = p + 0x40000000"
    by (simp add: PHYS_BASE_def)
  show "pg_ofs (p - PHYS_BASE) = pg_ofs p"
    unfolding minus by (rule step) simp
qed

lemma target_aligned [simp]: "pg_ofs (target e) = 0"
proof -
  have "pg_ofs (e AND PTE_ADDR) = 0"
    by (simp add: PTE_ADDR_eq pg_ofs_def PGMASK_eq and.assoc)
  then show ?thesis
    by (simp add: target_def pg_ofs_base)
qed

text \<open>An entry for an aligned kernel address: its frame and its flags.\<close>

lemma entry_fields:
  assumes "pg_ofs p = 0" and "f < 0x1000"
  shows "target ((p - PHYS_BASE) OR f) = p"
    and "g < 0x1000 \<Longrightarrow> ((p - PHYS_BASE) OR f) AND g = f AND g"
proof -
  define a where "a = p - PHYS_BASE"
  have a: "a AND mask PGBITS = 0"
    using assms(1) pg_ofs_base(2) [of p] by (simp add: a_def pg_ofs_def PGMASK_eq)
  have low: "x AND NOT (mask PGBITS) = 0 \<and> x AND mask PGBITS = x" if "x < 0x1000" for x :: u32
  proof -
    have "unat x mod PGSIZE = unat x"
      using that by (simp add: word_less_nat_alt)
    then have "pg_ofs x = x"
      by (intro unsigned_word_eqI [where 'a = nat]) (simp add: unat_pg_ofs)
    then have m: "x AND mask PGBITS = x"
      by (simp add: pg_ofs_def PGMASK_eq)
    have "x AND NOT (mask PGBITS) = (x AND mask PGBITS) AND NOT (mask PGBITS)"
      by (simp only: m)
    also have "\<dots> = 0"
      by (simp add: and.assoc)
    finally show ?thesis
      using m by simp
  qed
  have "a = (a AND mask PGBITS) OR (a AND NOT (mask PGBITS))"
    by (simp flip: bit.conj_disj_distrib)
  then have "a AND NOT (mask PGBITS) = a"
    using a by simp
  then show "target ((p - PHYS_BASE) OR f) = p"
    using low [OF assms(2)] by (simp add: target_def PTE_ADDR_eq bit.conj_disj_distrib2 flip: a_def) (simp add: a_def)
  assume "g < 0x1000"
  then have "a AND g = a AND (mask PGBITS AND g)"
    using low [of g] by (simp add: and.commute)
  also have "\<dots> = 0"
    using a by (simp flip: and.assoc)
  finally show "((p - PHYS_BASE) OR f) AND g = f AND g"
    by (simp add: bit.conj_disj_distrib2 flip: a_def)
qed

lemma ptov_target:
  assumes "PHYS_BASE \<le> target e"
  shows "ptov (e AND PTE_ADDR) = Some (target e)"
proof -
  have "e AND PTE_ADDR < PHYS_BASE"
  proof (rule ccontr)
    assume "\<not> e AND PTE_ADDR < PHYS_BASE"
    then have "unat (e AND PTE_ADDR) \<ge> 0xC0000000"
      by (simp add: not_less word_le_nat_alt PHYS_BASE_def)
    then have "unat (target e) = unat (e AND PTE_ADDR) + 0xC0000000 - 2 ^ 32"
      using unat_bound32 [of "e AND PTE_ADDR"] by (simp add: target_def PHYS_BASE_def unat_word_ariths(1) mod_if)
    then show False
      using assms unat_bound32 [of "e AND PTE_ADDR"] by (simp add: word_le_nat_alt PHYS_BASE_def)
  qed
  then show ?thesis
    by (simp add: ptov_def target_def)
qed

lemma vtop_kernel: "PHYS_BASE \<le> p \<Longrightarrow> vtop p = Some (p - PHYS_BASE)"
  by (simp add: vtop_def is_kernel_vaddr_def)

section \<open>Indices\<close>

lemma unat_pd_no: "unat (pd_no va) = unat va div PGSIZE div 1024"
  by (simp add: pd_no_def PDSHIFT_def PTSHIFT_def PTBITS_def drop_bit_eq_div unat_div div_mult2_eq [symmetric])

lemma unat_pt_no: "unat (pt_no va) = unat va div PGSIZE mod 1024"
proof -
  have "drop_bit 12 PTMASK = mask 10"
    by (simp add: PTMASK_def BITMASK_def PTSHIFT_def PTBITS_def mask_eq_exp_minus_1)
  then have "pt_no va = take_bit 10 (drop_bit 12 va)"
    by (simp add: pt_no_def PTSHIFT_def drop_bit_and take_bit_eq_mask)
  then show ?thesis
    by (simp add: take_bit_eq_mod drop_bit_eq_div unat_mod unat_div)
qed

lemma entry_address:
  shows "pd + 4 * pd_no va = pd + of_nat (4 * (unat va div PGSIZE div 1024))"
    and "pt + 4 * pt_no va = pt + of_nat (4 * (unat va div PGSIZE mod 1024))"
  by (simp_all flip: unat_pd_no unat_pt_no)

end
