(* ===== verification/Userprog_Translation.thy ===== *)
theory Userprog_Translation
  imports Userprog_Mapping
begin

text \<open>
  The invariant of page directories, and the operations of \<open>pagedir.c\<close> as operations on the partial function a
  directory stands for.
\<close>

unbundle bit_operations_syntax

declare of_nat_mult [simp del]

section \<open>Pages of the allocator\<close>

abbreviation page_no :: "ptr \<Rightarrow> nat" where
  "page_no p \<equiv> unat p div PGSIZE"

text \<open>The pools are in the kernel's part of the address space.\<close>

definition vm_ok :: "vm \<Rightarrow> bool" where
  "vm_ok s \<longleftrightarrow> palloc_ok (alloc s) \<and> 0xC0000 \<le> pool_start (kernel_pool (alloc s))"

definition same_vm :: "vm \<Rightarrow> vm \<Rightarrow> bool" where
  "same_vm s s' \<longleftrightarrow> init_page_dir s' = init_page_dir s \<and> init_ram_pages s' = init_ram_pages s \<and> cr3 s' = cr3 s"

lemma aligned_unat: "pg_ofs p = 0 \<Longrightarrow> unat p = PGSIZE * page_no p"
  using mult_div_mod_eq [of PGSIZE "unat p"] by (simp add: pg_ofs_0)

lemma page_no_inj: "pg_ofs p = 0 \<Longrightarrow> pg_ofs q = 0 \<Longrightarrow> page_no p = page_no q \<Longrightarrow> p = q"
proof (rule unsigned_word_eqI [where 'a = nat])
  assume "pg_ofs p = 0" and "pg_ofs q = 0" and eq: "page_no p = page_no q"
  then have "unat p = PGSIZE * page_no p" "unat q = PGSIZE * page_no q"
    by (rule_tac [!] aligned_unat)
  then show "unat p = unat q"
    unfolding eq by (rule trans [OF _ sym])
qed

lemma used_page_kernel:
  assumes "vm_ok s" and "page_no p \<in> used_pages (alloc s)"
  shows "PHYS_BASE \<le> p" and "p \<noteq> 0"
proof -
  have "0xC0000 \<le> page_no p"
    using assms pool_used_bound unfolding vm_ok_def used_pages_def palloc_ok_def by fastforce
  then have "0xC0000000 \<le> unat p"
    by linarith
  then show "PHYS_BASE \<le> p" "p \<noteq> 0"
    by (auto simp: word_le_nat_alt PHYS_BASE_def)
qed

lemma get_page_rep:
  assumes "vm_ok s" and "\<not> PAL_ASSERT flags"
  obtains "get_page s flags = Some (0, s)"
  | p s' where "get_page s flags = Some (p, s')" "same_vm s s'" "vm_ok s'" "pg_ofs p = 0" "p \<noteq> 0"
      "page_no p \<notin> used_pages (alloc s)" "used_pages (alloc s') = insert (page_no p) (used_pages (alloc s))"
      "vmem s' = (if PAL_ZERO flags then memset_mem (vmem s) p 0 PGSIZE else vmem s)"
proof -
  have ok: "palloc_ok (alloc s)"
    using assms(1) by (simp add: vm_ok_def)
  obtain p a where pa: "palloc_get_multiple (alloc s) flags 1 = Some (p, a)" "palloc_ok a"
    and c: "if p = 0 then a = alloc s
       else unat p = PGSIZE * page_no p
         \<and> {page_no p..<page_no p + 1} \<inter> used_pages (alloc s) = {}
         \<and> used_pages a = used_pages (alloc s) \<union> {page_no p..<page_no p + 1}
         \<and> (\<forall>x. mem a x = (if PAL_ZERO flags \<and> unat (x - p) < PGSIZE * 1 then 0 else mem (alloc s) x))"
    using palloc_get_multiple_rep [OF ok _ assms(2), of 1] by auto
  have start: "pool_start (kernel_pool a) = pool_start (kernel_pool (alloc s))"
    using pa(1) by (auto simp: palloc_get_multiple_def set_used_map_def bind_Some_iff Let_def split: if_splits)
  show thesis
  proof (cases "p = 0")
    case True
    then show thesis
      using that(1) pa c by (simp add: get_page_def palloc_get_page_def)
  next
    case False
    have "mem a = (if PAL_ZERO flags then memset_mem (vmem s) p 0 PGSIZE else vmem s)"
      using c False by (intro ext) (simp add: memset_mem_def)
    moreover have "pg_ofs p = 0"
    proof -
      have "unat p = PGSIZE * page_no p"
        using c False by simp
      then show ?thesis
        unfolding pg_ofs_0 by (metis mod_mult_self1_is_0)
    qed
    ultimately show thesis
      using that(2) [of p "s\<lparr>alloc := a\<rparr>"] pa c False assms(1) start
      by (simp add: get_page_def palloc_get_page_def same_vm_def vm_ok_def)
  qed
qed

lemma free_page_rep:
  assumes "vm_ok s" and "pg_ofs p = 0" and "page_no p \<in> used_pages (alloc s)"
  obtains s' where "free_page s p = Some s'" "same_vm s s'" "vm_ok s'"
    "used_pages (alloc s') = used_pages (alloc s) - {page_no p}"
    "vmem s' = memset_mem (vmem s) p 0xCC PGSIZE"
proof -
  have ok: "palloc_ok (alloc s)"
    using assms(1) by (simp add: vm_ok_def)
  have p: "p = of_nat (PGSIZE * page_no p)" "p \<noteq> 0"
    by (rule of_nat_eqI32 [OF aligned_unat [OF assms(2)]], rule used_page_kernel(2) [OF assms(1,3)])
  obtain a where a: "palloc_free_multiple (alloc s) p 1 = Some a" "palloc_ok a"
    "used_pages a = used_pages (alloc s) - {page_no p}"
    using palloc_free_multiple_rep [OF ok, of 1 "page_no p"] assms(3) p(1) by auto
  have "mem a = memset_mem (vmem s) p 0xCC PGSIZE" "pool_start (kernel_pool a) = pool_start (kernel_pool (alloc s))"
    using a(1) p(2) by (auto simp: palloc_free_multiple_def free_in_pool_def bind_Some_iff Let_def split: if_splits)
  then show thesis
    using that [of "s\<lparr>alloc := a\<rparr>"] a assms(1)
    by (simp add: free_page_def palloc_free_page_def same_vm_def vm_ok_def)
qed

lemma vm_ok_put32 [simp]: "vm_ok (put32 s p v) = vm_ok s" "used_pages (alloc (put32 s p v)) = used_pages (alloc s)"
  "vmem (put32 s p v) = wr32 (vmem s) p v" "same_vm s (put32 s p v)"
  by (simp_all add: vm_ok_def put32_def same_vm_def)

lemma same_vm_refl [simp]: "same_vm s s"
  by (simp add: same_vm_def)

lemma same_vm_trans: "same_vm s t \<Longrightarrow> same_vm t u \<Longrightarrow> same_vm s u"
  by (simp add: same_vm_def)

section \<open>What a page directory stands for\<close>

definition pte_at :: "(ptr \<Rightarrow> u8) \<Rightarrow> ptr \<Rightarrow> nat \<Rightarrow> u32" where
  "pte_at mm pd n = (let e = entry mm pd (n div 1024) in if e = 0 then 0 else entry mm (target e) (n mod 1024))"

text \<open>The frame of user page \<open>n\<close>, and whether it may be written.\<close>

definition translation :: "vm \<Rightarrow> ptr \<Rightarrow> nat \<Rightarrow> (ptr \<times> bool) option" where
  "translation s pd n = (
     let e = pte_at (vmem s) pd n
     in if n < 0xC0000 \<and> e AND PTE_P \<noteq> 0 then Some (target e, e AND PTE_W \<noteq> 0) else None)"

lemma translation_cong:
  assumes "\<And>n. n < 0xC0000 \<Longrightarrow> pte_at (vmem s') pd n = pte_at (vmem s) pd n"
  shows "translation s' pd = translation s pd"
proof
  fix n
  show "translation s' pd n = translation s pd n"
    using assms [of n] by (cases "n < 0xC0000") (simp_all add: translation_def)
qed

text \<open>The pages a directory is made of.\<close>

datatype slot = Root | Table nat | Frame nat

definition slot_page :: "vm \<Rightarrow> ptr \<Rightarrow> slot \<Rightarrow> ptr option" where
  "slot_page s pd x = (case x of
       Root \<Rightarrow> Some pd
     | Table i \<Rightarrow> (let e = entry (vmem s) pd i in if i < 768 \<and> e \<noteq> 0 then Some (target e) else None)
     | Frame n \<Rightarrow> map_option fst (translation s pd n))"

definition pd_ok :: "vm \<Rightarrow> ptr \<Rightarrow> bool" where
  "pd_ok s pd \<longleftrightarrow> vm_ok s \<and> pg_ofs pd = 0 \<and>
     (\<forall>x p. slot_page s pd x = Some p \<longrightarrow> page_no p \<in> used_pages (alloc s)) \<and>
     (\<forall>x y p. slot_page s pd x = Some p \<and> slot_page s pd y = Some p \<longrightarrow> x = y) \<and>
     (\<forall>i < 768. entry (vmem s) pd i \<noteq> 0 \<longrightarrow> entry (vmem s) pd i AND PTE_P \<noteq> 0)"

lemma pd_ok_vm: "pd_ok s pd \<Longrightarrow> vm_ok s"
  by (simp add: pd_ok_def)

lemma ptov_used: "vm_ok s \<Longrightarrow> page_no (target e) \<in> used_pages (alloc s) \<Longrightarrow> ptov (e AND PTE_ADDR) = Some (target e)"
  using ptov_target [OF used_page_kernel(1)] .

lemma slot_used: "pd_ok s pd \<Longrightarrow> slot_page s pd x = Some p \<Longrightarrow> page_no p \<in> used_pages (alloc s)"
  unfolding pd_ok_def by blast

lemma slot_inj: "pd_ok s pd \<Longrightarrow> slot_page s pd x = Some p \<Longrightarrow> slot_page s pd y = Some p \<Longrightarrow> x = y"
  unfolding pd_ok_def by blast

lemma slot_aligned: "pd_ok s pd \<Longrightarrow> slot_page s pd x = Some p \<Longrightarrow> pg_ofs p = 0"
  by (cases x) (auto simp: slot_page_def pd_ok_def translation_def Let_def split: if_splits)

lemma pd_root:
  assumes "pd_ok s pd"
  shows "page_no pd \<in> used_pages (alloc s)" and "pd \<noteq> 0"
proof -
  have "slot_page s pd Root = Some pd"
    by (simp add: slot_page_def)
  then show used: "page_no pd \<in> used_pages (alloc s)"
    using assms unfolding pd_ok_def by blast
  show "pd \<noteq> 0"
    using assms by (intro used_page_kernel(2) [OF _ used]) (simp add: pd_ok_def)
qed

lemma user_page:
  assumes "is_user_vaddr va"
  shows "page_no va < 0xC0000" and "page_no va div 1024 < 768"
proof -
  have "unat va < 0xC0000000"
    using assms by (simp add: is_user_vaddr_def word_less_nat_alt PHYS_BASE_def)
  then show "page_no va < 0xC0000"
    by linarith
  then show "page_no va div 1024 < 768"
    by linarith
qed

lemma table_facts:
  assumes "pd_ok s pd" and "i < 768" and "entry (vmem s) pd i \<noteq> 0"
  defines "e \<equiv> entry (vmem s) pd i"
  shows "pde_get_pt e = Some (target e)" and "target e \<noteq> pd" and "page_no (target e) \<in> used_pages (alloc s)"
    and "target e \<noteq> 0"
proof -
  have sp: "slot_page s pd (Table i) = Some (target e)"
    using assms by (simp add: slot_page_def Let_def)
  then show used: "page_no (target e) \<in> used_pages (alloc s)"
    using assms(1) unfolding pd_ok_def by blast
  have ok: "vm_ok s"
    using assms(1) by (simp add: pd_ok_def)
  show "target e \<noteq> 0"
    by (rule used_page_kernel(2) [OF ok used])
  show "target e \<noteq> pd"
  proof
    assume "target e = pd"
    then have "slot_page s pd Root = Some (target e)"
      by (simp add: slot_page_def)
    then have "Root = Table i"
      using sp assms(1) unfolding pd_ok_def by blast
    then show False
      by simp
  qed
  have "e AND PTE_P \<noteq> 0"
    using assms by (simp add: pd_ok_def)
  then show "pde_get_pt e = Some (target e)"
    using ptov_target [OF used_page_kernel(1) [OF ok used]] by (simp add: pde_get_pt_def)
qed

text \<open>Looking up the entry of a page whose table exists.\<close>

lemma lookup_page_found:
  assumes "pd_ok s pd" and "is_user_vaddr va" and "entry (vmem s) pd (page_no va div 1024) \<noteq> 0"
  defines "pt \<equiv> target (entry (vmem s) pd (page_no va div 1024))"
  shows "lookup_page s pd va c = Some (pt + of_nat (4 * (page_no va mod 1024)), s)"
    and "pt + of_nat (4 * (page_no va mod 1024)) \<noteq> 0"
proof -
  let ?i = "page_no va div 1024"
  note t = table_facts [OF assms(1) user_page(2) [OF assms(2)] assms(3)]
  have "pd \<noteq> 0"
    by (rule pd_root [OF assms(1)])
  then show "lookup_page s pd va c = Some (pt + of_nat (4 * (page_no va mod 1024)), s)"
    using assms(2,3) t(1) unfolding lookup_page_def Let_def entry_address entry_def [symmetric] pt_def by simp
  have "unat (pt + of_nat (4 * (page_no va mod 1024))) = unat pt + 4 * (page_no va mod 1024)"
    by (rule unat_in_page) (simp_all add: pt_def)
  moreover have "0 < unat pt"
    using t(4) by (simp add: pt_def unat_gt_0)
  ultimately show "pt + of_nat (4 * (page_no va mod 1024)) \<noteq> 0"
    by (metis add_gr_0 less_numeral_extra(3) unat_0)
qed

lemma lookup_page_absent:
  assumes "pd_ok s pd" and "is_user_vaddr va" and "entry (vmem s) pd (page_no va div 1024) = 0"
  shows "lookup_page s pd va False = Some (0, s)"
proof -
  have "pd \<noteq> 0"
    by (rule pd_root [OF assms(1)])
  then show ?thesis
    using assms(2,3) unfolding lookup_page_def Let_def entry_address entry_def [symmetric] by simp
qed


section \<open>Changing a directory\<close>

lemma pd_ok_insert:
  assumes "pd_ok s pd" and "vm_ok s'" and "page_no p \<in> used_pages (alloc s')"
    and used: "used_pages (alloc s) \<subseteq> used_pages (alloc s')"
    and slots: "\<And>y. slot_page s' pd y = (if y = x then Some p else slot_page s pd y)"
    and new: "\<And>y. slot_page s pd y \<noteq> Some p"
    and present: "\<And>i. i < 768 \<Longrightarrow> entry (vmem s') pd i \<noteq> 0 \<Longrightarrow> entry (vmem s') pd i AND PTE_P \<noteq> 0"
  shows "pd_ok s' pd"
  unfolding pd_ok_def
proof (intro conjI allI impI)
  show "vm_ok s'" "pg_ofs pd = 0"
    using assms(1,2) by (simp_all add: pd_ok_def)
  show "page_no q \<in> used_pages (alloc s')" if "slot_page s' pd y = Some q" for y q
    using that assms(1,3) used unfolding slots pd_ok_def by (auto split: if_splits)
  show "y = z" if "slot_page s' pd y = Some q \<and> slot_page s' pd z = Some q" for y z q
    using that new assms(1) unfolding slots pd_ok_def by (auto split: if_splits)
  show "entry (vmem s') pd i AND PTE_P \<noteq> 0" if "i < 768" "entry (vmem s') pd i \<noteq> 0" for i
    using that by (rule present)
qed

lemma not_slot:
  assumes "pd_ok s pd" and "page_no p \<notin> used_pages (alloc s)"
  shows "slot_page s pd y \<noteq> Some p"
  using assms unfolding pd_ok_def by blast

lemma flag_bits [simp]: "PTE_U OR PTE_P OR PTE_W = 7" "PTE_P OR (if w then PTE_W else 0) OR PTE_U = (if w then 7 else 5)"
  by (simp_all add: PTE_U_def PTE_P_def PTE_W_def)

lemma pde_create_rep:
  assumes "pg_ofs pt = 0" and "PHYS_BASE \<le> pt"
  obtains e where "pde_create pt = Some e" "target e = pt" "e AND PTE_P \<noteq> 0"
proof -
  have e: "pde_create pt = Some ((pt - PHYS_BASE) OR 7)"
    using assms by (simp add: pde_create_def vtop_kernel)
  have f: "((pt - PHYS_BASE) OR 7) AND PTE_P = 7 AND PTE_P"
    by (rule entry_fields(2) [OF assms(1)]) (simp_all add: PTE_P_def)
  then have "((pt - PHYS_BASE) OR 7) AND PTE_P \<noteq> 0"
    by (simp add: PTE_P_def)
  then show thesis
    using that [OF e] entry_fields(1) [OF assms(1), of 7] by auto
qed

lemma pte_create_rep:
  assumes "pg_ofs p = 0" and "PHYS_BASE \<le> p"
  obtains e where "pte_create_user p w = Some e" "target e = p" "e AND PTE_P \<noteq> 0" "(e AND PTE_W \<noteq> 0) = w"
proof -
  define f :: u32 where "f = (if w then 7 else 5)"
  have e: "pte_create_user p w = Some ((p - PHYS_BASE) OR f)"
    using assms by (simp add: pte_create_user_def pte_create_kernel_def vtop_kernel f_def or.assoc)
  have f: "f < 0x1000"
    by (simp add: f_def)
  have "((p - PHYS_BASE) OR f) AND PTE_P = f AND PTE_P" "((p - PHYS_BASE) OR f) AND PTE_W = f AND PTE_W"
    by (rule entry_fields(2) [OF assms(1) f]; simp add: PTE_P_def PTE_W_def)+
  then have "((p - PHYS_BASE) OR f) AND PTE_P \<noteq> 0" "(((p - PHYS_BASE) OR f) AND PTE_W \<noteq> 0) = w"
    by (simp_all add: PTE_P_def PTE_W_def f_def)
  then show thesis
    using that [OF e] entry_fields(1) [OF assms(1) f] by auto
qed

text \<open>A fresh page table in an empty slot of the directory changes nothing of what the directory stands for.\<close>

definition with_table :: "vm \<Rightarrow> ptr \<Rightarrow> nat \<Rightarrow> ptr \<Rightarrow> u32 \<Rightarrow> vm \<Rightarrow> bool" where
  "with_table s pd i pt e s' \<longleftrightarrow> vm_ok s' \<and> used_pages (alloc s') = insert (page_no pt) (used_pages (alloc s)) \<and>
     vmem s' = wr32 (memset_mem (vmem s) pt 0 PGSIZE) (pd + of_nat (4 * i)) e"

lemma with_table_entry:
  assumes "with_table s pd i pt e s'" and "pg_ofs pd = 0" and "pg_ofs pt = 0" and "i < 1024"
    and "pg_ofs q = 0" and "k < 1024"
  shows "entry (vmem s') q k = (if q = pd \<and> k = i then e else if q = pt then 0 else entry (vmem s) q k)"
  using assms by (simp add: with_table_def entry_wr32 entry_memset)

lemma with_table_ok:
  assumes ok: "pd_ok s pd" and wt: "with_table s pd i pt e s'" and pt: "pg_ofs pt = 0" "page_no pt \<notin> used_pages (alloc s)"
    and e: "target e = pt" "e AND PTE_P \<noteq> 0" and i: "i < 768" "entry (vmem s) pd i = 0"
  shows "pd_ok s' pd" and "translation s' pd = translation s pd"
    and "slot_page s' pd y = (if y = Table i then Some pt else slot_page s pd y)"
proof -
  have pd: "pg_ofs pd = 0"
    using ok by (simp add: pd_ok_def)
  have "pt \<noteq> pd" "e \<noteq> 0"
    using pd_root(1) [OF ok] pt(2) e(2) by auto
  note entry' = with_table_entry [OF wt pd pt(1)]
  have "pte_at (vmem s') pd n = pte_at (vmem s) pd n" if "n < 0xC0000" for n
  proof -
    have n: "n div 1024 < 768" "n mod 1024 < 1024"
      using that by (simp_all add: less_mult_imp_div_less)
    show ?thesis
    proof (cases "n div 1024 = i \<or> entry (vmem s) pd (n div 1024) = 0")
      case True
      then show ?thesis
        using entry' [of pd "n div 1024"] entry' [of pt "n mod 1024"] n pd pt(1) e i \<open>pt \<noteq> pd\<close> \<open>e \<noteq> 0\<close>
        by (auto simp: pte_at_def Let_def)
    next
      case False
      let ?t = "target (entry (vmem s) pd (n div 1024))"
      have "?t \<noteq> pd" "?t \<noteq> pt"
        using table_facts(2,3) [OF ok n(1)] False pt(2) by auto
      then show ?thesis
        using entry' [of pd "n div 1024"] entry' [of ?t "n mod 1024"] n pd i False \<open>pt \<noteq> pd\<close>
        by (simp add: pte_at_def Let_def)
    qed
  qed
  then show tr: "translation s' pd = translation s pd"
    by (rule translation_cong)
  have entry_pd: "entry (vmem s') pd k = (if k = i then e else entry (vmem s) pd k)" if "k < 768" for k
    using entry' [OF _ pd, of k] that i \<open>pt \<noteq> pd\<close> by auto
  show slots: "slot_page s' pd y = (if y = Table i then Some pt else slot_page s pd y)" for y
    using entry_pd tr e i \<open>e \<noteq> 0\<close> by (cases y) (auto simp: slot_page_def Let_def split: if_splits)
  have "entry (vmem s') pd k AND PTE_P \<noteq> 0" if "k < 768" "entry (vmem s') pd k \<noteq> 0" for k
    using that entry_pd [of k] e ok by (auto simp: pd_ok_def split: if_splits)
  then show "pd_ok s' pd"
    using pd_ok_insert [OF ok _ _ _ slots not_slot [OF ok pt(2)]] wt by (auto simp: with_table_def)
qed


definition table_at :: "vm \<Rightarrow> ptr \<Rightarrow> nat \<Rightarrow> ptr" where
  "table_at s pd n = target (entry (vmem s) pd (n div 1024))"

definition pte_address :: "vm \<Rightarrow> ptr \<Rightarrow> nat \<Rightarrow> ptr" where
  "pte_address s pd n = table_at s pd n + of_nat (4 * (n mod 1024))"

text \<open>
  What \<open>lookup_page\<close> may have changed when it was asked to create: one page of the allocator and memory in that page and
  in the directory.
\<close>

definition extended :: "vm \<Rightarrow> ptr \<Rightarrow> vm \<Rightarrow> bool" where
  "extended s pd s' \<longleftrightarrow> same_vm s s' \<and> pd_ok s' pd \<and> translation s' pd = translation s pd \<and>
     used_pages (alloc s) \<subseteq> used_pages (alloc s') \<and>
     (\<forall>y p. slot_page s' pd y = Some p \<longrightarrow> slot_page s pd y = Some p \<or> page_no p \<notin> used_pages (alloc s)) \<and>
     (\<forall>q x. pg_ofs q = 0 \<and> page_no q \<in> used_pages (alloc s) \<and> q \<noteq> pd \<and> x < PGSIZE \<longrightarrow>
        vmem s' (q + of_nat x) = vmem s (q + of_nat x))"

lemma extended_refl: "pd_ok s pd \<Longrightarrow> extended s pd s"
  by (simp add: extended_def)

lemma wr32_other_page:
  assumes "pg_ofs p = 0" and "pg_ofs q = 0" and "p \<noteq> q" and "i < 1024" and "x < PGSIZE"
  shows "wr32 mm (p + of_nat (4 * i)) v (q + of_nat x) = mm (q + of_nat x)"
proof -
  define A B where "A = q + of_nat x" and "B = p + of_nat (4 * i)"
  have AB: "unat A = unat q + x" "unat B = unat p + 4 * i"
    using assms unat_in_page [of q x] unat_in_page [of p "4 * i"] by (simp_all add: A_def B_def)
  have "unat p + (4 * i + l) \<noteq> unat q + x" if "l < 4" for l
    using that assms by (intro other_page) auto
  then have "\<not> (unat B \<le> unat A \<and> unat A < unat B + 4)"
    unfolding AB by (fastforce simp: add.assoc dest!: le_Suc_ex)
  moreover have "unat B + 4 \<le> 2 ^ 32"
    using page_end [OF assms(1)] assms(4) by (simp add: AB)
  ultimately have "wr32 mm B v A = mm A"
    using unat_sub_less(1) [of B 4 A] by (auto simp: wr32_def)
  then show ?thesis
    by (simp add: A_def B_def)
qed

lemma lookup_page_create:
  assumes ok: "pd_ok s pd" and va: "is_user_vaddr va"
  obtains "lookup_page s pd va True = Some (0, s)" "get_page s \<lparr>PAL_ASSERT = False, PAL_ZERO = True, PAL_USER = False\<rparr> = Some (0, s)"
  | s' where "lookup_page s pd va True = Some (pte_address s' pd (page_no va), s')"
      "pte_address s' pd (page_no va) \<noteq> 0" "extended s pd s'" "entry (vmem s') pd (page_no va div 1024) \<noteq> 0"
proof (cases "entry (vmem s) pd (page_no va div 1024) = 0")
  case False
  then show thesis
    using that(2) [of s] lookup_page_found [OF ok va False] extended_refl [OF ok]
    by (simp add: pte_address_def table_at_def)
next
  case True
  let ?i = "page_no va div 1024"
  have pd: "pd \<noteq> 0" "pg_ofs pd = 0" "?i < 768"
    using pd_root(2) [OF ok] ok user_page(2) [OF va] by (simp_all add: pd_ok_def)
  have vm: "vm_ok s"
    using ok by (simp add: pd_ok_def)
  let ?f = "\<lparr>PAL_ASSERT = False, PAL_ZERO = True, PAL_USER = False\<rparr>"
  show thesis
  proof (rule get_page_rep [OF vm, of ?f])
    show "\<not> PAL_ASSERT ?f"
      by simp
    assume "get_page s ?f = Some (0, s)"
    then show thesis
      using that(1) True pd va unfolding lookup_page_def Let_def entry_address entry_def [symmetric] by simp
  next
    fix pt s1
    assume g: "get_page s ?f = Some (pt, s1)" "same_vm s s1" "vm_ok s1" "pg_ofs pt = 0" "pt \<noteq> 0"
      "page_no pt \<notin> used_pages (alloc s)" "used_pages (alloc s1) = insert (page_no pt) (used_pages (alloc s))"
      "vmem s1 = (if PAL_ZERO ?f then memset_mem (vmem s) pt 0 PGSIZE else vmem s)"
    obtain e where e: "pde_create pt = Some e" "target e = pt" "e AND PTE_P \<noteq> 0"
      using pde_create_rep [OF g(4) used_page_kernel(1) [OF g(3)]] g(7) by auto
    define s' where "s' = put32 s1 (pd + of_nat (4 * ?i)) e"
    have wt: "with_table s pd ?i pt e s'"
      using g by (simp add: with_table_def s'_def)
    note t = with_table_ok [OF ok wt g(4,6) e(2,3) pd(3) True]
    have "pt \<noteq> pd"
      using pd_root(1) [OF ok] g(6) by auto
    then have en: "entry (vmem s') pd ?i = e" "e \<noteq> 0"
      using with_table_entry [OF wt pd(2) g(4) _ pd(2)] pd(3) e(3) by auto
    have found: "pde_get_pt (entry (vmem s') pd ?i) = Some (target (entry (vmem s') pd ?i))"
      using table_facts(1) [OF t(1) pd(3)] en by simp
    have run: "lookup_page s pd va True = Some (pte_address s' pd (page_no va), s')"
      using g(1,5) e(1) pd(1) va True found
      unfolding lookup_page_def Let_def entry_address entry_def [symmetric] pte_address_def table_at_def
      by (simp add: s'_def)
    have "vmem s' (q + of_nat x) = vmem s (q + of_nat x)"
      if "pg_ofs q = 0" "page_no q \<in> used_pages (alloc s)" "q \<noteq> pd" "x < PGSIZE" for q x
    proof -
      have "pt \<noteq> q"
        using that(2) g(6) by auto
      then show ?thesis
        using wt wr32_other_page [OF pd(2) that(1) that(3) [symmetric] _ that(4)] pd(3) in_page [OF g(4) that(1,4)]
        by (simp add: with_table_def memset_mem_def)
    qed
    then have "extended s pd s'"
      unfolding extended_def using t g(2) same_vm_trans [OF g(2), of s'] wt g(6)
      by (auto simp: s'_def with_table_def split: if_splits)
    then show thesis
      using that(2) [OF run] lookup_page_found(2) [OF t(1) va] en by (simp add: pte_address_def table_at_def)
  qed
qed


section \<open>Changing an entry\<close>

definition pte_meaning :: "u32 \<Rightarrow> (ptr \<times> bool) option" where
  "pte_meaning e = (if e AND PTE_P \<noteq> 0 then Some (target e, e AND PTE_W \<noteq> 0) else None)"

lemma put_pte:
  fixes e :: u32
  assumes ok: "pd_ok s pd" and n: "n < 0xC0000" and en: "entry (vmem s) pd (n div 1024) \<noteq> 0"
  defines "s' \<equiv> put32 s (pte_address s pd n) e"
  shows "i < 1024 \<Longrightarrow> entry (vmem s') pd i = entry (vmem s) pd i"
    and "translation s' pd = (translation s pd)(n := pte_meaning e)"
    and "\<And>q x. pg_ofs q = 0 \<Longrightarrow> q \<noteq> table_at s pd n \<Longrightarrow> x < PGSIZE \<Longrightarrow> vmem s' (q + of_nat x) = vmem s (q + of_nat x)"
proof -
  let ?t = "table_at s pd n"
  have idx: "n div 1024 < 768" "n mod 1024 < 1024"
    using n by (simp_all add: less_mult_imp_div_less)
  have pd: "pg_ofs pd = 0" "?t \<noteq> pd" "pg_ofs ?t = 0"
    using ok table_facts(2) [OF ok idx(1) en] by (simp_all add: pd_ok_def table_at_def)
  have entry': "entry (vmem s') q k = (if q = ?t \<and> k = n mod 1024 then e else entry (vmem s) q k)"
    if "pg_ofs q = 0" "k < 1024" for q k
    unfolding s'_def pte_address_def using entry_wr32 [OF pd(3) that(1) idx(2) that(2)] by simp
  show entry_pd: "entry (vmem s') pd i = entry (vmem s) pd i" if "i < 1024" for i
    using entry' [OF pd(1) that] pd(2) by auto
  have pte: "pte_at (vmem s') pd m = (if m = n then e else pte_at (vmem s) pd m)" if "m < 0xC0000" for m
  proof -
    have m: "m div 1024 < 768" "m mod 1024 < 1024"
      using that by (simp_all add: less_mult_imp_div_less)
    have same: "target (entry (vmem s) pd (m div 1024)) = ?t \<longleftrightarrow> m div 1024 = n div 1024" if "entry (vmem s) pd (m div 1024) \<noteq> 0"
    proof
      assume eq: "target (entry (vmem s) pd (m div 1024)) = ?t"
      have "slot_page s pd (Table (m div 1024)) = Some ?t" "slot_page s pd (Table (n div 1024)) = Some ?t"
        using that m idx en eq by (simp_all add: slot_page_def Let_def table_at_def)
      then have "Table (m div 1024) = Table (n div 1024)"
        using ok unfolding pd_ok_def by blast
      then show "m div 1024 = n div 1024"
        by simp
    qed (simp add: table_at_def)
    have eq: "m = n \<longleftrightarrow> m div 1024 = n div 1024 \<and> m mod 1024 = n mod 1024"
      by (metis div_mod_decomp)
    show ?thesis
      using entry_pd [of "m div 1024"] entry' [OF target_aligned m(2), of "entry (vmem s) pd (m div 1024)"] m same en
      unfolding eq by (auto simp: pte_at_def Let_def)
  qed
  show "translation s' pd = (translation s pd)(n := pte_meaning e)"
  proof
    fix m
    show "translation s' pd m = ((translation s pd)(n := pte_meaning e)) m"
      using pte [of m] n by (cases "m < 0xC0000") (auto simp: translation_def pte_meaning_def)
  qed
  show "vmem s' (q + of_nat x) = vmem s (q + of_nat x)" if "pg_ofs q = 0" "q \<noteq> ?t" "x < PGSIZE" for q x
    using wr32_other_page [OF pd(3) that(1) that(2) [symmetric] idx(2) that(3)] by (simp add: s'_def pte_address_def)
qed

lemma put_pte_slots:
  assumes "pd_ok s pd" and "n < 0xC0000" and "entry (vmem s) pd (n div 1024) \<noteq> 0" and "e AND PTE_P \<noteq> 0"
  shows "slot_page (put32 s (pte_address s pd n) e) pd y = (if y = Frame n then Some (target e) else slot_page s pd y)"
  using put_pte(1,2) [OF assms(1-3), where e = e] assms(4)
  by (cases y) (auto simp: slot_page_def Let_def pte_meaning_def)

lemma put_pte_ok:
  assumes ok: "pd_ok s pd" and n: "n < 0xC0000" and en: "entry (vmem s) pd (n div 1024) \<noteq> 0"
    and none: "translation s pd n = None"
    and e: "e AND PTE_P \<noteq> 0" "page_no (target e) \<in> used_pages (alloc s)" "\<And>y. slot_page s pd y \<noteq> Some (target e)"
  shows "pd_ok (put32 s (pte_address s pd n) e) pd"
proof (rule pd_ok_insert [OF ok, where x = "Frame n" and p = "target e"])
  let ?s = "put32 s (pte_address s pd n) e"
  note put = put_pte [OF ok n en, where e = e]
  show "slot_page ?s pd y = (if y = Frame n then Some (target e) else slot_page s pd y)" for y
    by (rule put_pte_slots [OF ok n en e(1)])
  show "entry (vmem ?s) pd i AND PTE_P \<noteq> 0" if "i < 768" "entry (vmem ?s) pd i \<noteq> 0" for i
    using that put(1) [of i] ok by (simp add: pd_ok_def)
qed (use e ok in \<open>simp_all add: pd_ok_def\<close>)

lemma lookup_pte:
  assumes "pd_ok s pd" and "is_user_vaddr va"
  shows "lookup_page s pd va False =
    Some (if entry (vmem s) pd (page_no va div 1024) = 0 then 0 else pte_address s pd (page_no va), s)"
  using lookup_page_found(1) [OF assms, of False] lookup_page_absent [OF assms] by (simp add: pte_address_def table_at_def)

lemma read_pte:
  assumes "pd_ok s pd" and "is_user_vaddr va" and "entry (vmem s) pd (page_no va div 1024) \<noteq> 0"
  shows "rd32 (vmem s) (pte_address s pd (page_no va)) = pte_at (vmem s) pd (page_no va)"
    and "pte_address s pd (page_no va) \<noteq> 0"
  using assms(3) lookup_page_found(2) [OF assms] by (simp_all add: pte_at_def Let_def pte_address_def table_at_def entry_def)

section \<open>The operations on the partial function\<close>

lemma pagedir_get_page_rep:
  assumes "pd_ok s pd" and "is_user_vaddr va"
  shows "pagedir_get_page s pd va =
    Some (case translation s pd (page_no va) of None \<Rightarrow> 0 | Some (p, w) \<Rightarrow> p + pg_ofs va)"
proof (cases "entry (vmem s) pd (page_no va div 1024) = 0 \<or> pte_at (vmem s) pd (page_no va) AND PTE_P = 0")
  case True
  then show ?thesis
    using lookup_pte [OF assms] read_pte [OF assms] assms(2)
    by (auto simp: pagedir_get_page_def translation_def pte_at_def Let_def)
next
  case False
  let ?e = "pte_at (vmem s) pd (page_no va)"
  have "slot_page s pd (Frame (page_no va)) = Some (target ?e)"
    using False user_page(1) [OF assms(2)] by (simp add: slot_page_def translation_def Let_def)
  then have "page_no (target ?e) \<in> used_pages (alloc s)"
    using assms(1) unfolding pd_ok_def by blast
  then have "pte_get_page ?e = Some (target ?e)"
    using ptov_used [OF pd_ok_vm [OF assms(1)]] by (simp add: pte_get_page_def)
  then show ?thesis
    using lookup_pte [OF assms] read_pte [OF assms] assms(2) False user_page(1) [OF assms(2)]
    by (simp add: pagedir_get_page_def translation_def Let_def)
qed


text \<open>A page that is not part of the directory itself keeps its contents.\<close>

definition keeps_contents :: "vm \<Rightarrow> ptr \<Rightarrow> vm \<Rightarrow> bool" where
  "keeps_contents s pd s' \<longleftrightarrow> (\<forall>q x. pg_ofs q = 0 \<and> page_no q \<in> used_pages (alloc s) \<and> x < PGSIZE \<and>
     slot_page s pd Root \<noteq> Some q \<and> (\<forall>i. slot_page s pd (Table i) \<noteq> Some q) \<longrightarrow>
     vmem s' (q + of_nat x) = vmem s (q + of_nat x))"

lemma pagedir_set_page_rep:
  assumes ok: "pd_ok s pd" and u: "is_user_vaddr upage" "pg_ofs upage = 0"
    and k: "pg_ofs kpage = 0" "page_no kpage \<in> used_pages (alloc s)" "drop_bit PTSHIFT (kpage - PHYS_BASE) < init_ram_pages s"
    and new: "\<And>y. slot_page s pd y \<noteq> Some kpage" and init: "pd \<noteq> init_page_dir s"
    and none: "translation s pd (page_no upage) = None"
  obtains "pagedir_set_page s pd upage kpage w = Some (False, s)" "get_page s \<lparr>PAL_ASSERT = False, PAL_ZERO = True, PAL_USER = False\<rparr> = Some (0, s)"
  | s' where "pagedir_set_page s pd upage kpage w = Some (True, s')" "same_vm s s'" "pd_ok s' pd"
      "translation s' pd = (translation s pd)(page_no upage \<mapsto> (kpage, w))"
      "used_pages (alloc s) \<subseteq> used_pages (alloc s')" "keeps_contents s pd s'"
      "\<And>y p. slot_page s' pd y = Some p \<Longrightarrow> slot_page s pd y = Some p \<or> p = kpage \<or> page_no p \<notin> used_pages (alloc s)"
proof (rule lookup_page_create [OF ok u(1)])
  note kernel = vtop_kernel [OF used_page_kernel(1) [OF pd_ok_vm [OF ok] k(2)]]
  {
    assume "lookup_page s pd upage True = Some (0, s)" "get_page s \<lparr>PAL_ASSERT = False, PAL_ZERO = True, PAL_USER = False\<rparr> = Some (0, s)"
    then show thesis
      using that(1) kernel u k(1,3) init by (simp add: pagedir_set_page_def)
  }
  fix s1
  let ?n = "page_no upage"
  assume l: "lookup_page s pd upage True = Some (pte_address s1 pd ?n, s1)" "pte_address s1 pd ?n \<noteq> 0"
    "extended s pd s1" "entry (vmem s1) pd (?n div 1024) \<noteq> 0"
  have x: "same_vm s s1" "pd_ok s1 pd" "translation s1 pd = translation s pd" "used_pages (alloc s) \<subseteq> used_pages (alloc s1)"
    using l(3) by (simp_all add: extended_def)
  obtain e where e: "pte_create_user kpage w = Some e" "target e = kpage" "e AND PTE_P \<noteq> 0" "(e AND PTE_W \<noteq> 0) = w"
    using pte_create_rep [OF k(1) used_page_kernel(1) [OF pd_ok_vm [OF ok] k(2)]] by blast
  let ?s = "put32 s1 (pte_address s1 pd ?n) e"
  note n = user_page(1) [OF u(1)]
  note put = put_pte [OF x(2) n l(4), where e = e]
  have fresh: "slot_page s1 pd y \<noteq> Some (target e)" for y
    using l(3) new k(2) e(2) unfolding extended_def by blast
  have "rd32 (vmem s1) (pte_address s1 pd ?n) AND PTE_P = 0"
    using none x(3) n read_pte(1) [OF x(2) u(1) l(4)]
    by (auto simp: translation_def Let_def fun_eq_iff dest: spec [of _ ?n] split: if_splits)
  then have run: "pagedir_set_page s pd upage kpage w = Some (True, ?s)"
    using l(1,2) kernel u k(1,3) init e(1) by (simp add: pagedir_set_page_def)
  have ok': "pd_ok ?s pd"
    using put_pte_ok [OF x(2) n l(4) _ e(3) _ fresh] none x(3,4) k(2) e(2) by auto
  have slots: "slot_page ?s pd y = Some p \<Longrightarrow> slot_page s pd y = Some p \<or> p = kpage \<or> page_no p \<notin> used_pages (alloc s)" for y p
    using put_pte_slots [OF x(2) n l(4) e(3), of y] l(3) e(2) unfolding extended_def by (metis option.inject)
  have "slot_page s1 pd (Table (?n div 1024)) = Some (table_at s1 pd ?n)"
    using l(4) user_page(2) [OF u(1)] by (simp add: slot_page_def table_at_def Let_def)
  then have t: "slot_page s pd (Table (?n div 1024)) = Some (table_at s1 pd ?n) \<or> page_no (table_at s1 pd ?n) \<notin> used_pages (alloc s)"
    using l(3) unfolding extended_def by blast
  have "keeps_contents s pd ?s"
    unfolding keeps_contents_def
  proof (intro allI impI, elim conjE)
    fix q x
    assume q: "pg_ofs q = 0" "page_no q \<in> used_pages (alloc s)" "x < PGSIZE" "slot_page s pd Root \<noteq> Some q"
      "\<forall>i. slot_page s pd (Table i) \<noteq> Some q"
    then have "q \<noteq> pd" "q \<noteq> table_at s1 pd ?n"
      using t by (auto simp: slot_page_def)
    then show "vmem ?s (q + of_nat x) = vmem s (q + of_nat x)"
      using put(3) [OF q(1) _ q(3)] l(3) q(1-3) by (simp add: extended_def)
  qed
  then show thesis
    using that(2) [OF run] ok' slots put(2) x same_vm_trans [OF x(1), of ?s] e by (simp add: pte_meaning_def)
qed


lemma invalidate_same:
  assumes "PHYS_BASE \<le> pd" and "pd \<noteq> 0" and "active_pd s \<noteq> None"
  shows "invalidate_pagedir s pd = Some s"
proof -
  have a: "active_pd s = Some (cr3 s + PHYS_BASE)"
    using assms(3) by (auto simp: active_pd_def ptov_def ASSERT_def split: if_splits)
  show ?thesis
  proof (cases "cr3 s + PHYS_BASE = pd")
    case True
    then have "pd - PHYS_BASE = cr3 s"
      by auto
    then show ?thesis
      using a True assms(1,2) by (simp add: invalidate_pagedir_def pagedir_activate_def vtop_kernel)
  qed (use a in \<open>simp add: invalidate_pagedir_def\<close>)
qed

lemma pagedir_clear_page_rep:
  assumes ok: "pd_ok s pd" and u: "is_user_vaddr upage" "pg_ofs upage = 0" and active: "active_pd s \<noteq> None"
  obtains s' where "pagedir_clear_page s pd upage = Some s'" "pd_ok s' pd"
    "translation s' pd = (translation s pd)(page_no upage := None)" "same_vm s s'"
    "used_pages (alloc s') = used_pages (alloc s)"
proof -
  let ?n = "page_no upage" and ?e = "pte_at (vmem s) pd (page_no upage)"
  note look = lookup_pte [OF ok u(1)] and n = user_page(1) [OF u(1)]
  show thesis
  proof (cases "entry (vmem s) pd (?n div 1024) = 0 \<or> ?e AND PTE_P = 0")
    case True
    then have "translation s pd ?n = None"
      by (auto simp: translation_def pte_at_def Let_def)
    then have "translation s pd = (translation s pd)(?n := None)"
      by (simp add: fun_upd_idem)
    moreover have "pagedir_clear_page s pd upage = Some s"
      using True look read_pte [OF ok u(1)] u by (auto simp: pagedir_clear_page_def)
    ultimately show thesis
      using that ok by simp
  next
    case False
    then have en: "entry (vmem s) pd (?n div 1024) \<noteq> 0"
      by simp
    let ?c = "?e AND NOT PTE_P"
    let ?s = "put32 s (pte_address s pd ?n) ?c"
    note put = put_pte [OF ok n en, where e = ?c]
    have "?c AND PTE_P = 0"
      by (simp add: and.assoc)
    then have clear: "translation ?s pd = (translation s pd)(?n := None)"
      using put(2) by (simp add: pte_meaning_def)
    have slots: "slot_page ?s pd y = (if y = Frame ?n then None else slot_page s pd y)" for y
      using clear put(1) by (cases y) (auto simp: slot_page_def Let_def)
    have ok': "pd_ok ?s pd"
      using ok put(1) unfolding pd_ok_def slots by (auto split: if_splits)
    have run: "pagedir_clear_page s pd upage = invalidate_pagedir ?s pd"
      using False look read_pte [OF ok u(1) en] u by (simp add: pagedir_clear_page_def)
    have "active_pd ?s = active_pd s"
      by (simp add: active_pd_def put32_def)
    then have "invalidate_pagedir ?s pd = Some ?s"
      using active pd_root [OF ok] used_page_kernel(1) [OF pd_ok_vm [OF ok] pd_root(1) [OF ok]]
      by (intro invalidate_same) simp_all
    then show thesis
      using that [of ?s] run ok' clear by simp
  qed
qed


section \<open>Creating and destroying a directory\<close>

lemma entry_copy:
  assumes "\<And>x. x < PGSIZE \<Longrightarrow> mm (p + of_nat x) = mm' (q + of_nat x)" and "i < 1024"
  shows "entry mm p i = entry mm' q i"
proof -
  have "mm (p + of_nat (4 * i) + of_nat j) = mm' (q + of_nat (4 * i) + of_nat j)" if "j < 4" for j
    using assms(1) [of "4 * i + j"] assms(2) that by (simp add: add.assoc)
  then show ?thesis
    unfolding entry_def rd32_def by (intro arg_cong [of _ _ dec32] map_cong refl) simp
qed

lemma pagedir_create_rep:
  assumes vm: "vm_ok s" and init: "pg_ofs (init_page_dir s) = 0" "page_no (init_page_dir s) \<in> used_pages (alloc s)"
    and user: "\<And>i. i < 768 \<Longrightarrow> entry (vmem s) (init_page_dir s) i = 0"
  obtains "pagedir_create s = Some (0, s)"
  | pd s' where "pagedir_create s = Some (pd, s')" "pd_ok s' pd" "translation s' pd = Map.empty" "pd \<noteq> 0"
      "pd \<noteq> init_page_dir s" "same_vm s s'" "page_no pd \<notin> used_pages (alloc s)"
      "used_pages (alloc s') = insert (page_no pd) (used_pages (alloc s))"
      "\<And>q x. pg_ofs q = 0 \<Longrightarrow> q \<noteq> pd \<Longrightarrow> x < PGSIZE \<Longrightarrow> vmem s' (q + of_nat x) = vmem s (q + of_nat x)"
proof (rule get_page_rep [OF vm, of "\<lparr>PAL_ASSERT = False, PAL_ZERO = False, PAL_USER = False\<rparr>"])
  let ?f = "\<lparr>PAL_ASSERT = False, PAL_ZERO = False, PAL_USER = False\<rparr>"
  show "\<not> PAL_ASSERT ?f"
    by simp
  {
    assume "get_page s ?f = Some (0, s)"
    then show thesis
      using that(1) by (simp add: pagedir_create_def)
  }
  fix pd s1
  assume g: "get_page s ?f = Some (pd, s1)" "same_vm s s1" "vm_ok s1" "pg_ofs pd = 0" "pd \<noteq> 0"
    "page_no pd \<notin> used_pages (alloc s)" "used_pages (alloc s1) = insert (page_no pd) (used_pages (alloc s))"
    "vmem s1 = (if PAL_ZERO ?f then memset_mem (vmem s) pd 0 PGSIZE else vmem s)"
  define m where "m = (\<lambda>a. if unat (a - pd) < PGSIZE then vmem s1 (init_page_dir s1 + (a - pd)) else vmem s1 a)"
  define s' where "s' = s1\<lparr>alloc := (alloc s1)\<lparr>mem := m\<rparr>\<rparr>"
  have s1: "init_page_dir s1 = init_page_dir s" "vmem s1 = vmem s"
    using g(2,8) by (simp_all add: same_vm_def)
  have run: "pagedir_create s = Some (pd, s')"
    using g(1,5) by (simp add: pagedir_create_def s'_def m_def)
  have "m (pd + of_nat x) = vmem s (init_page_dir s + of_nat x)" if "x < PGSIZE" for x
    using that by (simp add: m_def unat_of_nat32 s1)
  then have e: "entry (vmem s') pd i = entry (vmem s) (init_page_dir s) i" if "i < 1024" for i
    using that by (intro entry_copy) (simp_all add: s'_def)
  have zero: "entry (vmem s') pd i = 0" if "i < 768" for i
    using e [of i] user [OF that] that by simp
  then have tr: "translation s' pd = Map.empty"
    by (intro ext) (auto simp: translation_def pte_at_def Let_def less_mult_imp_div_less)
  have s': "vm_ok s'" "used_pages (alloc s') = insert (page_no pd) (used_pages (alloc s))" "same_vm s s'"
    using g by (simp_all add: s'_def vm_ok_def same_vm_def)
  have slots: "slot_page s' pd x = (if x = Root then Some pd else None)" for x
    using zero tr by (cases x) (simp_all add: slot_page_def Let_def)
  have "pd_ok s' pd"
    unfolding pd_ok_def slots using s' g(4) zero by (auto split: if_splits)
  moreover have "vmem s' (q + of_nat x) = vmem s (q + of_nat x)" if "pg_ofs q = 0" "q \<noteq> pd" "x < PGSIZE" for q x
    using in_page [OF g(4) that(1,3)] that(2) by (simp add: s'_def m_def s1)
  moreover have "pd \<noteq> init_page_dir s"
    using init(2) g(6) by auto
  ultimately show thesis
    using that(2) [OF run] tr g(5,6) s' by blast
qed

end
