(* ===== verification/Userprog_Destroy.thy ===== *)
theory Userprog_Destroy
  imports Userprog_Translation
begin

text \<open>
  Destroying a page directory gives back every page it is made of, each exactly once; and the properties of page
  directories.
\<close>

unbundle bit_operations_syntax

section \<open>Freeing frames and tables\<close>

definition pt_frame :: "(ptr \<Rightarrow> u8) \<Rightarrow> ptr \<Rightarrow> nat \<Rightarrow> ptr option" where
  "pt_frame mm pt j = (let e = entry mm pt j in if e AND PTE_P \<noteq> 0 then Some (target e) else None)"

text \<open>After pages were freed: exactly the pages \<open>P\<close> are gone, and all others keep their contents.\<close>

definition freed :: "vm \<Rightarrow> ptr set \<Rightarrow> vm \<Rightarrow> bool" where
  "freed s P s' \<longleftrightarrow> vm_ok s' \<and> same_vm s s' \<and> used_pages (alloc s') = used_pages (alloc s) - page_no ` P \<and>
     (\<forall>q x. pg_ofs q = 0 \<and> q \<notin> P \<and> x < PGSIZE \<longrightarrow> vmem s' (q + of_nat x) = vmem s (q + of_nat x))"

lemma freed_refl: "vm_ok s \<Longrightarrow> freed s {} s"
  by (simp add: freed_def)

lemma freed_trans: "freed s P t \<Longrightarrow> freed t Q u \<Longrightarrow> freed s (P \<union> Q) u"
  unfolding freed_def by (auto dest: same_vm_trans)

lemma freed_entry:
  assumes "freed s P s'" and "pg_ofs q = 0" and "q \<notin> P" and "k < 1024"
  shows "entry (vmem s') q k = entry (vmem s) q k"
  using assms by (intro entry_cong) (simp_all add: freed_def)

lemma freed_used:
  assumes "freed s P s'" and "pg_ofs p = 0" and "\<forall>q \<in> P. pg_ofs q = 0" and "p \<notin> P"
  shows "page_no p \<in> used_pages (alloc s') \<longleftrightarrow> page_no p \<in> used_pages (alloc s)"
  using assms page_no_inj [OF assms(2)] unfolding freed_def by blast

lemma free_page_freed:
  assumes "vm_ok s" and "pg_ofs p = 0" and "page_no p \<in> used_pages (alloc s)"
  obtains s' where "free_page s p = Some s'" "freed s {p} s'"
proof (rule free_page_rep [OF assms])
  fix s'
  assume f: "free_page s p = Some s'" "same_vm s s'" "vm_ok s'" "used_pages (alloc s') = used_pages (alloc s) - {page_no p}"
    "vmem s' = memset_mem (vmem s) p 0xCC PGSIZE"
  then have "freed s {p} s'"
    using in_page [OF assms(2)] by (auto simp: freed_def memset_mem_def)
  then show thesis
    using that f(1) by blast
qed

lemma free_frames_freed:
  assumes "vm_ok s" and pt: "pg_ofs pt = 0" and js: "distinct js" "\<forall>j \<in> set js. j < 1024"
    and used: "\<And>j p. j \<in> set js \<Longrightarrow> pt_frame (vmem s) pt j = Some p \<Longrightarrow> page_no p \<in> used_pages (alloc s) \<and> p \<noteq> pt"
    and inj: "\<And>j k p. j \<in> set js \<Longrightarrow> k \<in> set js \<Longrightarrow> pt_frame (vmem s) pt j = Some p \<Longrightarrow> pt_frame (vmem s) pt k = Some p \<Longrightarrow> j = k"
  shows "\<exists>s'. free_frames s pt js = Some s' \<and> freed s {p. \<exists>j \<in> set js. pt_frame (vmem s) pt j = Some p} s'"
  using assms
proof (induction js arbitrary: s)
  case Nil
  then show ?case
    by (simp add: freed_refl)
next
  case (Cons j js)
  let ?e = "entry (vmem s) pt j"
  define P where "P = (case pt_frame (vmem s) pt j of None \<Rightarrow> {} | Some p \<Rightarrow> {p})"
  have P: "\<forall>p \<in> P. pg_ofs p = 0 \<and> p \<noteq> pt"
    using Cons.prems(5) [of j] by (auto simp: P_def pt_frame_def Let_def split: if_splits)
  obtain s1 where s1: "(if ?e AND PTE_P \<noteq> 0 then do { page \<leftarrow> pte_get_page ?e; free_page s page } else Some s) = Some s1"
    "freed s P s1"
  proof (cases "?e AND PTE_P = 0")
    case True
    then show thesis
      using that [of s] freed_refl [OF Cons.prems(1)] by (simp add: P_def pt_frame_def)
  next
    case False
    then have f: "pt_frame (vmem s) pt j = Some (target ?e)"
      by (simp add: pt_frame_def Let_def)
    then have u: "page_no (target ?e) \<in> used_pages (alloc s)"
      using Cons.prems(5) [of j] by simp
    obtain s1 where "free_page s (target ?e) = Some s1" "freed s {target ?e} s1"
      using free_page_freed [OF Cons.prems(1) target_aligned u] by blast
    then show thesis
      using that [of s1] False f ptov_used [OF Cons.prems(1) u] by (simp add: P_def pte_get_page_def)
  qed
  have same: "pt_frame (vmem s1) pt k = pt_frame (vmem s) pt k" if "k < 1024" for k
    using freed_entry [OF s1(2) pt _ that] P by (auto simp: pt_frame_def Let_def)
  have "\<exists>s'. free_frames s1 pt js = Some s' \<and> freed s1 {p. \<exists>j \<in> set js. pt_frame (vmem s1) pt j = Some p} s'"
  proof (rule Cons.IH [OF _ pt])
    show "vm_ok s1"
      using s1(2) by (simp add: freed_def)
    fix k p
    assume k: "k \<in> set js" "pt_frame (vmem s1) pt k = Some p"
    then have kp: "pt_frame (vmem s) pt k = Some p" "k \<noteq> j"
      using Cons.prems(3,4) same by auto
    then have "pg_ofs p = 0" "p \<notin> P"
      using Cons.prems(6) [of k j p] k by (auto simp: P_def pt_frame_def Let_def split: if_splits option.splits)
    then show "page_no p \<in> used_pages (alloc s1) \<and> p \<noteq> pt"
      using freed_used [OF s1(2)] P Cons.prems(5) [of k p] k(1) kp by auto
  next
    fix k l p
    assume "k \<in> set js" "l \<in> set js" "pt_frame (vmem s1) pt k = Some p" "pt_frame (vmem s1) pt l = Some p"
    then show "k = l"
      using Cons.prems(4,6) same by auto
  qed (use Cons.prems in auto)
  then obtain s' where s': "free_frames s1 pt js = Some s'" "freed s1 {p. \<exists>j \<in> set js. pt_frame (vmem s1) pt j = Some p} s'"
    by blast
  have "{p. \<exists>k \<in> set (j # js). pt_frame (vmem s) pt k = Some p} = P \<union> {p. \<exists>j \<in> set js. pt_frame (vmem s1) pt j = Some p}"
    using same Cons.prems(4) by (auto simp: P_def split: option.splits)
  then show ?case
    using s1(1) s' freed_trans [OF s1(2) s'(2)] by (simp add: Let_def flip: entry_def)
qed

text \<open>The table with index \<open>i\<close> and its frames.\<close>

definition table_pages :: "(ptr \<Rightarrow> u8) \<Rightarrow> ptr \<Rightarrow> nat \<Rightarrow> ptr set" where
  "table_pages mm pd i = (
     let e = entry mm pd i
     in if e = 0 then {} else insert (target e) {p. \<exists>j < 1024. pt_frame mm (target e) j = Some p})"


lemma table_pages_aligned: "p \<in> table_pages mm pd i \<Longrightarrow> pg_ofs p = 0"
  by (auto simp: table_pages_def pt_frame_def Let_def split: if_splits)

text \<open>A table maps no page twice and not itself.\<close>

definition table_own :: "(ptr \<Rightarrow> u8) \<Rightarrow> ptr \<Rightarrow> bool" where
  "table_own mm t \<longleftrightarrow> (\<forall>j < 1024. pt_frame mm t j \<noteq> Some t) \<and>
     (\<forall>j < 1024. \<forall>k < 1024. \<forall>p. pt_frame mm t j = Some p \<and> pt_frame mm t k = Some p \<longrightarrow> j = k)"

lemma table_own_cong: "(\<And>j. j < 1024 \<Longrightarrow> pt_frame mm' t j = pt_frame mm t j) \<Longrightarrow> table_own mm' t = table_own mm t"
  by (simp add: table_own_def)

definition tables_ok :: "vm \<Rightarrow> ptr \<Rightarrow> nat set \<Rightarrow> bool" where
  "tables_ok s pd I \<longleftrightarrow> vm_ok s \<and> pg_ofs pd = 0 \<and> (\<forall>i \<in> I. i < 768) \<and>
     (\<forall>i \<in> I. entry (vmem s) pd i \<noteq> 0 \<longrightarrow> entry (vmem s) pd i AND PTE_P \<noteq> 0) \<and>
     (\<forall>i \<in> I. \<forall>p \<in> table_pages (vmem s) pd i. page_no p \<in> used_pages (alloc s) \<and> p \<noteq> pd) \<and>
     (\<forall>i \<in> I. \<forall>k \<in> I. i \<noteq> k \<longrightarrow> table_pages (vmem s) pd i \<inter> table_pages (vmem s) pd k = {}) \<and>
     (\<forall>i \<in> I. entry (vmem s) pd i \<noteq> 0 \<longrightarrow> table_own (vmem s) (target (entry (vmem s) pd i)))"

lemma free_table_freed:
  assumes "tables_ok s pd I" and "i \<in> I"
  defines "e \<equiv> entry (vmem s) pd i"
  obtains s' where "(if e AND PTE_P \<noteq> 0 then do { pt \<leftarrow> pde_get_pt e; s \<leftarrow> free_frames s pt [0..<PGSIZE div 4]; free_page s pt }
      else Some s) = Some s'" "freed s (table_pages (vmem s) pd i) s'"
proof (cases "e = 0")
  case True
  then show thesis
    using that [of s] assms(1) freed_refl [of s] by (simp add: table_pages_def tables_ok_def e_def Let_def)
next
  case False
  let ?t = "target e" and ?F = "{p. \<exists>j < 1024. pt_frame (vmem s) (target e) j = Some p}"
  have vm: "vm_ok s" and P: "e AND PTE_P \<noteq> 0"
    using assms False by (simp_all add: tables_ok_def)
  have pages: "table_pages (vmem s) pd i = insert ?t ?F"
    using False by (simp add: table_pages_def e_def Let_def)
  then have used: "page_no p \<in> used_pages (alloc s)" if "p \<in> insert ?t ?F" for p
    using that assms(1,2) unfolding tables_ok_def by blast
  have "table_own (vmem s) ?t"
    using assms False by (simp add: tables_ok_def)
  then have own: "\<forall>j < 1024. pt_frame (vmem s) ?t j \<noteq> Some ?t"
    "\<forall>j < 1024. \<forall>k < 1024. \<forall>p. pt_frame (vmem s) ?t j = Some p \<and> pt_frame (vmem s) ?t k = Some p \<longrightarrow> j = k"
    unfolding table_own_def by blast+
  have "\<exists>s1. free_frames s ?t [0..<1024] = Some s1 \<and> freed s {p. \<exists>j \<in> set [0..<1024]. pt_frame (vmem s) ?t j = Some p} s1"
  proof (rule free_frames_freed [OF vm target_aligned])
    fix j p
    assume j: "j \<in> set [0..<1024]" "pt_frame (vmem s) ?t j = Some p"
    then have "p \<in> ?F"
      by auto
    then show "page_no p \<in> used_pages (alloc s) \<and> p \<noteq> ?t"
      using used [of p] own(1) by blast
  next
    fix j k p
    assume "j \<in> set [0..<1024]" "k \<in> set [0..<1024]" "pt_frame (vmem s) ?t j = Some p" "pt_frame (vmem s) ?t k = Some p"
    then show "j = k"
      using own(2) by simp
  qed auto
  moreover have "{p. \<exists>j \<in> set [0..<1024]. pt_frame (vmem s) ?t j = Some p} = ?F"
    by auto
  ultimately obtain s1 where s1: "free_frames s ?t [0..<1024] = Some s1" "freed s ?F s1"
    by auto
  have "?t \<notin> ?F" "\<forall>q \<in> ?F. pg_ofs q = 0"
    using own(1) by (auto simp: pt_frame_def Let_def split: if_splits)
  then have "page_no ?t \<in> used_pages (alloc s1)"
    using freed_used [OF s1(2) target_aligned] used [of ?t] by simp
  then obtain s2 where s2: "free_page s1 ?t = Some s2" "freed s1 {?t} s2"
    using free_page_freed [of s1 ?t] s1(2) by (auto simp: freed_def)
  have "freed s (table_pages (vmem s) pd i) s2"
    using freed_trans [OF s1(2) s2(2)] by (simp add: pages)
  moreover have "pde_get_pt e = Some ?t"
    using P ptov_used [OF vm used] by (simp add: pde_get_pt_def)
  ultimately show thesis
    using that [of s2] P s1(1) s2(1) by simp
qed

lemma tables_ok_freed:
  assumes "tables_ok s pd I" and "i \<in> I" and "freed s (table_pages (vmem s) pd i) s'"
  shows "tables_ok s' pd (I - {i})"
    and "k \<in> I \<Longrightarrow> k \<noteq> i \<Longrightarrow> table_pages (vmem s') pd k = table_pages (vmem s) pd k"
proof -
  let ?P = "table_pages (vmem s) pd i"
  have pd: "pg_ofs pd = 0" "pd \<notin> ?P"
    using assms(1,2) unfolding tables_ok_def by auto
  have en: "entry (vmem s') pd k = entry (vmem s) pd k" if "k \<in> I" for k
    using that assms(1) by (intro freed_entry [OF assms(3) pd]) (auto simp: tables_ok_def)
  have fr: "pt_frame (vmem s') (target (entry (vmem s) pd k)) j = pt_frame (vmem s) (target (entry (vmem s) pd k)) j"
    if "k \<in> I - {i}" "entry (vmem s) pd k \<noteq> 0" "j < 1024" for k j
  proof -
    have "target (entry (vmem s) pd k) \<in> table_pages (vmem s) pd k"
      using that(2) by (simp add: table_pages_def Let_def)
    then have "target (entry (vmem s) pd k) \<notin> ?P"
      using that(1) assms(1,2) unfolding tables_ok_def by blast
    then show ?thesis
      using freed_entry [OF assms(3) target_aligned _ that(3)] by (simp add: pt_frame_def)
  qed
  show pages: "table_pages (vmem s') pd k = table_pages (vmem s) pd k" if "k \<in> I" "k \<noteq> i" for k
    using that en fr by (auto simp: table_pages_def Let_def)
  have "page_no p \<in> used_pages (alloc s')" if "k \<in> I - {i}" "p \<in> table_pages (vmem s) pd k" for k p
  proof -
    have "p \<notin> ?P" "page_no p \<in> used_pages (alloc s)"
      using that assms(1,2) unfolding tables_ok_def by blast+
    then show ?thesis
      using freed_used [OF assms(3) table_pages_aligned [OF that(2)]] table_pages_aligned by blast
  qed
  then show "tables_ok s' pd (I - {i})"
    using assms(1,3) pages en table_own_cong [OF fr] unfolding tables_ok_def freed_def by auto
qed

lemma free_tables_freed:
  assumes "tables_ok s pd (set is)" and "distinct is"
  shows "\<exists>s'. free_tables s pd is = Some s' \<and> freed s (\<Union>i \<in> set is. table_pages (vmem s) pd i) s'"
  using assms
proof (induction "is" arbitrary: s)
  case Nil
  then show ?case
    by (simp add: freed_refl tables_ok_def)
next
  case (Cons i js)
  obtain s1 where s1: "(if entry (vmem s) pd i AND PTE_P \<noteq> 0 then do {
      pt \<leftarrow> pde_get_pt (entry (vmem s) pd i); s \<leftarrow> free_frames s pt [0..<PGSIZE div 4]; free_page s pt } else Some s) = Some s1"
    "freed s (table_pages (vmem s) pd i) s1"
  proof (rule free_table_freed [OF Cons.prems(1), of i])
    show "i \<in> set (i # js)"
      by simp
  qed (rule that)
  note rest = tables_ok_freed [OF Cons.prems(1) _ s1(2)]
  have "set (i # js) - {i} = set js"
    using Cons.prems(2) by auto
  then have "tables_ok s1 pd (set js)"
    using rest(1) by simp
  then obtain s' where s': "free_tables s1 pd js = Some s'" "freed s1 (\<Union>i \<in> set js. table_pages (vmem s1) pd i) s'"
    using Cons.IH [of s1] Cons.prems(2) by auto
  have "(\<Union>k \<in> set js. table_pages (vmem s1) pd k) = (\<Union>k \<in> set js. table_pages (vmem s) pd k)"
    using rest(2) Cons.prems(2) by (intro SUP_cong refl) auto
  then show ?case
    using s1(1) s' freed_trans [OF s1(2) s'(2)] by (simp add: Let_def flip: entry_def)
qed


section \<open>Destroying a directory\<close>

lemma frame_translation:
  assumes "pd_ok s pd" and "i < 768" and "entry (vmem s) pd i \<noteq> 0" and "j < 1024"
  shows "slot_page s pd (Frame (1024 * i + j)) = pt_frame (vmem s) (target (entry (vmem s) pd i)) j"
proof -
  have "(1024 * i + j) div 1024 = i" "(1024 * i + j) mod 1024 = j" "1024 * i + j < 0xC0000"
    using assms(2,4) by simp_all
  then show ?thesis
    using assms(3) by (simp add: slot_page_def translation_def pte_at_def pt_frame_def Let_def)
qed

lemma table_pages_slots:
  assumes "pd_ok s pd" and "i < 768"
  shows "p \<in> table_pages (vmem s) pd i \<longleftrightarrow>
    slot_page s pd (Table i) = Some p \<or> (\<exists>j < 1024. slot_page s pd (Frame (1024 * i + j)) = Some p)"
proof (cases "entry (vmem s) pd i = 0")
  case True
  have "(1024 * i + j) div 1024 = i" if "j < 1024" for j
    using that by simp
  then show ?thesis
    using True assms(2) by (auto simp: table_pages_def slot_page_def translation_def pte_at_def Let_def)
next
  case False
  then have "slot_page s pd (Table i) = Some (target (entry (vmem s) pd i))"
    using assms(2) by (simp add: slot_page_def Let_def)
  then show ?thesis
    using frame_translation [OF assms False] False by (auto simp: table_pages_def Let_def)
qed

fun slot_index :: "slot \<Rightarrow> nat" where
  "slot_index Root = 768"
| "slot_index (Table i) = i"
| "slot_index (Frame n) = n div 1024"

lemma table_pages_slot:
  assumes "pd_ok s pd" and "i < 768"
  shows "p \<in> table_pages (vmem s) pd i \<longleftrightarrow> (\<exists>x. slot_page s pd x = Some p \<and> slot_index x = i)"
proof
  assume "p \<in> table_pages (vmem s) pd i"
  then consider "slot_page s pd (Table i) = Some p" | j where "j < 1024" "slot_page s pd (Frame (1024 * i + j)) = Some p"
    unfolding table_pages_slots [OF assms] by blast
  then show "\<exists>x. slot_page s pd x = Some p \<and> slot_index x = i"
    by cases (force intro: exI [of _ "Table i"] exI [of _ "Frame (1024 * i + j)" for j])+
next
  assume "\<exists>x. slot_page s pd x = Some p \<and> slot_index x = i"
  then obtain x where x: "slot_page s pd x = Some p" "slot_index x = i"
    by blast
  show "p \<in> table_pages (vmem s) pd i"
  proof (cases x)
    case (Frame n)
    then have "n = 1024 * i + n mod 1024"
      using x(2) mult_div_mod_eq [of 1024 n] by simp
    then have "slot_page s pd (Frame (1024 * i + n mod 1024)) = Some p"
      using x(1) Frame by simp
    then show ?thesis
      unfolding table_pages_slots [OF assms] by (intro disjI2 exI [of _ "n mod 1024"]) simp
  qed (use x assms(2) table_pages_slots [OF assms] in auto)
qed

lemma pd_ok_tables:
  assumes ok: "pd_ok s pd"
  shows "tables_ok s pd {..<768}"
  unfolding tables_ok_def
proof (intro conjI ballI impI)
  show "vm_ok s" "pg_ofs pd = 0"
    using ok by (simp_all add: pd_ok_def)
  have root: "slot_page s pd Root = Some pd"
    by (simp add: slot_page_def)
  fix i :: nat
  assume "i \<in> {..<768}"
  then have i: "i < 768"
    by simp
  then show "i < 768" .
  show "entry (vmem s) pd i AND PTE_P \<noteq> 0" if "entry (vmem s) pd i \<noteq> 0"
    using that i ok by (simp add: pd_ok_def)
  show "page_no p \<in> used_pages (alloc s)" if "p \<in> table_pages (vmem s) pd i" for p
    using that slot_used [OF ok] unfolding table_pages_slots [OF ok i] by blast
  show "p \<noteq> pd" if "p \<in> table_pages (vmem s) pd i" for p
    using that slot_inj [OF ok root] unfolding table_pages_slots [OF ok i] by blast
  show "table_own (vmem s) (target (entry (vmem s) pd i))" if e: "entry (vmem s) pd i \<noteq> 0"
  proof -
    have t: "slot_page s pd (Table i) = Some (target (entry (vmem s) pd i))"
      using e i by (simp add: slot_page_def Let_def)
    show ?thesis
      using slot_inj [OF ok t] slot_inj [OF ok, of "Frame _" _ "Frame _"] frame_translation [OF ok i e]
      unfolding table_own_def by (metis (no_types) add_left_cancel slot.distinct(5) slot.inject(2))
  qed
  show "table_pages (vmem s) pd i \<inter> table_pages (vmem s) pd k = {}" if "k \<in> {..<768}" "i \<noteq> k" for k
  proof (rule equals0I)
    fix p
    assume "p \<in> table_pages (vmem s) pd i \<inter> table_pages (vmem s) pd k"
    moreover have "k < 768"
      using that(1) by simp
    ultimately obtain x y where
      xy: "slot_page s pd x = Some p" "slot_index x = i" "slot_page s pd y = Some p" "slot_index y = k"
      using table_pages_slot [OF ok i] table_pages_slot [OF ok, of k] by blast
    then show False
      using slot_inj [OF ok xy(1,3)] that(2) by simp
  qed
qed


lemma slot_index_less: "slot_page s pd x = Some p \<Longrightarrow> x = Root \<or> slot_index x < 768"
  by (cases x) (auto simp: slot_page_def translation_def Let_def less_mult_imp_div_less split: if_splits)

lemma pagedir_destroy_rep:
  assumes ok: "pd_ok s pd" and init: "pd \<noteq> init_page_dir s"
  obtains s' where "pagedir_destroy s pd = Some s'" "freed s {p. \<exists>x. slot_page s pd x = Some p} s'"
proof -
  have n: "[0..<unat (pd_no PHYS_BASE)] = [0..<768]"
    unfolding unat_pd_no by (simp add: PHYS_BASE_def)
  let ?T = "\<Union>i \<in> {..<768}. table_pages (vmem s) pd i"
  obtain s1 where s1: "free_tables s pd [0..<768] = Some s1" "freed s ?T s1"
    using free_tables_freed [of s pd "[0..<768]"] pd_ok_tables [OF ok] by (auto simp: atLeast0LessThan)
  have pd: "pg_ofs pd = 0" "pd \<notin> ?T"
    using pd_ok_tables [OF ok] unfolding tables_ok_def by auto
  then have "page_no pd \<in> used_pages (alloc s1)"
    using freed_used [OF s1(2) pd(1)] pd_root(1) [OF ok] table_pages_aligned by blast
  then obtain s2 where s2: "free_page s1 pd = Some s2" "freed s1 {pd} s2"
    using free_page_freed [of s1 pd] s1(2) pd(1) by (auto simp: freed_def)
  have "{p. \<exists>x. slot_page s pd x = Some p} = ?T \<union> {pd}"
  proof (intro equalityI subsetI)
    fix p
    assume "p \<in> {p. \<exists>x. slot_page s pd x = Some p}"
    then obtain x where x: "slot_page s pd x = Some p"
      by blast
    show "p \<in> ?T \<union> {pd}"
    proof (cases "x = Root")
      case True
      then show ?thesis
        using x by (simp add: slot_page_def)
    next
      case False
      then have "slot_index x < 768"
        using slot_index_less [OF x] by simp
      then show ?thesis
        using table_pages_slot [OF ok] x by blast
    qed
  next
    fix p
    assume "p \<in> ?T \<union> {pd}"
    moreover have "slot_page s pd Root = Some pd"
      by (simp add: slot_page_def)
    ultimately show "p \<in> {p. \<exists>x. slot_page s pd x = Some p}"
      using table_pages_slot [OF ok] by auto
  qed
  then show thesis
    using that [of s2] s1(1) s2 freed_trans [OF s1(2) s2(2)] init pd_root(2) [OF ok] n by (simp add: pagedir_destroy_def)
qed


section \<open>Properties\<close>

text \<open>
  C4: Mapping a page updates the partial function from user pages to frames at exactly that page, and from then on
  \<open>pagedir_get_page\<close> finds for every user address what this function says; when there is no memory for a
  page table nothing changes.
\<close>

theorem pagedir_set_page_refines_map:
  assumes "pd_ok s pd" and "is_user_vaddr upage" and "pg_ofs upage = 0" and "pg_ofs kpage = 0"
    and "page_no kpage \<in> used_pages (alloc s)" and "drop_bit PTSHIFT (kpage - PHYS_BASE) < init_ram_pages s"
    and "\<forall>y. slot_page s pd y \<noteq> Some kpage" and "pd \<noteq> init_page_dir s" and "translation s pd (page_no upage) = None"
  shows "\<exists>ok s'. pagedir_set_page s pd upage kpage w = Some (ok, s') \<and> pd_ok s' pd \<and>
    (if ok then translation s' pd = (translation s pd)(page_no upage \<mapsto> (kpage, w)) else s' = s) \<and>
    (\<forall>va. is_user_vaddr va \<longrightarrow> pagedir_get_page s' pd va =
       Some (case translation s' pd (page_no va) of None \<Rightarrow> 0 | Some (p, w) \<Rightarrow> p + pg_ofs va))"
proof (rule pagedir_set_page_rep [OF assms(1-6) _ assms(8,9)])
  show "slot_page s pd y \<noteq> Some kpage" for y
    using assms(7) by blast
next
  assume "pagedir_set_page s pd upage kpage w = Some (False, s)"
  then show ?thesis
    using assms(1) pagedir_get_page_rep [OF assms(1)] by (intro exI [of _ False] exI [of _ s]) simp
next
  fix s'
  assume s': "pagedir_set_page s pd upage kpage w = Some (True, s')" "pd_ok s' pd"
    "translation s' pd = (translation s pd)(page_no upage \<mapsto> (kpage, w))"
  then show ?thesis
    using pagedir_get_page_rep [OF s'(2)] by (intro exI [of _ True] exI [of _ s']) simp
qed

text \<open>
  C12: Destroying a page directory succeeds and gives back exactly the pages it is made of: the directory, its page
  tables and the frames they map, each once; every other page stays allocated and keeps its contents.
\<close>

theorem pagedir_destroy_frees_all:
  assumes "pd_ok s pd" and "pd \<noteq> init_page_dir s"
  shows "\<exists>s'. pagedir_destroy s pd = Some s' \<and> palloc_ok (alloc s') \<and>
    used_pages (alloc s') = used_pages (alloc s) - {page_no p |p x. slot_page s pd x = Some p} \<and>
    (\<forall>q x. pg_ofs q = 0 \<and> x < PGSIZE \<and> (\<forall>y. slot_page s pd y \<noteq> Some q) \<longrightarrow>
       vmem s' (q + of_nat x) = vmem s (q + of_nat x))"
proof (rule pagedir_destroy_rep [OF assms])
  fix s'
  assume s': "pagedir_destroy s pd = Some s'" "freed s {p. \<exists>x. slot_page s pd x = Some p} s'"
  have "page_no ` {p. \<exists>x. slot_page s pd x = Some p} = {page_no p |p x. slot_page s pd x = Some p}"
    by auto
  then show ?thesis
    using s' by (auto simp: freed_def vm_ok_def)
qed

text \<open>An empty page directory in a small memory, with one page of the user pool allocated.\<close>

definition sample_vm :: vm where
  "sample_vm = \<lparr>alloc = \<lparr>kernel_pool = \<lparr>used_map = \<lparr>bit_cnt = 3, bits = [3]\<rparr>, base = 0xC0101000\<rparr>,
       user_pool = \<lparr>used_map = \<lparr>bit_cnt = 2, bits = [1]\<rparr>, base = 0xC0105000\<rparr>, mem = (\<lambda>_. 0)\<rparr>,
     init_page_dir = 0xC0101000, init_ram_pages = 1024, cr3 = 0x101000\<rparr>"

lemma sample_vm_used: "used_pages (alloc sample_vm) = {0xC0105, 0xC0101, 0xC0102}"
proof -
  have "{k :: nat. k < 3 \<and> bit (3 :: u32) k} = {0, 1}" "{k :: nat. k < 2 \<and> bit (1 :: u32) k} = {0}"
    by (auto simp: numeral_eq_Suc less_Suc_eq bit_0 bit_Suc)
  then show ?thesis
    by (simp add: sample_vm_def used_pages_def pool_used_def pool_start_def bit_at_def cong: conj_cong)
qed

lemma sample_vm_entry: "entry (vmem sample_vm) p i = 0"
  by (simp add: entry_def rd32_def sample_vm_def dec32_def upt_rec)

lemma sample_vm_map: "translation sample_vm pd = Map.empty"
  by (intro ext) (simp add: translation_def pte_at_def sample_vm_entry)

lemma sample_vm_slots: "slot_page sample_vm pd x = (if x = Root then Some pd else None)"
  by (cases x) (simp_all add: slot_page_def sample_vm_map sample_vm_entry)

lemma sample_vm_ok: "pd_ok sample_vm 0xC0102000"
proof -
  have "vm_ok sample_vm"
    by (simp add: vm_ok_def sample_vm_def palloc_ok_def pool_ok_def pool_start_def bitmap_ok_def elem_cnt_def wrap32_def)
  moreover have "pg_ofs 0xC0102000 = 0"
    by (simp add: pg_ofs_0)
  ultimately show ?thesis
    by (auto simp: pd_ok_def sample_vm_slots sample_vm_used sample_vm_entry split: if_splits)
qed

lemma sample_vm_fields: "init_ram_pages sample_vm = 1024" "init_page_dir sample_vm = 0xC0101000"
  by (simp_all add: sample_vm_def)

lemmas sample_vm_facts = sample_vm_fields is_user_vaddr_def PHYS_BASE_def pg_ofs_0 sample_vm_used sample_vm_map PTSHIFT_def

lemma sample_set_page:
  obtains s' where "pagedir_set_page sample_vm 0xC0102000 0x08048000 0xC0105000 True = Some (True, s')"
    "pd_ok s' 0xC0102000" "same_vm sample_vm s'" "translation s' 0xC0102000 = [0x08048 \<mapsto> (0xC0105000, True)]"
    "used_pages (alloc sample_vm) \<subseteq> used_pages (alloc s')"
    "\<And>y p. slot_page s' 0xC0102000 y = Some p \<Longrightarrow>
      slot_page sample_vm 0xC0102000 y = Some p \<or> p = 0xC0105000 \<or> page_no p \<notin> used_pages (alloc sample_vm)"
proof (rule pagedir_set_page_rep [OF sample_vm_ok, of "0x08048000" "0xC0105000" True])
  show "slot_page sample_vm 0xC0102000 y \<noteq> Some 0xC0105000" for y
    by (simp add: sample_vm_slots)
next
  let ?f = "\<lparr>PAL_ASSERT = False, PAL_ZERO = True, PAL_USER = False\<rparr>"
  assume "get_page sample_vm ?f = Some (0, sample_vm)"
  moreover have "\<exists>p s'. palloc_get_page (alloc sample_vm) ?f = Some (p, s') \<and> p \<noteq> 0"
    by (rule palloc_get_page_succeeds [of _ 2])
      (use sample_vm_ok in \<open>simp_all add: pd_ok_def vm_ok_def pool_of_def sample_vm_def bit_at_def bit_numeral_rec(2)\<close>)
  ultimately show thesis
    by (auto simp: get_page_def)
next
  fix s'
  assume "pagedir_set_page sample_vm 0xC0102000 0x08048000 0xC0105000 True = Some (True, s')"
    "pd_ok s' 0xC0102000" "same_vm sample_vm s'"
    "translation s' 0xC0102000 = (translation sample_vm 0xC0102000)(page_no 0x08048000 \<mapsto> (0xC0105000, True))"
    "used_pages (alloc sample_vm) \<subseteq> used_pages (alloc s')"
    "\<And>y p. slot_page s' 0xC0102000 y = Some p \<Longrightarrow>
      slot_page sample_vm 0xC0102000 y = Some p \<or> p = 0xC0105000 \<or> page_no p \<notin> used_pages (alloc sample_vm)"
  then show thesis
    using that [of s'] by (simp add: sample_vm_map)
qed (simp_all add: sample_vm_facts)

theorem pagedir_set_page_refines_map_witness:
  "\<exists>s'. pagedir_set_page sample_vm 0xC0102000 0x08048000 0xC0105000 True = Some (True, s') \<and>
     translation s' 0xC0102000 = [0x08048 \<mapsto> (0xC0105000, True)] \<and>
     pagedir_get_page s' 0xC0102000 0x08048123 = Some 0xC0105123"
proof -
  have "\<exists>ok s'. pagedir_set_page sample_vm 0xC0102000 0x08048000 0xC0105000 True = Some (ok, s') \<and> pd_ok s' 0xC0102000 \<and>
    (if ok then translation s' 0xC0102000 = (translation sample_vm 0xC0102000)(page_no 0x08048000 \<mapsto> (0xC0105000, True))
     else s' = sample_vm) \<and>
    (\<forall>va. is_user_vaddr va \<longrightarrow> pagedir_get_page s' 0xC0102000 va =
       Some (case translation s' 0xC0102000 (page_no va) of None \<Rightarrow> 0 | Some (p, w) \<Rightarrow> p + pg_ofs va))"
  proof (rule pagedir_set_page_refines_map [OF sample_vm_ok])
    show "\<forall>y. slot_page sample_vm 0xC0102000 y \<noteq> Some 0xC0105000"
      by (simp add: sample_vm_slots)
  qed (simp_all add: sample_vm_facts)
  moreover have "fst (the (pagedir_set_page sample_vm 0xC0102000 0x08048000 0xC0105000 True))"
    by (rule sample_set_page) simp
  ultimately obtain s' where
    s': "pagedir_set_page sample_vm 0xC0102000 0x08048000 0xC0105000 True = Some (True, s')"
    "translation s' 0xC0102000 = [page_no 0x08048000 \<mapsto> (0xC0105000, True)]"
    "\<forall>va. is_user_vaddr va \<longrightarrow> pagedir_get_page s' 0xC0102000 va =
       Some (case translation s' 0xC0102000 (page_no va) of None \<Rightarrow> 0 | Some (p, w) \<Rightarrow> p + pg_ofs va)"
    by (auto simp: sample_vm_map)
  have "pagedir_get_page s' 0xC0102000 0x08048123 = Some 0xC0105123"
    using s'(2) s'(3) [rule_format, of "0x08048123"]
    by (simp add: is_user_vaddr_def PHYS_BASE_def pg_ofs_def PGMASK_def BITMASK_def)
  then show ?thesis
    using s'(1,2) by (intro exI [of _ s']) simp
qed

theorem pagedir_destroy_frees_all_witness:
  "\<exists>s'. pagedir_set_page sample_vm 0xC0102000 0x08048000 0xC0105000 True = Some (True, s') \<and>
     (\<exists>s''. pagedir_destroy s' 0xC0102000 = Some s'' \<and> 0xC0105 \<notin> used_pages (alloc s'') \<and>
       0xC0101 \<in> used_pages (alloc s''))"
proof (rule sample_set_page)
  fix s'
  assume s': "pagedir_set_page sample_vm 0xC0102000 0x08048000 0xC0105000 True = Some (True, s')"
    "pd_ok s' 0xC0102000" "same_vm sample_vm s'" "translation s' 0xC0102000 = [0x08048 \<mapsto> (0xC0105000, True)]"
    "used_pages (alloc sample_vm) \<subseteq> used_pages (alloc s')"
    "\<And>y p. slot_page s' 0xC0102000 y = Some p \<Longrightarrow>
      slot_page sample_vm 0xC0102000 y = Some p \<or> p = 0xC0105000 \<or> page_no p \<notin> used_pages (alloc sample_vm)"
  have "init_page_dir s' = 0xC0101000"
    using s'(3) by (simp add: same_vm_def sample_vm_fields)
  then obtain s'' where s'': "pagedir_destroy s' 0xC0102000 = Some s''"
    "used_pages (alloc s'') = used_pages (alloc s') - {page_no p |p x. slot_page s' 0xC0102000 x = Some p}"
    using pagedir_destroy_frees_all [OF s'(2)] by auto
  have "slot_page s' 0xC0102000 (Frame 0x08048) = Some 0xC0105000"
    using s'(4) by (simp add: slot_page_def)
  then have "page_no 0xC0105000 \<in> {page_no p |p x. slot_page s' 0xC0102000 x = Some p}"
    by blast
  moreover have "page_no p \<noteq> 0xC0101" if "slot_page s' 0xC0102000 x = Some p" for p x
    using s'(6) [OF that] by (auto simp: sample_vm_slots sample_vm_used split: if_splits)
  then have "0xC0101 \<notin> {page_no p |p x. slot_page s' 0xC0102000 x = Some p}"
    by force
  moreover have "0xC0101 \<in> used_pages (alloc s')"
    using s'(5) by (auto simp: sample_vm_used)
  ultimately show ?thesis
    using s'(1) s'' by (intro exI [of _ s'] conjI exI [of _ s'']) auto
qed

end
