(* ===== verification/Spec2Isabelle.thy ===== *)
theory Spec2Isabelle
  imports Kernel_List_Order Threads_Palloc Filesys_Paths Threads_Properties Lib_Arithmetic Lib_Stdlib Lib_Random Userprog_Destroy
begin

text \<open>
  A verification development for the Pintos kernel under \<open>src/src\<close>.

  \<^item> \<open>Pintos_Prelude\<close>: machine words, assertions, byte buffers, the queue contract.
  \<^item> \<open>Kernel_List\<close>, \<open>Kernel_List_Order\<close>: \<open>lib/kernel/list.c\<close>.
\<close>

end
